(* ===== verification/Aw_Prelude.thy ===== *)
theory Aw_Prelude
  imports Main "HOL-Library.Word" "HOL-Library.Multiset"
begin

text \<open>
  Shared vocabulary of the development: the machine integer types of the Rust sources, Rust's
  panics and \<open>Result\<close> as values, indexing that panics out of range, and the generic lemmas
  on lists and words that the component theories use.

  \<^item> \<open>u8\<close>, \<open>u32\<close> and \<open>u64\<close> are words of that width. A \<open>usize\<close> that counts or indexes
    the elements of an allocated vector is a \<open>nat\<close>: such a number is at most the length of a
    vector and therefore never wraps.
  \<^item> A computation that may panic returns \<open>'a rust\<close>, a sum with the reason of the panic on the
    left. \<open>and_then\<close> sequences two of them. The reason \<open>Diverges\<close> stands for a loop that does not
    end; \<open>returns\<close> embeds a loop whose model is a \<open>partial_function\<close>.
\<close>

named_theorems panic_simps \<open>unfolding of the panic monad and of checked indexing\<close>
named_theorems frame_simps \<open>what an operation leaves unchanged\<close>

type_synonym u8 = "8 word"
type_synonym u16 = "16 word"
type_synonym u32 = "32 word"
type_synonym u64 = "64 word"
type_synonym usize = nat

section \<open>Panics and results\<close>

datatype panic =
    Index_Out_Of_Bounds
  | Unwrap_None
  | Assertion_Failed
  | Unreachable_Reached
  | Explicit_Panic
  | Diverges

type_synonym 'a rust = "panic + 'a"

datatype ('a, 'e) result = Ok 'a | Err 'e

definition and_then :: "'a rust \<Rightarrow> ('a \<Rightarrow> 'b rust) \<Rightarrow> 'b rust" where
  "and_then m f = (case m of Inl e \<Rightarrow> Inl e | Inr x \<Rightarrow> f x)"

definition unwrap :: "'a option \<Rightarrow> 'a rust" where
  "unwrap x = (case x of None \<Rightarrow> Inl Unwrap_None | Some y \<Rightarrow> Inr y)"

definition vec_get :: "'a list \<Rightarrow> usize \<Rightarrow> 'a rust" where
  "vec_get xs i = (if i < length xs then Inr (xs ! i) else Inl Index_Out_Of_Bounds)"

definition vec_set :: "'a list \<Rightarrow> usize \<Rightarrow> 'a \<Rightarrow> 'a list rust" where
  "vec_set xs i v = (if i < length xs then Inr (xs[i := v]) else Inl Index_Out_Of_Bounds)"

definition returns :: "'a option \<Rightarrow> 'a rust" where
  "returns x = (case x of None \<Rightarrow> Inl Diverges | Some y \<Rightarrow> Inr y)"

lemma returns_simps [simp]:
  "returns None = Inl Diverges"
  "returns (Some y) = Inr y"
  by (simp_all add: returns_def)

lemma and_then_simps [simp]:
  "and_then (Inl e) f = Inl e"
  "and_then (Inr x) f = f x"
  by (simp_all add: and_then_def)

lemma and_then_Inr_iff: "and_then m f = Inr y \<longleftrightarrow> (\<exists>x. m = Inr x \<and> f x = Inr y)"
  by (cases m) auto

text \<open>Mapping a computation that may panic over a list, left to right.\<close>

fun map_rust :: "('a \<Rightarrow> 'b rust) \<Rightarrow> 'a list \<Rightarrow> 'b list rust" where
  "map_rust f [] = Inr []"
| "map_rust f (x # xs) = and_then (f x) (\<lambda>y. and_then (map_rust f xs) (\<lambda>ys. Inr (y # ys)))"

lemma map_rust_Inr: "(\<And>x. x \<in> set xs \<Longrightarrow> f x = Inr (g x)) \<Longrightarrow> map_rust f xs = Inr (map g xs)"
  by (induction xs) simp_all

lemma and_then_assoc: "and_then (and_then m f) g = and_then m (\<lambda>x. and_then (f x) g)"
  by (cases m) auto

lemma unwrap_simps [simp]:
  "unwrap None = Inl Unwrap_None"
  "unwrap (Some y) = Inr y"
  by (simp_all add: unwrap_def)

lemma unwrap_Inr_iff [simp]: "unwrap x = Inr y \<longleftrightarrow> x = Some y"
  by (cases x) auto

lemma vec_get_in_range [simp]: "i < length xs \<Longrightarrow> vec_get xs i = Inr (xs ! i)"
  by (simp add: vec_get_def)

lemma vec_set_in_range [simp]: "i < length xs \<Longrightarrow> vec_set xs i v = Inr (xs[i := v])"
  by (simp add: vec_set_def)

lemmas [panic_simps] = and_then_def vec_get_def vec_set_def unwrap_def

section \<open>Arithmetic\<close>

lemma digits_less:
  fixes a b c d k :: nat
  assumes "b < k" "d < k"
  shows "a * k + b < c * k + d \<longleftrightarrow> a < c \<or> a = c \<and> b < d"
proof (cases a c rule: linorder_cases)
  case less
  then have "(a + 1) * k \<le> c * k" by (intro mult_le_mono1) simp
  then show ?thesis using less assms by simp
next
  case greater
  then have "(c + 1) * k \<le> a * k" by (intro mult_le_mono1) simp
  then show ?thesis using greater assms by simp
qed simp

lemma digits_eq:
  fixes a b c d k :: nat
  assumes "b < k" "d < k"
  shows "a * k + b = c * k + d \<longleftrightarrow> a = c \<and> b = d"
  using digits_less[OF assms, of a c] digits_less[OF assms(2,1), of c a] by (metis less_irrefl linorder_neqE_nat)

end
