(* ===== verification/Ring_Queue.thy ===== *)
theory Ring_Queue
  imports Aw_Prelude
begin

text \<open>
  The ring queue \<open>RingQ\<close> of \<open>awkernel_lib_verified/src/ringq.rs\<close>, the bounded FIFO under the
  bounded channels and under the packet rings of the network interfaces.
\<close>

section \<open>Model\<close>

record 'a ringq =
  rq_queue :: "'a option list"
  rq_len :: usize
  rq_head :: usize
  rq_tail :: usize

definition rq_new :: "usize \<Rightarrow> 'a ringq" where
  "rq_new queue_len =
     \<lparr>rq_queue = replicate queue_len None, rq_len = 0, rq_head = 0, rq_tail = 0\<rparr>"

definition rq_is_empty :: "'a ringq \<Rightarrow> bool" where
  "rq_is_empty q \<longleftrightarrow> rq_len q = 0"

definition rq_queue_size :: "'a ringq \<Rightarrow> usize" where
  "rq_queue_size q = length (rq_queue q)"

definition rq_is_full :: "'a ringq \<Rightarrow> bool" where
  "rq_is_full q \<longleftrightarrow> length (rq_queue q) \<le> rq_len q"

text \<open>\<open>push\<close> gives the element back in \<open>Err\<close> when the queue is full.\<close>

definition rq_push :: "'a ringq \<Rightarrow> 'a \<Rightarrow> ((unit, 'a) result \<times> 'a ringq) rust" where
  "rq_push q data =
     (if length (rq_queue q) = rq_len q then Inr (Err data, q)
      else and_then (vec_set (rq_queue q) (rq_tail q) (Some data)) (\<lambda>queue'.
        let tail1 = rq_tail q + 1;
            tail2 = (if tail1 = length queue' then 0 else tail1)
        in Inr (Ok (), q\<lparr>rq_queue := queue', rq_tail := tail2, rq_len := rq_len q + 1\<rparr>)))"

definition rq_pop :: "'a ringq \<Rightarrow> ('a option \<times> 'a ringq) rust" where
  "rq_pop q =
     (if rq_len q = 0 then Inr (None, q)
      else and_then (vec_get (rq_queue q) (rq_head q)) (\<lambda>result.
        let queue' = (rq_queue q)[rq_head q := None];
            head1 = rq_head q + 1;
            head2 = (if head1 = length queue' then 0 else head1)
        in Inr (result, q\<lparr>rq_queue := queue', rq_head := head2, rq_len := rq_len q - 1\<rparr>)))"

text \<open>\<open>head\<close> indexes the vector even when the queue has size 0, and then panics.\<close>

definition rq_peek :: "'a ringq \<Rightarrow> 'a option rust" where
  "rq_peek q = vec_get (rq_queue q) (rq_head q)"

record 'a iter_ringq =
  it_ringq :: "'a ringq"
  it_len :: usize
  it_pos :: usize

definition rq_iter :: "'a ringq \<Rightarrow> 'a iter_ringq" where
  "rq_iter q = \<lparr>it_ringq = q, it_len = rq_len q, it_pos = rq_head q\<rparr>"

definition it_next :: "'a iter_ringq \<Rightarrow> ('a option \<times> 'a iter_ringq) rust" where
  "it_next it =
     (if it_len it = 0 then Inr (None, it)
      else and_then (vec_get (rq_queue (it_ringq it)) (it_pos it)) (\<lambda>slot.
        case slot of
          Some result \<Rightarrow>
            (let pos1 = it_pos it + 1;
                 pos2 = (if pos1 = length (rq_queue (it_ringq it)) then 0 else pos1)
             in Inr (Some result, it\<lparr>it_pos := pos2, it_len := it_len it - 1\<rparr>))
        | None \<Rightarrow> Inl Unreachable_Reached))"

text \<open>Draining the iterator, as a \<open>for\<close> loop over it does; the remaining length decreases.\<close>

function it_collect :: "'a iter_ringq \<Rightarrow> 'a list rust" where
  "it_collect it =
     (case it_next it of
        Inl e \<Rightarrow> Inl e
      | Inr (None, it') \<Rightarrow> Inr []
      | Inr (Some x, it') \<Rightarrow> and_then (it_collect it') (\<lambda>xs. Inr (x # xs)))"
  by pat_completeness auto
termination
  by (relation "measure it_len")
     (auto simp: it_next_def and_then_def vec_get_def Let_def split: if_splits option.splits)

declare it_collect.simps [simp del]

section \<open>Invariant and abstraction\<close>

text \<open>
  The live slots are the \<open>rq_len\<close> slots that start at the head and wrap around at the end of
  the vector; exactly these hold a value.
\<close>

definition rq_slot :: "'a ringq \<Rightarrow> nat \<Rightarrow> nat" where
  "rq_slot q i = (rq_head q + i) mod length (rq_queue q)"

definition rq_inv :: "'a ringq \<Rightarrow> bool" where
  "rq_inv q \<longleftrightarrow>
     rq_len q \<le> length (rq_queue q) \<and>
     (if rq_queue q = [] then rq_head q = 0 \<and> rq_tail q = 0
      else rq_head q < length (rq_queue q) \<and> rq_tail q = rq_slot q (rq_len q)) \<and>
     (\<forall>i < rq_len q. rq_queue q ! rq_slot q i \<noteq> None)"

definition rq_list :: "'a ringq \<Rightarrow> 'a list" where
  "rq_list q = map (\<lambda>i. the (rq_queue q ! rq_slot q i)) [0..<rq_len q]"

lemma length_rq_list [simp]: "length (rq_list q) = rq_len q"
  by (simp add: rq_list_def)

text \<open>The incremental wrap-around of the code is the modulo of the specification.\<close>

lemma wrap_succ: "i < n \<Longrightarrow> (if i + 1 = n then 0 else i + 1) = Suc i mod (n::nat)"
  by auto

lemma mod_add_eq_if: "h < n \<Longrightarrow> i \<le> n \<Longrightarrow> (h + i) mod n = (if h + i < n then h + i else h + i - n)"
  for n :: nat
  by (auto simp: mod_if)

lemma rq_slot_less: "rq_queue q \<noteq> [] \<Longrightarrow> rq_slot q i < length (rq_queue q)"
  by (simp add: rq_slot_def)

lemma rq_slot_inj:
  assumes "rq_head q < length (rq_queue q)" "i < length (rq_queue q)" "j < length (rq_queue q)"
  shows "rq_slot q i = rq_slot q j \<longleftrightarrow> i = j"
  using assms by (auto simp: rq_slot_def mod_add_eq_if split: if_splits)

lemma rq_inv_new: "rq_inv (rq_new n)"
  by (simp add: rq_inv_def rq_new_def rq_slot_def)

lemma rq_list_new: "rq_list (rq_new n) = []"
  by (simp add: rq_list_def rq_new_def)

lemma rq_queue_size_new: "rq_queue_size (rq_new n) = n"
  by (simp add: rq_queue_size_def rq_new_def)

lemma rq_invD:
  assumes "rq_inv q"
  shows "rq_len q \<le> length (rq_queue q)"
    and "rq_queue q \<noteq> [] \<Longrightarrow> rq_head q < length (rq_queue q)"
    and "rq_queue q \<noteq> [] \<Longrightarrow> rq_tail q = rq_slot q (rq_len q)"
    and "i < rq_len q \<Longrightarrow> rq_queue q ! rq_slot q i \<noteq> None"
  using assms by (auto simp: rq_inv_def)

lemma rq_is_full_inv: "rq_inv q \<Longrightarrow> rq_is_full q \<longleftrightarrow> rq_len q = length (rq_queue q)"
  by (auto simp: rq_is_full_def rq_inv_def)

section \<open>Operations refine the list\<close>

text \<open>
  One push into a queue that is not full: the state after it in closed form.
\<close>

lemma rq_push_state:
  assumes inv: "rq_inv q" and room: "rq_len q < length (rq_queue q)"
  shows "rq_push q x =
    Inr (Ok (), q\<lparr>rq_queue := (rq_queue q)[rq_slot q (rq_len q) := Some x],
                  rq_tail := rq_slot q (Suc (rq_len q)), rq_len := Suc (rq_len q)\<rparr>)"
proof -
  have ne: "rq_queue q \<noteq> []" using room by auto
  have tail: "rq_tail q = rq_slot q (rq_len q)" using rq_invD(3)[OF inv ne] .
  have "Suc (rq_slot q (rq_len q)) mod length (rq_queue q) = rq_slot q (Suc (rq_len q))"
    by (simp add: rq_slot_def mod_Suc_eq)
  then show ?thesis
    using room rq_slot_less[OF ne, of "rq_len q"]
    by (auto simp: rq_push_def tail Let_def mod_Suc split: if_splits)
qed

lemma rq_push_list:
  assumes inv: "rq_inv q" and room: "rq_len q < length (rq_queue q)"
  shows "\<exists>q'. rq_push q x = Inr (Ok (), q') \<and> rq_inv q' \<and> rq_list q' = rq_list q @ [x]
           \<and> rq_queue_size q' = rq_queue_size q"
proof -
  define q' where "q' = q\<lparr>rq_queue := (rq_queue q)[rq_slot q (rq_len q) := Some x],
     rq_tail := rq_slot q (Suc (rq_len q)), rq_len := Suc (rq_len q)\<rparr>"
  have ne: "rq_queue q \<noteq> []" using room by auto
  note hd = rq_invD(2)[OF inv ne]
  have slot: "rq_slot q' i = rq_slot q i" for i
    by (simp add: rq_slot_def q'_def)
  have get: "rq_queue q' ! rq_slot q i = (if i = rq_len q then Some x else rq_queue q ! rq_slot q i)"
    if "i < Suc (rq_len q)" for i
    using that room rq_slot_less[OF ne] rq_slot_inj[OF hd, of i "rq_len q"]
    by (auto simp: q'_def nth_list_update)
  have "rq_inv q'"
    unfolding rq_inv_def slot using get rq_invD(4)[OF inv] room hd ne
    by (auto simp: q'_def less_Suc_eq)
  moreover have "rq_list q' = rq_list q @ [x]"
    unfolding rq_list_def slot using get by (simp add: q'_def)
  ultimately show ?thesis
    using rq_push_state[OF assms, of x] by (auto simp: q'_def rq_queue_size_def)
qed

lemma rq_push_full:
  assumes "rq_inv q" "rq_is_full q"
  shows "rq_push q x = Inr (Err x, q)"
  using assms by (simp add: rq_push_def rq_is_full_inv)

lemma rq_pop_empty:
  assumes "rq_len q = 0" shows "rq_pop q = Inr (None, q)"
  using assms by (simp add: rq_pop_def)

lemma rq_pop_state:
  assumes inv: "rq_inv q" and ne: "0 < rq_len q"
  shows "rq_pop q =
    Inr (rq_queue q ! rq_head q, q\<lparr>rq_queue := (rq_queue q)[rq_head q := None],
       rq_head := Suc (rq_head q) mod length (rq_queue q), rq_len := rq_len q - 1\<rparr>)"
proof -
  have "rq_queue q \<noteq> []" using rq_invD(1)[OF inv] ne by auto
  note hd = rq_invD(2)[OF inv this]
  show ?thesis using ne hd wrap_succ[OF hd] by (simp add: rq_pop_def Let_def)
qed

lemma rq_pop_list:
  assumes inv: "rq_inv q" and list: "rq_list q = x # xs"
  shows "\<exists>q'. rq_pop q = Inr (Some x, q') \<and> rq_inv q' \<and> rq_list q' = xs
           \<and> rq_queue_size q' = rq_queue_size q"
proof -
  define q' where "q' = q\<lparr>rq_queue := (rq_queue q)[rq_head q := None],
       rq_head := Suc (rq_head q) mod length (rq_queue q), rq_len := rq_len q - 1\<rparr>"
  have pos: "0 < rq_len q" using list length_rq_list[of q] by simp
  have ne: "rq_queue q \<noteq> []" using rq_invD(1)[OF inv] pos by auto
  note hd = rq_invD(2)[OF inv ne]
  have slot0: "rq_slot q 0 = rq_head q" using hd by (simp add: rq_slot_def)
  have slot: "rq_slot q' i = rq_slot q (Suc i)" for i
    by (simp add: rq_slot_def q'_def mod_add_left_eq)
  have get: "rq_queue q' ! rq_slot q (Suc i) = rq_queue q ! rq_slot q (Suc i)"
    if "Suc i < rq_len q" for i
    using that ne rq_invD(1)[OF inv] rq_slot_inj[OF hd, of "Suc i" 0] slot0
    by (simp add: q'_def)
  have "rq_list q = map (\<lambda>i. the (rq_queue q ! rq_slot q i)) (0 # [Suc 0..<rq_len q])"
    using pos by (simp add: rq_list_def upt_conv_Cons)
  then have x: "x = the (rq_queue q ! rq_head q)"
    and xs: "xs = map (\<lambda>i. the (rq_queue q ! rq_slot q i)) [Suc 0..<rq_len q]"
    using list slot0 by auto
  have some: "rq_queue q ! rq_head q = Some x"
    using rq_invD(4)[OF inv pos] slot0 x by auto
  have "rq_list q' = map (\<lambda>i. the (rq_queue q ! rq_slot q (Suc i))) [0..<rq_len q - 1]"
    unfolding rq_list_def slot using get by (simp add: q'_def)
  also have "\<dots> = xs"
    using pos by (auto simp: xs list_eq_iff_nth_eq)
  finally have list': "rq_list q' = xs" .
  have "rq_inv q'"
    unfolding rq_inv_def slot using get rq_invD[OF inv] pos ne
    by (auto simp: q'_def)
  then show ?thesis
    using rq_pop_state[OF inv pos] some list' by (auto simp: q'_def rq_queue_size_def)
qed

lemma rq_peek_list:
  assumes inv: "rq_inv q" and list: "rq_list q = x # xs"
  shows "rq_peek q = Inr (Some x)"
proof -
  have pos: "0 < rq_len q" using list length_rq_list[of q] by simp
  have ne: "rq_queue q \<noteq> []" using rq_invD(1)[OF inv] pos by auto
  note hd = rq_invD(2)[OF inv ne]
  have "rq_list q ! 0 = the (rq_queue q ! rq_head q)"
    using pos hd by (simp add: rq_list_def rq_slot_def)
  then show ?thesis
    using list rq_invD(4)[OF inv pos] hd by (auto simp: rq_peek_def rq_slot_def)
qed

text \<open>The iterator yields the queued elements in order and never reaches its \<open>unreachable!\<close>.\<close>

lemma it_collect_suffix:
  assumes inv: "rq_inv q" and "k + n = rq_len q"
  shows "it_collect \<lparr>it_ringq = q, it_len = n, it_pos = rq_slot q k\<rparr> = Inr (drop k (rq_list q))"
  using assms(2)
proof (induction n arbitrary: k)
  case 0
  then show ?case by (simp add: it_collect.simps it_next_def)
next
  case (Suc n)
  then have k: "k < rq_len q" by simp
  then have ne: "rq_queue q \<noteq> []" using rq_invD(1)[OF inv] by auto
  obtain x where x: "rq_queue q ! rq_slot q k = Some x"
    using rq_invD(4)[OF inv k] by auto
  have pos: "(if Suc (rq_slot q k) = length (rq_queue q) then 0 else Suc (rq_slot q k)) = rq_slot q (Suc k)"
    by (simp add: rq_slot_def mod_Suc)
  have "it_next \<lparr>it_ringq = q, it_len = Suc n, it_pos = rq_slot q k\<rparr> =
        Inr (Some x, \<lparr>it_ringq = q, it_len = n, it_pos = rq_slot q (Suc k)\<rparr>)"
    using rq_slot_less[OF ne, of k] x pos by (simp add: it_next_def Let_def)
  moreover have "drop k (rq_list q) = x # drop (Suc k) (rq_list q)"
    using k x by (simp add: Cons_nth_drop_Suc [symmetric] rq_list_def)
  ultimately show ?case
    using Suc.IH[of "Suc k"] Suc.prems by (subst it_collect.simps) simp
qed

lemma it_collect_iter:
  assumes "rq_inv q"
  shows "it_collect (rq_iter q) = Inr (rq_list q)"
proof (cases "rq_queue q = []")
  case True
  then show ?thesis
    using assms by (simp add: rq_iter_def rq_inv_def it_collect.simps it_next_def rq_list_def)
next
  case False
  then have "rq_head q = rq_slot q 0"
    using rq_invD(2)[OF assms] by (simp add: rq_slot_def)
  then show ?thesis
    using it_collect_suffix[OF assms, of 0 "rq_len q"] by (simp add: rq_iter_def)
qed

text \<open>The slots that are not live are \<open>None\<close>, so that \<open>head\<close> of an empty queue is \<open>None\<close>.\<close>

definition rq_clean :: "'a ringq \<Rightarrow> bool" where
  "rq_clean q \<longleftrightarrow> (\<forall>i < length (rq_queue q). rq_len q \<le> i \<longrightarrow> rq_queue q ! rq_slot q i = None)"

lemma rq_clean_new: "rq_clean (rq_new n)"
  by (simp add: rq_clean_def rq_new_def rq_slot_def)

lemma rq_push_clean:
  assumes inv: "rq_inv q" and "rq_clean q" "rq_push q x = Inr (r, q')"
  shows "rq_clean q'"
proof (cases "rq_len q < length (rq_queue q)")
  case True
  have ne: "rq_queue q \<noteq> []" using True by auto
  have q': "q' = q\<lparr>rq_queue := (rq_queue q)[rq_slot q (rq_len q) := Some x], rq_tail := rq_slot q (Suc (rq_len q)), rq_len := Suc (rq_len q)\<rparr>"
    using assms(3) rq_push_state[OF inv True, of x] by simp
  have slot: "rq_slot q' i = rq_slot q i" for i by (simp add: rq_slot_def q')
  have "rq_queue q' ! rq_slot q i = None" if "rq_len q < i" "i < length (rq_queue q)" for i
    using rq_slot_inj[OF rq_invD(2)[OF inv ne], of i "rq_len q"] that assms(2) by (simp add: q' rq_clean_def)
  then show ?thesis unfolding rq_clean_def slot by (simp add: q')
next
  case False
  then show ?thesis using assms rq_invD(1)[OF inv] by (simp add: rq_push_def)
qed

lemma rq_pop_clean:
  assumes inv: "rq_inv q" and "rq_clean q" "rq_pop q = Inr (r, q')"
  shows "rq_clean q'"
proof (cases "0 < rq_len q")
  case True
  have ne: "rq_queue q \<noteq> []" using rq_invD(1)[OF inv] True by auto
  note hd = rq_invD(2)[OF inv ne]
  have q': "q' = q\<lparr>rq_queue := (rq_queue q)[rq_head q := None], rq_head := Suc (rq_head q) mod length (rq_queue q), rq_len := rq_len q - 1\<rparr>"
    using assms(3) rq_pop_state[OF inv True] by simp
  have slot: "rq_slot q' i = rq_slot q (Suc i)" for i by (simp add: rq_slot_def q' mod_add_left_eq)
  have "rq_queue q' ! rq_slot q (Suc i) = None" if "rq_len q - 1 \<le> i" "i < length (rq_queue q)" for i
  proof (cases "Suc i = length (rq_queue q)")
    case True
    then have "rq_slot q (Suc i) = rq_head q" using hd by (simp add: rq_slot_def)
    then show ?thesis using hd by (simp add: q')
  next
    case False
    then have "rq_queue q ! rq_slot q (Suc i) = None" using that assms(2) unfolding rq_clean_def by simp
    then show ?thesis using hd by (simp add: q' nth_list_update)
  qed
  then show ?thesis unfolding rq_clean_def slot by (simp add: q')
next
  case False
  then show ?thesis using assms by (simp add: rq_pop_def)
qed

lemma rq_peek_empty:
  assumes "rq_inv q" "rq_clean q" "rq_queue q \<noteq> []" "rq_list q = []"
  shows "rq_peek q = Inr None"
proof -
  have "rq_len q = 0" using assms(4) length_rq_list[of q] by simp
  moreover have "rq_slot q 0 = rq_head q" using rq_invD(2)[OF assms(1,3)] by (simp add: rq_slot_def)
  ultimately show ?thesis
    using assms(2) rq_invD(2)[OF assms(1,3)] assms(3) by (auto simp: rq_peek_def rq_clean_def)
qed

section \<open>The bounded FIFO interface\<close>

text \<open>
  What a client of a bounded queue may assume. Sequences of operations run on an implementation
  are compared with the same sequence on a plain list.
\<close>

datatype 'a fifo_op = Push_Op 'a | Pop_Op

datatype 'a fifo_out = Pushed | Rejected 'a | Popped "'a option"

fun fifo_run :: "('q \<Rightarrow> 'a \<Rightarrow> ((unit, 'a) result \<times> 'q) rust) \<Rightarrow> ('q \<Rightarrow> ('a option \<times> 'q) rust) \<Rightarrow>
    'q \<Rightarrow> 'a fifo_op list \<Rightarrow> ('a fifo_out list \<times> 'q) rust" where
  "fifo_run push pop q [] = Inr ([], q)"
| "fifo_run push pop q (Push_Op x # ops) = and_then (push q x) (\<lambda>(r, q').
     and_then (fifo_run push pop q' ops) (\<lambda>(outs, q'').
       Inr ((case r of Ok _ \<Rightarrow> Pushed | Err y \<Rightarrow> Rejected y) # outs, q'')))"
| "fifo_run push pop q (Pop_Op # ops) = and_then (pop q) (\<lambda>(r, q').
     and_then (fifo_run push pop q' ops) (\<lambda>(outs, q''). Inr (Popped r # outs, q'')))"

fun fifo_spec :: "nat \<Rightarrow> 'a list \<Rightarrow> 'a fifo_op list \<Rightarrow> 'a fifo_out list \<times> 'a list" where
  "fifo_spec n xs [] = ([], xs)"
| "fifo_spec n xs (Push_Op x # ops) =
     (if length xs < n then map_prod ((#) Pushed) id (fifo_spec n (xs @ [x]) ops)
      else map_prod ((#) (Rejected x)) id (fifo_spec n xs ops))"
| "fifo_spec n xs (Pop_Op # ops) =
     (case xs of
        [] \<Rightarrow> map_prod ((#) (Popped None)) id (fifo_spec n xs ops)
      | y # ys \<Rightarrow> map_prod ((#) (Popped (Some y))) id (fifo_spec n ys ops))"

locale bounded_fifo =
  fixes push :: "'q \<Rightarrow> 'a \<Rightarrow> ((unit, 'a) result \<times> 'q) rust"
    and pop :: "'q \<Rightarrow> ('a option \<times> 'q) rust"
    and elems :: "'q \<Rightarrow> 'a list"
    and capacity :: "'q \<Rightarrow> nat"
    and inv :: "'q \<Rightarrow> bool"
  assumes push_room: "inv q \<Longrightarrow> length (elems q) < capacity q \<Longrightarrow>
      \<exists>q'. push q x = Inr (Ok (), q') \<and> inv q' \<and> elems q' = elems q @ [x] \<and> capacity q' = capacity q"
    and push_full: "inv q \<Longrightarrow> capacity q \<le> length (elems q) \<Longrightarrow> push q x = Inr (Err x, q)"
    and pop_nonempty: "inv q \<Longrightarrow> elems q = x # xs \<Longrightarrow>
      \<exists>q'. pop q = Inr (Some x, q') \<and> inv q' \<and> elems q' = xs \<and> capacity q' = capacity q"
    and pop_empty: "inv q \<Longrightarrow> elems q = [] \<Longrightarrow> pop q = Inr (None, q)"
begin

lemma run_refines_spec:
  assumes "inv q"
  shows "\<exists>q'. fifo_run push pop q ops = Inr (fst (fifo_spec (capacity q) (elems q) ops), q')
    \<and> inv q' \<and> elems q' = snd (fifo_spec (capacity q) (elems q) ops) \<and> capacity q' = capacity q"
  using assms
proof (induction ops arbitrary: q)
  case Nil
  then show ?case by simp
next
  case (Cons op ops)
  show ?case
  proof (cases op)
    case (Push_Op x)
    show ?thesis
    proof (cases "length (elems q) < capacity q")
      case True
      obtain q1 where q1: "push q x = Inr (Ok (), q1)" "inv q1" "elems q1 = elems q @ [x]"
        "capacity q1 = capacity q"
        using push_room[OF Cons.prems True] by blast
      then show ?thesis using Cons.IH[OF q1(2)] True Push_Op by auto
    next
      case False
      then show ?thesis
        using push_full[OF Cons.prems, of x] Cons.IH[OF Cons.prems] Push_Op by auto
    qed
  next
    case Pop_Op
    show ?thesis
    proof (cases "elems q")
      case Nil
      then show ?thesis using pop_empty[OF Cons.prems Nil] Cons.IH[OF Cons.prems] Pop_Op by auto
    next
      case (Cons y ys)
      obtain q1 where q1: "pop q = Inr (Some y, q1)" "inv q1" "elems q1 = ys" "capacity q1 = capacity q"
        using pop_nonempty[OF Cons.prems Cons] by blast
      then show ?thesis using Cons.IH[OF q1(2)] Pop_Op Cons by auto
    qed
  qed
qed

end

interpretation rq: bounded_fifo rq_push rq_pop rq_list rq_queue_size rq_inv
proof unfold_locales
  fix q :: "'a ringq" and x
  assume inv: "rq_inv q"
  show "length (rq_list q) < rq_queue_size q \<Longrightarrow>
      \<exists>q'. rq_push q x = Inr (Ok (), q') \<and> rq_inv q' \<and> rq_list q' = rq_list q @ [x]
        \<and> rq_queue_size q' = rq_queue_size q"
    using rq_push_list[OF inv, of x] by (simp add: rq_queue_size_def)
  show "rq_queue_size q \<le> length (rq_list q) \<Longrightarrow> rq_push q x = Inr (Err x, q)"
    using rq_push_full[OF inv, of x] by (simp add: rq_queue_size_def rq_is_full_def)
  show "\<And>xs. rq_list q = x # xs \<Longrightarrow> \<exists>q'. rq_pop q = Inr (Some x, q') \<and> rq_inv q' \<and> rq_list q' = xs
        \<and> rq_queue_size q' = rq_queue_size q"
    using rq_pop_list[OF inv] by blast
  show "rq_list q = [] \<Longrightarrow> rq_pop q = Inr (None, q)"
    using rq_pop_empty[of q] length_rq_list[of q] by simp
qed

text \<open>
  C16. Every sequence of \<open>push\<close> and \<open>pop\<close> calls on a ring queue of size \<open>n\<close> runs without a panic
  and gives exactly the results of the same calls on a FIFO list bounded by \<open>n\<close>: a push into a
  full queue hands the element back, a pop from an empty queue returns \<open>None\<close>, elements leave in
  the order they entered, and the ring invariant holds at the end.
\<close>

theorem ringq_refines_bounded_fifo:
  "\<exists>q'. fifo_run rq_push rq_pop (rq_new n) ops = Inr (fst (fifo_spec n [] ops), q')
      \<and> rq_inv q' \<and> rq_list q' = snd (fifo_spec n [] ops) \<and> rq_queue_size q' = n"
  using rq.run_refines_spec[OF rq_inv_new, of n ops]
  by (simp add: rq_list_new rq_queue_size_new)

end
