(* ===== verification/Delta_List.thy ===== *)
theory Delta_List
  imports Aw_Prelude
begin

text \<open>
  The delta list \<open>DeltaList\<close> of \<open>awkernel_lib_verified/src/delta_list.rs\<close>, the timer queue of the
  sleeping tasks: every node keeps the difference of its time to the node before it.
\<close>

section \<open>Model\<close>

datatype 'a delta_list = DNil | DCons u64 'a "'a delta_list"

fun insert_delta :: "'a delta_list \<Rightarrow> u64 \<Rightarrow> 'a \<Rightarrow> 'a delta_list" where
  "insert_delta DNil delta data = DCons delta data DNil"
| "insert_delta (DCons d x next) delta data =
     (if delta < d then DCons delta data (DCons (d - delta) x next)
      else DCons d x (insert_delta next (delta - d) data))"

definition dl_insert :: "'a delta_list \<Rightarrow> u64 \<Rightarrow> 'a \<Rightarrow> 'a delta_list" where
  "dl_insert l dur data = insert_delta l dur data"

fun dl_front :: "'a delta_list \<Rightarrow> (u64 \<times> 'a) option" where
  "dl_front DNil = None"
| "dl_front (DCons d x next) = Some (d, x)"

text \<open>\<open>pop\<close> cuts the first node off: it returns that node alone and leaves the rest.\<close>

fun dl_pop :: "'a delta_list \<Rightarrow> 'a delta_list option \<times> 'a delta_list" where
  "dl_pop DNil = (None, DNil)"
| "dl_pop (DCons d x next) = (Some (DCons d x DNil), next)"

fun dl_is_empty :: "'a delta_list \<Rightarrow> bool" where
  "dl_is_empty DNil = True"
| "dl_is_empty (DCons d x next) = False"

section \<open>Abstraction: the absolute expiry times\<close>

text \<open>
  The time at which an entry expires, counted from the base time of the list, is the sum of the
  deltas up to it. The sums are natural numbers, so they say what happens also where the sum
  exceeds 64 bits.
\<close>

fun dl_times :: "nat \<Rightarrow> 'a delta_list \<Rightarrow> (nat \<times> 'a) list" where
  "dl_times t DNil = []"
| "dl_times t (DCons d x next) = (t + unat d, x) # dl_times (t + unat d) next"

text \<open>The specification: a sorted agenda into which an entry goes after its equals.\<close>

fun agenda_insert :: "nat \<Rightarrow> 'a \<Rightarrow> (nat \<times> 'a) list \<Rightarrow> (nat \<times> 'a) list" where
  "agenda_insert t x [] = [(t, x)]"
| "agenda_insert t x ((u, y) # rest) =
     (if t < u then (t, x) # (u, y) # rest else (u, y) # agenda_insert t x rest)"

lemma dl_times_lower: "(u, y) \<in> set (dl_times t l) \<Longrightarrow> t \<le> u"
  by (induction l arbitrary: t) fastforce+

lemma sorted_dl_times: "sorted (map fst (dl_times t l))"
  by (induction l arbitrary: t) (auto dest: dl_times_lower)

lemma agenda_insert_mset: "mset (agenda_insert t x as) = add_mset (t, x) (mset as)"
  by (induction as) auto

lemma insert_delta_times:
  "dl_times b (insert_delta l d x) = agenda_insert (b + unat d) x (dl_times b l)"
proof (induction l arbitrary: b d)
  case DNil
  then show ?case by simp
next
  case (DCons e y rest)
  show ?case
  proof (cases "d < e")
    case True
    then have "unat (e - d) = unat e - unat d" "unat d < unat e"
      by (simp_all add: unat_sub word_less_nat_alt word_le_nat_alt)
    then show ?thesis using True by simp
  next
    case False
    then have "unat (d - e) = unat d - unat e" "unat e \<le> unat d"
      by (simp_all add: unat_sub word_le_nat_alt not_less)
    then show ?thesis using False DCons.IH[of "b + unat e" "d - e"] by simp
  qed
qed

text \<open>
  Inserting an entry into a delta list inserts it into the sorted agenda of absolute expiry
  times: the new entry expires exactly \<open>dur\<close> after the base time, every entry already in the list
  keeps its expiry time, and among equal times the new entry comes last.
\<close>

theorem delta_list_insert_refines_agenda:
  "dl_times b (dl_insert l dur x) = agenda_insert (b + unat dur) x (dl_times b l)
     \<and> sorted (map fst (dl_times b (dl_insert l dur x)))
     \<and> mset (dl_times b (dl_insert l dur x)) = add_mset (b + unat dur, x) (mset (dl_times b l))"
  using sorted_dl_times[of b "dl_insert l dur x"]
  by (simp add: dl_insert_def insert_delta_times agenda_insert_mset)

text \<open>Popping removes the earliest entry; the rest is relative to its expiry time.\<close>

lemma dl_pop_times:
  assumes "dl_front l = Some (d, x)"
  shows "dl_times b l = (b + unat d, x) # dl_times (b + unat d) (snd (dl_pop l))"
    and "fst (dl_pop l) = Some (DCons d x DNil)"
  using assms by (cases l; auto)+

fun dl_length :: "'a delta_list \<Rightarrow> nat" where
  "dl_length DNil = 0"
| "dl_length (DCons d x next) = Suc (dl_length next)"

lemma length_dl_times [simp]: "length (dl_times b l) = dl_length l"
  by (induction l arbitrary: b) auto

end
