(* ===== verification/Prio_Queue.thy ===== *)
theory Prio_Queue
  imports Aw_Prelude
begin

text \<open>
  The priority queue \<open>PriorityQueue\<close> of \<open>awkernel_lib/src/priority_queue.rs\<close>: one FIFO per
  priority 0 to 31 and a 32-bit mask of the nonempty ones. It is the run queue of the prioritized
  FIFO and round-robin schedulers.
\<close>

unbundle bit_operations_syntax

section \<open>Model\<close>

abbreviation HIGHEST_PRIORITY :: u8 where
  "HIGHEST_PRIORITY \<equiv> 31"

record 'a priority_queue =
  pq_queue :: "'a list list"
  pq_has_entry :: u32

definition pq_new :: "'a priority_queue" where
  "pq_new = \<lparr>pq_queue = replicate 32 [], pq_has_entry = 0\<rparr>"

definition pq_push :: "'a priority_queue \<Rightarrow> u8 \<Rightarrow> 'a \<Rightarrow> 'a priority_queue rust" where
  "pq_push q priority val =
     (let p = unat (min priority HIGHEST_PRIORITY)
      in and_then (vec_get (pq_queue q) p) (\<lambda>queue.
           Inr (q\<lparr>pq_queue := (pq_queue q)[p := queue @ [val]],
                   pq_has_entry := pq_has_entry q OR push_bit p 1\<rparr>)))"

text \<open>\<open>u32::leading_zeros\<close>, counted from the bit below \<open>n\<close>.\<close>

fun leading_zeros_below :: "nat \<Rightarrow> u32 \<Rightarrow> nat" where
  "leading_zeros_below 0 w = 0"
| "leading_zeros_below (Suc n) w = (if bit w n then 0 else Suc (leading_zeros_below n w))"

definition leading_zeros :: "u32 \<Rightarrow> nat" where
  "leading_zeros w = leading_zeros_below 32 w"

definition pq_pop :: "'a priority_queue \<Rightarrow> ('a option \<times> 'a priority_queue) rust" where
  "pq_pop q =
     (if pq_has_entry q = 0 then Inr (None, q)
      else let next_priority = 31 - leading_zeros (pq_has_entry q)
           in and_then (vec_get (pq_queue q) next_priority) (\<lambda>queue.
                case queue of
                  [] \<Rightarrow> Inl Assertion_Failed
                | x # rest \<Rightarrow>
                    Inr (Some x,
                      q\<lparr>pq_queue := (pq_queue q)[next_priority := rest],
                        pq_has_entry :=
                          (if rest = [] then pq_has_entry q AND NOT (push_bit next_priority 1)
                           else pq_has_entry q)\<rparr>)))"

section \<open>Invariant and abstraction\<close>

definition pq_inv :: "'a priority_queue \<Rightarrow> bool" where
  "pq_inv q \<longleftrightarrow>
     length (pq_queue q) = 32 \<and> (\<forall>i < 32. bit (pq_has_entry q) i \<longleftrightarrow> pq_queue q ! i \<noteq> [])"

text \<open>The queued values with their priorities, in the order in which they leave.\<close>

fun pq_levels :: "nat \<Rightarrow> 'a list list \<Rightarrow> (nat \<times> 'a) list" where
  "pq_levels 0 qs = []"
| "pq_levels (Suc n) qs = map (Pair n) (qs ! n) @ pq_levels n qs"

definition pq_list :: "'a priority_queue \<Rightarrow> (nat \<times> 'a) list" where
  "pq_list q = pq_levels 32 (pq_queue q)"

text \<open>The specification: insert behind every entry of the same or of a higher priority.\<close>

fun prio_insert :: "nat \<Rightarrow> 'a \<Rightarrow> (nat \<times> 'a) list \<Rightarrow> (nat \<times> 'a) list" where
  "prio_insert p x [] = [(p, x)]"
| "prio_insert p x ((r, y) # rest) =
     (if r < p then (p, x) # (r, y) # rest else (r, y) # prio_insert p x rest)"

lemma leading_zeros_below_highest:
  assumes "bit w i" "i < n"
  shows "leading_zeros_below n w < n \<and> bit w (n - 1 - leading_zeros_below n w)
     \<and> (\<forall>j. n - 1 - leading_zeros_below n w < j \<and> j < n \<longrightarrow> \<not> bit w j)"
  using assms
proof (induction n)
  case 0
  then show ?case by simp
next
  case (Suc n)
  show ?case
  proof (cases "bit w n")
    case True
    then show ?thesis by auto
  next
    case False
    then have "i < n" using Suc.prems by (cases "i = n") auto
    with Suc.IH[OF Suc.prems(1)] have IH: "leading_zeros_below n w < n"
      "bit w (n - 1 - leading_zeros_below n w)"
      "\<And>j. n - 1 - leading_zeros_below n w < j \<Longrightarrow> j < n \<Longrightarrow> \<not> bit w j"
      by auto
    have "n - Suc (leading_zeros_below n w) = n - 1 - leading_zeros_below n w" by simp
    then show ?thesis using IH False
      by (auto simp: less_Suc_eq)
  qed
qed

lemma leading_zeros_highest:
  fixes w :: u32
  assumes "w \<noteq> 0"
  shows "31 - leading_zeros w < 32" "bit w (31 - leading_zeros w)"
    "\<And>j. 31 - leading_zeros w < j \<Longrightarrow> j < 32 \<Longrightarrow> \<not> bit w j"
proof -
  obtain i where "bit w i" using assms by (auto simp: bit_eq_iff)
  moreover from this have "i < 32" using bit_imp_le_length[of w i] by simp
  ultimately show "31 - leading_zeros w < 32" "bit w (31 - leading_zeros w)"
    "\<And>j. 31 - leading_zeros w < j \<Longrightarrow> j < 32 \<Longrightarrow> \<not> bit w j"
    using leading_zeros_below_highest[of w i 32] by (auto simp: leading_zeros_def)
qed

lemma pq_levels_less: "(r, y) \<in> set (pq_levels n qs) \<Longrightarrow> r < n"
  by (induction n) (auto simp: less_Suc_eq)

lemma pq_levels_update: "n \<le> p \<Longrightarrow> pq_levels n (qs[p := ys]) = pq_levels n qs"
  by (induction n) auto

lemma prio_insert_higher:
  "p \<le> r \<Longrightarrow> prio_insert p x (map (Pair r) ys @ zs) = map (Pair r) ys @ prio_insert p x zs"
  by (induction ys) auto

lemma prio_insert_lower:
  assumes "\<And>r y. (r, y) \<in> set zs \<Longrightarrow> r < p"
  shows "prio_insert p x zs = (p, x) # zs"
proof (cases zs)
  case (Cons z rest)
  then show ?thesis using assms[of "fst z" "snd z"] by (cases z) auto
qed simp

lemma pq_levels_push:
  "p < n \<Longrightarrow> p < length qs \<Longrightarrow>
     pq_levels n (qs[p := qs ! p @ [x]]) = prio_insert p x (pq_levels n qs)"
proof (induction n)
  case 0
  then show ?case by simp
next
  case (Suc n)
  show ?case
  proof (cases "p = n")
    case True
    then show ?thesis
      using Suc.prems prio_insert_lower[of "pq_levels n qs" n x] pq_levels_less[of _ _ n qs]
      by (simp add: pq_levels_update prio_insert_higher)
  next
    case False
    then show ?thesis using Suc by (simp add: prio_insert_higher)
  qed
qed

lemma pq_levels_skip:
  "h < n \<Longrightarrow> (\<And>j. h < j \<Longrightarrow> j < n \<Longrightarrow> qs ! j = []) \<Longrightarrow> pq_levels n qs = pq_levels (Suc h) qs"
proof (induction n)
  case 0
  then show ?case by simp
next
  case (Suc n)
  then show ?case by (cases "h = n") auto
qed

lemma prio_insert_mset: "mset (prio_insert p x as) = add_mset (p, x) (mset as)"
  by (induction as) auto

lemma pq_levels_sorted: "sorted (rev (map fst (pq_levels n qs)))"
proof (induction n)
  case (Suc n)
  have "sorted_wrt (\<ge>) (map (\<lambda>y. n) (qs ! n))"
    by (induction "qs ! n") (auto simp: sorted_wrt_map sorted_wrt_iff_nth_less)
  with Suc show ?case
    by (auto simp: sorted_wrt_append sorted_wrt_rev comp_def
        intro!: less_imp_le dest: pq_levels_less)
qed simp

section \<open>Operations refine the priority-ordered list\<close>

lemma pq_inv_new: "pq_inv pq_new"
  by (simp add: pq_inv_def pq_new_def)

lemma pq_list_new: "pq_list pq_new = []"
proof -
  have "n \<le> 32 \<Longrightarrow> pq_levels n (replicate 32 []) = []" for n
    by (induction n) auto
  from this[OF order_refl] show ?thesis
    by (simp only: pq_list_def pq_new_def priority_queue.simps)
qed

lemma clamp_priority_less: "unat (min p HIGHEST_PRIORITY) < 32"
proof -
  have "unat (min p HIGHEST_PRIORITY) \<le> unat HIGHEST_PRIORITY"
    unfolding word_le_nat_alt [symmetric] by (rule min.cobounded2)
  then show ?thesis by simp
qed

lemma pq_push_refines:
  assumes inv: "pq_inv q"
  shows "\<exists>q'. pq_push q p x = Inr q' \<and> pq_inv q'
     \<and> pq_list q' = prio_insert (unat (min p HIGHEST_PRIORITY)) x (pq_list q)"
proof -
  define i where "i = unat (min p HIGHEST_PRIORITY)"
  have i: "i < 32" unfolding i_def by (rule clamp_priority_less)
  have len: "length (pq_queue q) = 32" using inv by (simp add: pq_inv_def)
  define q' where "q' = q\<lparr>pq_queue := (pq_queue q)[i := pq_queue q ! i @ [x]],
     pq_has_entry := pq_has_entry q OR push_bit i 1\<rparr>"
  have "pq_push q p x = Inr q'"
    using i len by (simp add: pq_push_def i_def [symmetric] q'_def Let_def)
  moreover have "pq_inv q'"
    using inv i by (auto simp: pq_inv_def q'_def nth_list_update bit_simps)
  moreover have "pq_list q' = prio_insert i x (pq_list q)"
    using pq_levels_push[of i 32 "pq_queue q" x] i len by (simp add: pq_list_def q'_def)
  ultimately show ?thesis unfolding i_def by blast
qed

lemma pq_has_entry_0: "pq_inv q \<Longrightarrow> pq_has_entry q = 0 \<longleftrightarrow> pq_list q = []"
proof -
  assume inv: "pq_inv q"
  have "pq_levels n (pq_queue q) = [] \<longleftrightarrow> (\<forall>i<n. pq_queue q ! i = [])" for n
    by (induction n) (auto simp: less_Suc_eq)
  moreover have "pq_has_entry q = 0 \<longleftrightarrow> (\<forall>i<32. \<not> bit (pq_has_entry q) i)"
    using bit_imp_le_length[of "pq_has_entry q"] by (auto simp: bit_eq_iff)
  ultimately show ?thesis using inv by (auto simp: pq_list_def pq_inv_def)
qed

lemma pq_pop_refines_empty:
  assumes "pq_inv q" "pq_list q = []"
  shows "pq_pop q = Inr (None, q)"
  using assms pq_has_entry_0[OF assms(1)] by (simp add: pq_pop_def)

lemma pq_pop_refines:
  assumes inv: "pq_inv q" and list: "pq_list q = (r, x) # rest"
  shows "\<exists>q'. pq_pop q = Inr (Some x, q') \<and> pq_inv q' \<and> pq_list q' = rest"
proof -
  define h where "h = 31 - leading_zeros (pq_has_entry q)"
  have nz: "pq_has_entry q \<noteq> 0" using pq_has_entry_0[OF inv] list by simp
  note high = leading_zeros_highest[OF nz, folded h_def]
  have len: "length (pq_queue q) = 32" using inv by (simp add: pq_inv_def)
  obtain y ys where ys: "pq_queue q ! h = y # ys"
    using high(1,2) inv by (cases "pq_queue q ! h") (auto simp: pq_inv_def)
  have above: "pq_queue q ! j = []" if "h < j" "j < 32" for j
    using that high(3) inv by (auto simp: pq_inv_def)
  have levels: "pq_list q = (h, y) # map (Pair h) ys @ pq_levels h (pq_queue q)"
    using pq_levels_skip[OF high(1) above] by (simp add: pq_list_def ys)
  define q' where "q' = q\<lparr>pq_queue := (pq_queue q)[h := ys],
     pq_has_entry := (if ys = [] then pq_has_entry q AND NOT (push_bit h 1) else pq_has_entry q)\<rparr>"
  have "pq_pop q = Inr (Some y, q')"
    using nz high(1) len ys by (simp add: pq_pop_def h_def [symmetric] Let_def q'_def)
  moreover have "pq_inv q'"
    using inv high(1,2) ys by (auto simp: pq_inv_def q'_def nth_list_update bit_simps)
  moreover have "pq_list q' = map (Pair h) ys @ pq_levels h (pq_queue q)"
    using pq_levels_skip[of h 32 "(pq_queue q)[h := ys]"] above high(1) len
    by (simp add: pq_list_def q'_def pq_levels_update)
  ultimately show ?thesis using levels list by auto
qed

section \<open>The priority FIFO interface\<close>

datatype 'a pq_op = PQ_Push u8 'a | PQ_Pop

fun pq_run :: "('q \<Rightarrow> u8 \<Rightarrow> 'a \<Rightarrow> 'q rust) \<Rightarrow> ('q \<Rightarrow> ('a option \<times> 'q) rust) \<Rightarrow>
    'q \<Rightarrow> 'a pq_op list \<Rightarrow> ('a option list \<times> 'q) rust" where
  "pq_run push pop q [] = Inr ([], q)"
| "pq_run push pop q (PQ_Push p x # ops) = and_then (push q p x) (\<lambda>q'. pq_run push pop q' ops)"
| "pq_run push pop q (PQ_Pop # ops) = and_then (pop q) (\<lambda>(r, q').
     and_then (pq_run push pop q' ops) (\<lambda>(outs, q''). Inr (r # outs, q'')))"

text \<open>
  The specification takes, at each pop, the first entry of the list; an entry is inserted behind
  all entries whose clamped priority is at least its own.
\<close>

fun pq_spec :: "(nat \<times> 'a) list \<Rightarrow> 'a pq_op list \<Rightarrow> 'a option list \<times> (nat \<times> 'a) list" where
  "pq_spec xs [] = ([], xs)"
| "pq_spec xs (PQ_Push p x # ops) = pq_spec (prio_insert (min (unat p) 31) x xs) ops"
| "pq_spec xs (PQ_Pop # ops) =
     (case xs of
        [] \<Rightarrow> map_prod ((#) None) id (pq_spec xs ops)
      | (_, y) # ys \<Rightarrow> map_prod ((#) (Some y)) id (pq_spec ys ops))"

locale priority_fifo =
  fixes push :: "'q \<Rightarrow> u8 \<Rightarrow> 'a \<Rightarrow> 'q rust"
    and pop :: "'q \<Rightarrow> ('a option \<times> 'q) rust"
    and elems :: "'q \<Rightarrow> (nat \<times> 'a) list"
    and inv :: "'q \<Rightarrow> bool"
  assumes push_elems: "inv q \<Longrightarrow>
      \<exists>q'. push q p x = Inr q' \<and> inv q' \<and> elems q' = prio_insert (min (unat p) 31) x (elems q)"
    and pop_nonempty: "inv q \<Longrightarrow> elems q = (r, x) # rest \<Longrightarrow>
      \<exists>q'. pop q = Inr (Some x, q') \<and> inv q' \<and> elems q' = rest"
    and pop_empty: "inv q \<Longrightarrow> elems q = [] \<Longrightarrow> pop q = Inr (None, q)"
begin

lemma pop_total:
  assumes "inv q"
  obtains r q' where "pop q = Inr (r, q')" "inv q'"
    "r = None \<Longrightarrow> elems q = [] \<and> q' = q" "\<And>x. r = Some x \<Longrightarrow> \<exists>p. elems q = (p, x) # elems q'"
proof (cases "elems q")
  case Nil
  then show ?thesis using that[of None q] pop_empty[OF assms] assms by simp
next
  case (Cons e rest)
  obtain p x where e: "e = (p, x)" by (cases e)
  obtain q' where "pop q = Inr (Some x, q')" "inv q'" "elems q' = rest"
    using pop_nonempty[OF assms, of p x rest] Cons e by auto
  then show ?thesis using that[of "Some x" q'] Cons e by auto
qed

lemma run_refines_spec:
  assumes "inv q"
  shows "\<exists>q'. pq_run push pop q ops = Inr (fst (pq_spec (elems q) ops), q')
      \<and> inv q' \<and> elems q' = snd (pq_spec (elems q) ops)"
  using assms
proof (induction ops arbitrary: q)
  case Nil
  then show ?case by simp
next
  case (Cons op ops)
  show ?case
  proof (cases op)
    case (PQ_Push p x)
    obtain q1 where q1: "push q p x = Inr q1" "inv q1"
      "elems q1 = prio_insert (min (unat p) 31) x (elems q)"
      using push_elems[OF Cons.prems] by blast
    then show ?thesis using Cons.IH[OF q1(2)] PQ_Push by auto
  next
    case PQ_Pop
    show ?thesis
    proof (cases "elems q")
      case Nil
      then show ?thesis using pop_empty[OF Cons.prems Nil] Cons.IH[OF Cons.prems] PQ_Pop by auto
    next
      case (Cons e rest)
      obtain p y where e: "e = (p, y)" by (cases e)
      obtain q1 where q1: "pop q = Inr (Some y, q1)" "inv q1" "elems q1 = rest"
        using pop_nonempty[OF Cons.prems, of p y rest] Cons e by auto
      then show ?thesis using Cons.IH[OF q1(2)] PQ_Pop Cons e by auto
    qed
  qed
qed

end

lemma unat_clamp: "unat (min p HIGHEST_PRIORITY) = min (unat p) 31"
  by (simp add: min_def word_le_nat_alt)

interpretation pq: priority_fifo pq_push pq_pop pq_list pq_inv
  using pq_push_refines pq_pop_refines pq_pop_refines_empty
  by unfold_locales (auto simp: unat_clamp)

text \<open>
  C17. Every sequence of \<open>push\<close> and \<open>pop\<close> calls on a new priority queue runs without a panic (in
  particular the assertion in \<open>pop\<close> never fails) and pops, each time, the oldest entry among those
  of the highest queued priority, a pushed priority above 31 counting as 31.
\<close>

theorem priority_queue_refines_prio_list:
  "\<exists>q'. pq_run pq_push pq_pop pq_new ops = Inr (fst (pq_spec [] ops), q')
      \<and> pq_inv q' \<and> pq_list q' = snd (pq_spec [] ops) \<and> sorted (rev (map fst (pq_list q')))"
  using pq.run_refines_spec[OF pq_inv_new, of ops] pq_levels_sorted
  by (simp add: pq_list_new) (auto simp: pq_list_def)

end
