(* ===== verification/Dag_Graph.thy ===== *)
theory Dag_Graph
  imports Aw_Prelude
begin

text \<open>
  The directed multigraph \<open>Graph\<close> of \<open>awkernel_async_lib/src/dag/graph.rs\<close> with the default index
  type \<open>u32\<close>. Nodes and edges are stored in vectors; the outgoing and the incoming edges of a node
  are linked lists threaded through the edge vector by the \<open>next\<close> arrays, whose entries 0 and 1 are
  here the fields ending in 0 and 1. The invariant says that these lists visit exactly the edges of
  the node, the newest first, so that every iterator terminates.
\<close>

section \<open>Model\<close>

datatype direction = Outgoing | Incoming

type_synonym node_index = u32
type_synonym edge_index = u32

abbreviation index_end :: u32 where
  "index_end \<equiv> - 1"

record 'n gnode =
  gn_weight :: 'n
  gn_next0 :: edge_index
  gn_next1 :: edge_index

record 'e gedge =
  ge_weight :: 'e
  ge_next0 :: edge_index
  ge_next1 :: edge_index
  ge_node0 :: node_index
  ge_node1 :: node_index

record ('n, 'e) graph =
  g_nodes :: "'n gnode list"
  g_edges :: "'e gedge list"

definition graph_new :: "('n, 'e) graph" where
  "graph_new = \<lparr>g_nodes = [], g_edges = []\<rparr>"

definition node_count :: "('n, 'e) graph \<Rightarrow> usize" where
  "node_count g = length (g_nodes g)"

definition edge_count :: "('n, 'e) graph \<Rightarrow> usize" where
  "edge_count g = length (g_edges g)"

text \<open>The capacity assertion, on a target whose \<open>usize\<close> is wider than \<open>u32\<close>.\<close>

definition add_node :: "('n, 'e) graph \<Rightarrow> 'n \<Rightarrow> (node_index \<times> ('n, 'e) graph) rust" where
  "add_node g weight =
     (let node = \<lparr>gn_weight = weight, gn_next0 = index_end, gn_next1 = index_end\<rparr>;
          node_idx = word_of_nat (length (g_nodes g))
      in if index_end \<noteq> node_idx
         then Inr (node_idx, g\<lparr>g_nodes := g_nodes g @ [node]\<rparr>)
         else Inl Assertion_Failed)"

definition node_weight :: "('n, 'e) graph \<Rightarrow> node_index \<Rightarrow> 'n option" where
  "node_weight g a =
     (if unat a < length (g_nodes g) then Some (gn_weight (g_nodes g ! unat a)) else None)"

text \<open>Writing through \<open>node_weight_mut\<close>; \<open>None\<close> if the node does not exist.\<close>

definition node_weight_mut :: "('n, 'e) graph \<Rightarrow> node_index \<Rightarrow> ('n \<Rightarrow> 'n) \<Rightarrow> ('n, 'e) graph option" where
  "node_weight_mut g a f =
     (if unat a < length (g_nodes g)
      then Some (g\<lparr>g_nodes := (g_nodes g)[unat a := (g_nodes g ! unat a)
             \<lparr>gn_weight := f (gn_weight (g_nodes g ! unat a))\<rparr>]\<rparr>)
      else None)"

datatype pair_kind = Pair_Both | Pair_One | Pair_None

definition index_twice :: "'a list \<Rightarrow> usize \<Rightarrow> usize \<Rightarrow> pair_kind" where
  "index_twice slc a b =
     (if length slc \<le> max a b then Pair_None else if a = b then Pair_One else Pair_Both)"

definition add_edge ::
    "('n, 'e) graph \<Rightarrow> node_index \<Rightarrow> node_index \<Rightarrow> 'e \<Rightarrow> (edge_index \<times> ('n, 'e) graph) rust" where
  "add_edge g a b weight =
     (let edge_idx = word_of_nat (length (g_edges g)) :: u32;
          ns = g_nodes g; ia = unat a; ib = unat b
      in if index_end = edge_idx then Inl Assertion_Failed
         else case index_twice ns ia ib of
           Pair_None \<Rightarrow> Inl Explicit_Panic
         | Pair_One \<Rightarrow>
             Inr (edge_idx, g
               \<lparr>g_nodes := ns[ia := (ns ! ia)\<lparr>gn_next0 := edge_idx, gn_next1 := edge_idx\<rparr>],
                g_edges := g_edges g @
                  [\<lparr>ge_weight = weight, ge_next0 = gn_next0 (ns ! ia), ge_next1 = gn_next1 (ns ! ia),
                    ge_node0 = a, ge_node1 = b\<rparr>]\<rparr>)
         | Pair_Both \<Rightarrow>
             Inr (edge_idx, g
               \<lparr>g_nodes := ns[ia := (ns ! ia)\<lparr>gn_next0 := edge_idx\<rparr>,
                              ib := (ns ! ib)\<lparr>gn_next1 := edge_idx\<rparr>],
                g_edges := g_edges g @
                  [\<lparr>ge_weight = weight, ge_next0 = gn_next0 (ns ! ia), ge_next1 = gn_next1 (ns ! ib),
                    ge_node0 = a, ge_node1 = b\<rparr>]\<rparr>))"

subsection \<open>Neighbors\<close>

record 'e neighbors =
  nb_skip_start :: node_index
  nb_edges :: "'e gedge list"
  nb_next0 :: edge_index
  nb_next1 :: edge_index

definition neighbors_undirected :: "('n, 'e) graph \<Rightarrow> node_index \<Rightarrow> 'e neighbors" where
  "neighbors_undirected g a =
     (if unat a < length (g_nodes g)
      then \<lparr>nb_skip_start = a, nb_edges = g_edges g,
            nb_next0 = gn_next0 (g_nodes g ! unat a), nb_next1 = gn_next1 (g_nodes g ! unat a)\<rparr>
      else \<lparr>nb_skip_start = a, nb_edges = g_edges g, nb_next0 = index_end, nb_next1 = index_end\<rparr>)"

definition neighbors_directed :: "('n, 'e) graph \<Rightarrow> node_index \<Rightarrow> direction \<Rightarrow> 'e neighbors" where
  "neighbors_directed g a dir =
     (let it = neighbors_undirected g a in
      case dir of
        Outgoing \<Rightarrow> it\<lparr>nb_next1 := index_end, nb_skip_start := index_end\<rparr>
      | Incoming \<Rightarrow> it\<lparr>nb_next0 := index_end, nb_skip_start := index_end\<rparr>)"

text \<open>
  \<open>Iterator::next\<close>. The loop over the incoming edges skips those from the start node; \<open>None\<close> as the
  outer value means that the loop does not end.
\<close>

partial_function (option) nb_next_incoming ::
    "'e gedge list \<Rightarrow> node_index \<Rightarrow> edge_index \<Rightarrow> (node_index option \<times> edge_index) option" where
  "nb_next_incoming edges skip_start next1 =
     (if unat next1 < length edges
      then (let edge = edges ! unat next1 in
            if ge_node0 edge \<noteq> skip_start then Some (Some (ge_node0 edge), ge_next1 edge)
            else nb_next_incoming edges skip_start (ge_next1 edge))
      else Some (None, next1))"

definition nb_next :: "'e neighbors \<Rightarrow> (node_index option \<times> 'e neighbors) option" where
  "nb_next it =
     (if unat (nb_next0 it) < length (nb_edges it)
      then (let edge = nb_edges it ! unat (nb_next0 it)
            in Some (Some (ge_node1 edge), it\<lparr>nb_next0 := ge_next0 edge\<rparr>))
      else case nb_next_incoming (nb_edges it) (nb_skip_start it) (nb_next1 it) of
             None \<Rightarrow> None
           | Some (r, n) \<Rightarrow> Some (r, it\<lparr>nb_next1 := n\<rparr>))"

text \<open>Collecting an iterator, as \<open>for\<close>, \<open>count\<close> and \<open>collect\<close> do.\<close>

partial_function (option) nb_collect :: "'e neighbors \<Rightarrow> node_index list option" where
  "nb_collect it =
     Option.bind (nb_next it) (\<lambda>p.
       case fst p of
         None \<Rightarrow> Some []
       | Some v \<Rightarrow> Option.bind (nb_collect (snd p)) (\<lambda>vs. Some (v # vs)))"

text \<open>\<open>externals\<close> and the index iterator.\<close>

definition externals :: "('n, 'e) graph \<Rightarrow> direction \<Rightarrow> node_index list" where
  "externals g dir =
     map word_of_nat (filter (\<lambda>i.
       (case dir of Outgoing \<Rightarrow> gn_next0 (g_nodes g ! i) | Incoming \<Rightarrow> gn_next1 (g_nodes g ! i))
         = index_end) [0..<length (g_nodes g)])"

definition node_indices :: "('n, 'e) graph \<Rightarrow> node_index list" where
  "node_indices g = map word_of_nat [0..<node_count g]"

record 'e edge_reference =
  er_index :: edge_index
  er_source :: node_index
  er_target :: node_index
  er_weight :: 'e

definition edge_references :: "('n, 'e) graph \<Rightarrow> 'e edge_reference list" where
  "edge_references g =
     map (\<lambda>i. let edge = g_edges g ! i in
            \<lparr>er_index = word_of_nat i, er_source = ge_node0 edge, er_target = ge_node1 edge,
             er_weight = ge_weight edge\<rparr>) [0..<length (g_edges g)]"

definition node_references :: "('n, 'e) graph \<Rightarrow> (node_index \<times> 'n) list" where
  "node_references g = map (\<lambda>i. (word_of_nat i, gn_weight (g_nodes g ! i))) [0..<length (g_nodes g)]"

section \<open>Invariant\<close>

text \<open>\<open>pred0 es v n\<close> is the newest edge below index \<open>n\<close> that leaves \<open>v\<close>, \<open>pred1\<close> the newest entering.\<close>

fun pred0 :: "'e gedge list \<Rightarrow> node_index \<Rightarrow> nat \<Rightarrow> edge_index" where
  "pred0 es v 0 = index_end"
| "pred0 es v (Suc n) = (if ge_node0 (es ! n) = v then word_of_nat n else pred0 es v n)"

fun pred1 :: "'e gedge list \<Rightarrow> node_index \<Rightarrow> nat \<Rightarrow> edge_index" where
  "pred1 es v 0 = index_end"
| "pred1 es v (Suc n) = (if ge_node1 (es ! n) = v then word_of_nat n else pred1 es v n)"

definition graph_inv :: "('n, 'e) graph \<Rightarrow> bool" where
  "graph_inv g \<longleftrightarrow>
     length (g_nodes g) < 2 ^ 32 \<and> length (g_edges g) < 2 ^ 32 \<and>
     (\<forall>i < length (g_edges g).
        unat (ge_node0 (g_edges g ! i)) < length (g_nodes g) \<and>
        unat (ge_node1 (g_edges g ! i)) < length (g_nodes g) \<and>
        ge_next0 (g_edges g ! i) = pred0 (g_edges g) (ge_node0 (g_edges g ! i)) i \<and>
        ge_next1 (g_edges g ! i) = pred1 (g_edges g) (ge_node1 (g_edges g ! i)) i) \<and>
     (\<forall>v < length (g_nodes g).
        gn_next0 (g_nodes g ! v) = pred0 (g_edges g) (word_of_nat v) (length (g_edges g)) \<and>
        gn_next1 (g_nodes g ! v) = pred1 (g_edges g) (word_of_nat v) (length (g_edges g)))"

lemma pred0_append: "n \<le> length es \<Longrightarrow> pred0 (es @ fs) v n = pred0 es v n"
  by (induction n) (auto simp: nth_append)

lemma pred1_append: "n \<le> length es \<Longrightarrow> pred1 (es @ fs) v n = pred1 es v n"
  by (induction n) (auto simp: nth_append)

lemma unat_index_end: "unat index_end = 2 ^ 32 - 1"
  by (simp add: unsigned_minus_1_eq_mask mask_eq_exp_minus_1)

lemma unat_of_index: "n < 2 ^ 32 \<Longrightarrow> unat (word_of_nat n :: u32) = n"
  by (simp add: unat_of_nat)

lemma word_index_inj: "n < 2 ^ 32 \<Longrightarrow> m < 2 ^ 32 \<Longrightarrow> (word_of_nat n :: u32) = word_of_nat m \<longleftrightarrow> n = m"
  by (metis unat_of_index)

lemma index_end_iff: "n < 2 ^ 32 \<Longrightarrow> index_end = (word_of_nat n :: u32) \<longleftrightarrow> n = 2 ^ 32 - 1"
  using unat_index_end unat_of_index[of n] by (metis word_unat_eq_iff)

lemma word_of_index: "(word_of_nat (unat v) :: u32) = v"
  by simp

lemma graph_inv_new: "graph_inv graph_new"
  by (simp add: graph_inv_def graph_new_def)

lemma pred_no_edge:
  assumes "\<And>i. i < n \<Longrightarrow> ge_node0 (es ! i) \<noteq> v" shows "pred0 es v n = index_end"
  using assms by (induction n) auto

lemma pred_no_edge1:
  assumes "\<And>i. i < n \<Longrightarrow> ge_node1 (es ! i) \<noteq> v" shows "pred1 es v n = index_end"
  using assms by (induction n) auto

lemma add_node_inv:
  assumes inv: "graph_inv g" and add: "add_node g w = Inr (v, g')"
  shows "graph_inv g' \<and> v = word_of_nat (node_count g) \<and> g_edges g' = g_edges g
    \<and> node_count g' = Suc (node_count g)"
proof -
  let ?n = "length (g_nodes g)"
  have n: "?n < 2 ^ 32" using inv by (simp add: graph_inv_def)
  have v: "v = word_of_nat ?n" and ne: "index_end \<noteq> (word_of_nat ?n :: u32)"
    and g': "g' = g\<lparr>g_nodes := g_nodes g @ [\<lparr>gn_weight = w, gn_next0 = index_end, gn_next1 = index_end\<rparr>]\<rparr>"
    using add by (auto simp: add_node_def Let_def split: if_splits)
  have n': "Suc ?n < 2 ^ 32" using ne n index_end_iff[OF n] by linarith
  have fresh: "ge_node0 (g_edges g ! i) \<noteq> word_of_nat ?n \<and> ge_node1 (g_edges g ! i) \<noteq> word_of_nat ?n"
    if "i < length (g_edges g)" for i
    using inv that unat_of_index[OF n] by (auto simp: graph_inv_def)
  have "graph_inv g'"
    using inv n' fresh unfolding graph_inv_def g'
    by (auto simp: nth_append less_Suc_eq pred_no_edge pred_no_edge1)
  then show ?thesis using v g' by (simp add: node_count_def)
qed

lemma add_edge_state:
  assumes inv: "graph_inv g" and add: "add_edge g a b w = Inr (e, g')"
  shows "e = word_of_nat (length (g_edges g)) \<and> Suc (length (g_edges g)) < 2 ^ 32
    \<and> unat a < length (g_nodes g) \<and> unat b < length (g_nodes g)
    \<and> length (g_nodes g') = length (g_nodes g)
    \<and> g_edges g' = g_edges g @ [\<lparr>ge_weight = w, ge_next0 = gn_next0 (g_nodes g ! unat a),
         ge_next1 = gn_next1 (g_nodes g ! unat b), ge_node0 = a, ge_node1 = b\<rparr>]
    \<and> (\<forall>v < length (g_nodes g).
         gn_weight (g_nodes g' ! v) = gn_weight (g_nodes g ! v) \<and>
         gn_next0 (g_nodes g' ! v) = (if v = unat a then e else gn_next0 (g_nodes g ! v)) \<and>
         gn_next1 (g_nodes g' ! v) = (if v = unat b then e else gn_next1 (g_nodes g ! v)))"
proof -
  have m: "length (g_edges g) < 2 ^ 32" using inv by (simp add: graph_inv_def)
  have ne: "index_end \<noteq> (word_of_nat (length (g_edges g)) :: u32)"
    using add by (auto simp: add_edge_def Let_def)
  then have "Suc (length (g_edges g)) < 2 ^ 32" using m index_end_iff[OF m] by linarith
  with add ne show ?thesis
    by (auto simp: add_edge_def Let_def index_twice_def nth_list_update split: if_splits)
qed

lemma add_edge_inv:
  assumes inv: "graph_inv g" and add: "add_edge g a b w = Inr (e, g')"
  shows "graph_inv g'"
proof -
  note st = add_edge_state[OF assms]
  let ?m = "length (g_edges g)" and ?n = "length (g_nodes g)"
  have n: "?n < 2 ^ 32" using inv by (simp add: graph_inv_def)
  have ab: "c = (word_of_nat v :: u32) \<longleftrightarrow> v = unat c" if "v < ?n" for v c
    using that n by (auto simp: unat_of_index)
  let ?e = "\<lparr>ge_weight = w, ge_next0 = gn_next0 (g_nodes g ! unat a),
         ge_next1 = gn_next1 (g_nodes g ! unat b), ge_node0 = a, ge_node1 = b\<rparr>"
  have es: "g_edges g' = g_edges g @ [?e]" and len: "length (g_nodes g') = ?n" using st by blast+
  have old: "gn_next0 (g_nodes g ! v) = pred0 (g_edges g) (word_of_nat v) ?m"
    "gn_next1 (g_nodes g ! v) = pred1 (g_edges g) (word_of_nat v) ?m" if "v < ?n" for v
    using inv that by (auto simp: graph_inv_def)
  have upd: "gn_next0 (g_nodes g' ! v) = (if v = unat a then word_of_nat ?m else gn_next0 (g_nodes g ! v))"
    "gn_next1 (g_nodes g' ! v) = (if v = unat b then word_of_nat ?m else gn_next1 (g_nodes g ! v))"
    if "v < ?n" for v using st that by auto
  have "gn_next0 (g_nodes g' ! v) = pred0 (g_edges g') (word_of_nat v) (Suc ?m)
      \<and> gn_next1 (g_nodes g' ! v) = pred1 (g_edges g') (word_of_nat v) (Suc ?m)" if "v < ?n" for v
    unfolding upd[OF that] old[OF that] by (simp add: es pred0_append pred1_append ab[OF that])
  moreover have "ge_next0 (g_edges g' ! i) = pred0 (g_edges g') (ge_node0 (g_edges g' ! i)) i
      \<and> ge_next1 (g_edges g' ! i) = pred1 (g_edges g') (ge_node1 (g_edges g' ! i)) i" if "i < Suc ?m" for i
  proof (cases "i < ?m")
    case True
    then show ?thesis using inv by (simp add: graph_inv_def es nth_append pred0_append pred1_append)
  next
    case False
    then have "i = ?m" using that by simp
    then show ?thesis using st old[of "unat a"] old[of "unat b"] by (simp add: es pred0_append pred1_append)
  qed
  ultimately show ?thesis
    using inv st unfolding graph_inv_def len by (auto simp: es nth_append less_Suc_eq)
qed

section \<open>The iterators visit exactly the edges of a node\<close>

definition out_edges :: "('n, 'e) graph \<Rightarrow> node_index \<Rightarrow> 'e gedge list" where
  "out_edges g v = rev (filter (\<lambda>e. ge_node0 e = v) (g_edges g))"

definition in_edges :: "('n, 'e) graph \<Rightarrow> node_index \<Rightarrow> 'e gedge list" where
  "in_edges g v = rev (filter (\<lambda>e. ge_node1 e = v) (g_edges g))"

lemma end_out_of_range: "graph_inv g \<Longrightarrow> \<not> unat index_end < length (g_edges g)"
  unfolding unat_index_end by (simp add: graph_inv_def)

lemma nb_collect_out:
  assumes inv: "graph_inv g" and "n \<le> length (g_edges g)"
  shows "nb_collect \<lparr>nb_skip_start = index_end, nb_edges = g_edges g,
           nb_next0 = pred0 (g_edges g) v n, nb_next1 = index_end\<rparr>
    = Some (map ge_node1 (rev (filter (\<lambda>e. ge_node0 e = v) (take n (g_edges g)))))"
  using assms(2)
proof (induction n)
  case 0
  then show ?case
    using end_out_of_range[OF inv]
    by (simp add: nb_collect.simps nb_next_def nb_next_incoming.simps)
next
  case (Suc n)
  show ?case
  proof (cases "ge_node0 (g_edges g ! n) = v")
    case True
    have n: "n < 2 ^ 32" "n < length (g_edges g)" using Suc.prems inv by (auto simp: graph_inv_def)
    have "ge_next0 (g_edges g ! n) = pred0 (g_edges g) v n"
      using inv n True by (auto simp: graph_inv_def)
    then show ?thesis
      using Suc True n unat_of_index[OF n(1)]
      by (simp add: nb_collect.simps [of "\<lparr>nb_skip_start = _, nb_edges = _,
             nb_next0 = word_of_nat _, nb_next1 = _\<rparr>"] nb_next_def Let_def take_Suc_conv_app_nth)
  next
    case False
    then show ?thesis using Suc by (simp add: take_Suc_conv_app_nth)
  qed
qed

lemma nb_collect_in:
  assumes inv: "graph_inv g" and "n \<le> length (g_edges g)"
  shows "nb_collect \<lparr>nb_skip_start = index_end, nb_edges = g_edges g,
           nb_next0 = index_end, nb_next1 = pred1 (g_edges g) v n\<rparr>
    = Some (map ge_node0 (rev (filter (\<lambda>e. ge_node1 e = v) (take n (g_edges g)))))"
  using assms(2)
proof (induction n)
  case 0
  then show ?case
    using end_out_of_range[OF inv]
    by (simp add: nb_collect.simps nb_next_def nb_next_incoming.simps)
next
  case (Suc n)
  show ?case
  proof (cases "ge_node1 (g_edges g ! n) = v")
    case True
    have n: "n < 2 ^ 32" "n < length (g_edges g)" using Suc.prems inv by (auto simp: graph_inv_def)
    have nx: "ge_next1 (g_edges g ! n) = pred1 (g_edges g) v n"
      using inv n True by (auto simp: graph_inv_def)
    have "unat (ge_node0 (g_edges g ! n)) < 2 ^ 32 - 1"
      using inv n by (fastforce simp: graph_inv_def)
    then have ne: "ge_node0 (g_edges g ! n) \<noteq> index_end" using unat_index_end by (metis less_irrefl)
    have "nb_next_incoming (g_edges g) index_end (word_of_nat n) =
        Some (Some (ge_node0 (g_edges g ! n)), pred1 (g_edges g) v n)"
      using n ne nx unat_of_index[OF n(1)] by (simp add: nb_next_incoming.simps Let_def)
    then show ?thesis
      using Suc True n end_out_of_range[OF inv]
      by (simp add: nb_collect.simps [of "\<lparr>nb_skip_start = _, nb_edges = _,
             nb_next0 = _, nb_next1 = word_of_nat _\<rparr>"] nb_next_def Let_def take_Suc_conv_app_nth)
  next
    case False
    then show ?thesis using Suc by (simp add: take_Suc_conv_app_nth)
  qed
qed

lemma neighbors_exact:
  assumes inv: "graph_inv g"
  shows "nb_collect (neighbors_directed g v Outgoing) = Some (map ge_node1 (out_edges g v))
       \<and> nb_collect (neighbors_directed g v Incoming) = Some (map ge_node0 (in_edges g v))"
proof (cases "unat v < length (g_nodes g)")
  case True
  then have "gn_next0 (g_nodes g ! unat v) = pred0 (g_edges g) v (length (g_edges g))"
    "gn_next1 (g_nodes g ! unat v) = pred1 (g_edges g) v (length (g_edges g))"
    using inv by (auto simp: graph_inv_def)
  then show ?thesis
    using True nb_collect_out[OF inv order_refl] nb_collect_in[OF inv order_refl]
    by (simp add: neighbors_directed_def neighbors_undirected_def out_edges_def in_edges_def)
next
  case False
  then have "out_edges g v = []" "in_edges g v = []"
    using inv by (auto simp: out_edges_def in_edges_def graph_inv_def filter_empty_conv in_set_conv_nth)
  then show ?thesis
    using False nb_collect_out[OF inv, of 0] by (simp add: neighbors_directed_def neighbors_undirected_def)
qed

text \<open>
  In a graph that satisfies the invariant, both neighbor iterators end and yield the other
  endpoints of exactly the edges that leave (enter) the node, the most recently added edge first;
  for a node that does not exist they yield nothing.
\<close>

theorem neighbors_directed_exact:
  assumes inv: "graph_inv g"
  shows "nb_collect (neighbors_directed g v Outgoing) = Some (map ge_node1 (out_edges g v))
       \<and> nb_collect (neighbors_directed g v Incoming) = Some (map ge_node0 (in_edges g v))"
  using assms by (rule neighbors_exact)

definition sample_graph :: "(nat, nat) graph" where
  "sample_graph = \<lparr>
     g_nodes = [\<lparr>gn_weight = 10, gn_next0 = 1, gn_next1 = index_end\<rparr>,
                \<lparr>gn_weight = 11, gn_next0 = index_end, gn_next1 = 0\<rparr>,
                \<lparr>gn_weight = 12, gn_next0 = index_end, gn_next1 = 1\<rparr>],
     g_edges = [\<lparr>ge_weight = 1, ge_next0 = index_end, ge_next1 = index_end, ge_node0 = 0, ge_node1 = 1\<rparr>,
                \<lparr>ge_weight = 2, ge_next0 = 0, ge_next1 = index_end, ge_node0 = 0, ge_node1 = 2\<rparr>]\<rparr>"

lemma sample_graph_inv: "graph_inv sample_graph"
  by (simp add: graph_inv_def sample_graph_def All_less_Suc)

theorem neighbors_directed_exact_witness:
  "graph_inv sample_graph \<and> nb_collect (neighbors_directed sample_graph 0 Outgoing) = Some [2, 1]
   \<and> nb_collect (neighbors_directed sample_graph 2 Incoming) = Some [0]"
  using sample_graph_inv neighbors_directed_exact[OF sample_graph_inv, of 0]
    neighbors_directed_exact[OF sample_graph_inv, of 2]
  by (simp add: out_edges_def in_edges_def sample_graph_def)

text \<open>\<open>externals\<close> lists the nodes without outgoing (incoming) edges, in index order.\<close>

lemma pred0_end_iff:
  assumes "length es < 2 ^ 32" "n \<le> length es"
  shows "pred0 es v n = index_end \<longleftrightarrow> (\<forall>i < n. ge_node0 (es ! i) \<noteq> v)"
  using assms(2)
proof (induction n)
  case (Suc n)
  have "n < 2 ^ 32" "n \<noteq> 2 ^ 32 - 1" using assms Suc.prems by linarith+
  then have "(word_of_nat n :: u32) \<noteq> index_end" using index_end_iff[of n] by metis
  then show ?case using Suc by (auto simp: less_Suc_eq)
qed simp

lemma pred1_end_iff:
  assumes "length es < 2 ^ 32" "n \<le> length es"
  shows "pred1 es v n = index_end \<longleftrightarrow> (\<forall>i < n. ge_node1 (es ! i) \<noteq> v)"
  using assms(2)
proof (induction n)
  case (Suc n)
  have "n < 2 ^ 32" "n \<noteq> 2 ^ 32 - 1" using assms Suc.prems by linarith+
  then have "(word_of_nat n :: u32) \<noteq> index_end" using index_end_iff[of n] by metis
  then show ?case using Suc by (auto simp: less_Suc_eq)
qed simp

lemma externals_exact:
  assumes inv: "graph_inv g"
  shows "externals g Outgoing = filter (\<lambda>v. out_edges g v = []) (node_indices g)"
    and "externals g Incoming = filter (\<lambda>v. in_edges g v = []) (node_indices g)"
proof -
  have len: "length (g_edges g) < 2 ^ 32" using inv by (simp add: graph_inv_def)
  have "gn_next0 (g_nodes g ! i) = index_end \<longleftrightarrow> out_edges g (word_of_nat i) = []"
    "gn_next1 (g_nodes g ! i) = index_end \<longleftrightarrow> in_edges g (word_of_nat i) = []"
    if "i < length (g_nodes g)" for i
    using inv that pred0_end_iff[OF len order_refl, of "word_of_nat i"]
      pred1_end_iff[OF len order_refl, of "word_of_nat i"]
    by (simp_all add: graph_inv_def out_edges_def in_edges_def filter_empty_conv all_set_conv_all_nth)
  then show "externals g Outgoing = filter (\<lambda>v. out_edges g v = []) (node_indices g)"
    "externals g Incoming = filter (\<lambda>v. in_edges g v = []) (node_indices g)"
    by (auto simp: externals_def node_indices_def node_count_def filter_map comp_def
        intro!: arg_cong[where f = "map word_of_nat"] filter_cong)
qed

text \<open>Updating a node weight keeps the structure.\<close>

lemma node_weight_mut_inv:
  assumes "node_weight_mut g v f = Some g'" "graph_inv g"
  shows "graph_inv g'"
  using assms by (auto simp: node_weight_mut_def graph_inv_def nth_list_update split: if_splits)

lemma node_weight_mut_edges:
  assumes "node_weight_mut g v f = Some g'"
  shows "g_edges g' = g_edges g" "node_count g' = node_count g" "node_indices g' = node_indices g"
    "out_edges g' u = out_edges g u" "in_edges g' u = in_edges g u"
    "node_weight g' u = (if u = v then map_option f (node_weight g u) else node_weight g u)"
  using assms
  by (auto simp: node_weight_mut_def node_count_def node_indices_def out_edges_def in_edges_def
      node_weight_def nth_list_update word_unat_eq_iff split: if_splits)

end
