(* ===== verification/Btree_Map.thy ===== *)
theory Btree_Map
  imports Aw_Prelude
begin

text \<open>
  Rust's \<open>BTreeMap\<close> as the sources use it: an association list whose keys strictly increase.
  The list is the iteration order of the map, so \<open>values\<close>, \<open>keys\<close>, \<open>pop_first\<close> and \<open>retain\<close> are
  the list operations they name. The locale \<open>ordered_map\<close> is the contract that the clients rely
  on; the interpretation \<open>btm\<close> discharges it for this model.
\<close>

type_synonym ('k, 'v) btree_map = "('k \<times> 'v) list"

definition btm_get :: "('k, 'v) btree_map \<Rightarrow> 'k \<Rightarrow> 'v option" where
  "btm_get m k = map_of m k"

definition btm_contains_key :: "('k, 'v) btree_map \<Rightarrow> 'k \<Rightarrow> bool" where
  "btm_contains_key m k = (btm_get m k \<noteq> None)"

fun btm_insert :: "('k :: linorder, 'v) btree_map \<Rightarrow> 'k \<Rightarrow> 'v \<Rightarrow> ('k, 'v) btree_map" where
  "btm_insert [] k v = [(k, v)]"
| "btm_insert ((k', v') # m) k v =
     (if k < k' then (k, v) # (k', v') # m
      else if k = k' then (k, v) # m
      else (k', v') # btm_insert m k v)"

definition btm_retain :: "('k \<Rightarrow> bool) \<Rightarrow> ('k, 'v) btree_map \<Rightarrow> ('k, 'v) btree_map" where
  "btm_retain P m = filter (\<lambda>p. P (fst p)) m"

definition btm_remove :: "('k, 'v) btree_map \<Rightarrow> 'k \<Rightarrow> ('k, 'v) btree_map" where
  "btm_remove m k = btm_retain (\<lambda>k'. k' \<noteq> k) m"

definition btm_pop_first :: "('k, 'v) btree_map \<Rightarrow> ('k, 'v) btree_map" where
  "btm_pop_first m = tl m"

lemma btm_pop_first_Cons [simp, termination_simp]: "btm_pop_first (e # m) = m"
  by (simp add: btm_pop_first_def)

text \<open>\<open>entry(k).or_default().push(x)\<close> on a map of vectors.\<close>

definition btm_push :: "('k :: linorder, 'v list) btree_map \<Rightarrow> 'k \<Rightarrow> 'v \<Rightarrow> ('k, 'v list) btree_map" where
  "btm_push m k x =
     btm_insert m k ((case btm_get m k of None \<Rightarrow> [] | Some xs \<Rightarrow> xs) @ [x])"

text \<open>\<open>get(k).unwrap_or_default()\<close> on a map of vectors.\<close>

definition btm_get_vec :: "('k, 'v list) btree_map \<Rightarrow> 'k \<Rightarrow> 'v list" where
  "btm_get_vec m k = (case btm_get m k of None \<Rightarrow> [] | Some xs \<Rightarrow> xs)"

definition btm_inv :: "('k :: linorder, 'v) btree_map \<Rightarrow> bool" where
  "btm_inv m \<longleftrightarrow> sorted_wrt (<) (map fst m)"

section \<open>The contract of an ordered map\<close>

locale ordered_map =
  fixes inv :: "'m \<Rightarrow> bool"
    and empty :: 'm
    and get :: "'m \<Rightarrow> 'k \<Rightarrow> 'v option"
    and ins :: "'m \<Rightarrow> 'k \<Rightarrow> 'v \<Rightarrow> 'm"
    and rem :: "'m \<Rightarrow> 'k \<Rightarrow> 'm"
  assumes inv_empty: "inv empty"
    and inv_ins: "inv m \<Longrightarrow> inv (ins m k v)"
    and inv_rem: "inv m \<Longrightarrow> inv (rem m k)"
    and get_empty: "get empty k = None"
    and get_ins: "inv m \<Longrightarrow> get (ins m k v) k' = (if k' = k then Some v else get m k')"
    and get_rem: "inv m \<Longrightarrow> get (rem m k) k' = (if k' = k then None else get m k')"
begin

lemma get_ins_ins: "inv m \<Longrightarrow> get (ins (ins m k v) k w) k' = get (ins m k w) k'"
  by (simp add: get_ins inv_ins)

lemma get_rem_ins: "inv m \<Longrightarrow> get (rem (ins m k v) k) k' = get (rem m k) k'"
  by (simp add: get_ins get_rem inv_ins)

lemma get_ins_comm:
  "inv m \<Longrightarrow> k \<noteq> k1 \<Longrightarrow> get (ins (ins m k v) k1 w) k' = get (ins (ins m k1 w) k v) k'"
  by (simp add: get_ins inv_ins)

lemma get_fold_ins:
  "inv m \<Longrightarrow> get (foldl (\<lambda>m p. ins m (fst p) (snd p)) m ps) k
     = (case map_of (rev ps) k of None \<Rightarrow> get m k | Some v \<Rightarrow> Some v)"
proof (induction ps arbitrary: m)
  case (Cons p ps)
  then show ?case
    by (auto simp: inv_ins get_ins map_of_append map_add_def split: option.split)
qed simp

end

lemma btm_insert_fst: "set (map fst (btm_insert m k v)) = insert k (set (map fst m))"
  by (induction m k v rule: btm_insert.induct) auto

lemma btm_insert_inv: "btm_inv m \<Longrightarrow> btm_inv (btm_insert m k v)"
proof (induction m k v rule: btm_insert.induct)
  case (2 k' v' m k v)
  then show ?case
    using btm_insert_fst[of m k v] by (auto simp: btm_inv_def simp del: set_map)
qed (simp add: btm_inv_def)

lemma btm_retain_inv: "btm_inv m \<Longrightarrow> btm_inv (btm_retain P m)"
  unfolding btm_inv_def btm_retain_def
  by (induction m) auto

lemma btm_get_insert:
  "btm_inv m \<Longrightarrow> btm_get (btm_insert m k v) k' = (if k' = k then Some v else btm_get m k')"
  unfolding btm_get_def by (induction m k v rule: btm_insert.induct) (auto simp: btm_inv_def)

lemma btm_get_retain: "btm_get (btm_retain P m) k = (if P k then btm_get m k else None)"
  unfolding btm_get_def btm_retain_def by (induction m) auto

interpretation btm: ordered_map btm_inv "[]" btm_get btm_insert btm_remove
  by unfold_locales
    (auto simp: btm_inv_def [of "[]"] btm_insert_inv btm_remove_def btm_retain_inv btm_get_retain
      btm_get_insert btm_get_def [of "[]"])

lemma btm_get_push:
  "btm_inv m \<Longrightarrow> btm_get (btm_push m k x) k' = (if k' = k then Some (btm_get_vec m k @ [x]) else btm_get m k')"
  by (simp add: btm_push_def btm.get_ins btm_get_vec_def)

lemma btm_get_vec_push:
  "btm_inv m \<Longrightarrow> btm_get_vec (btm_push m k x) k' = btm_get_vec m k' @ (if k' = k then [x] else [])"
  by (simp add: btm_get_vec_def btm_get_push)

lemma btm_push_inv: "btm_inv m \<Longrightarrow> btm_inv (btm_push m k x)"
  by (simp add: btm_push_def btm.inv_ins)

lemma btm_remove_inv: "btm_inv m \<Longrightarrow> btm_inv (btm_remove m k)"
  by (rule btm.inv_rem)

lemma btm_get_remove: "btm_get (btm_remove m k) k' = (if k' = k then None else btm_get m k')"
  by (simp add: btm_remove_def btm_get_retain)

lemma btm_pop_first_inv: "btm_inv m \<Longrightarrow> btm_inv (btm_pop_first m)"
  by (cases m) (auto simp: btm_inv_def btm_pop_first_def)

text \<open>The first key is the smallest one.\<close>

lemma btm_first_least: "btm_inv ((k, v) # m) \<Longrightarrow> k' \<in> set (map fst m) \<Longrightarrow> k < k'"
  by (auto simp: btm_inv_def)

lemma btm_get_in_set: "btm_inv m \<Longrightarrow> btm_get m k = Some v \<longleftrightarrow> (k, v) \<in> set m"
  unfolding btm_inv_def btm_get_def
  by (simp add: map_of_eq_Some_iff strict_sorted_iff)

lemma btm_inv_distinct: "btm_inv m \<Longrightarrow> distinct (map fst m)"
  by (simp add: btm_inv_def strict_sorted_iff)

lemma btm_contains_iff: "btm_contains_key m k \<longleftrightarrow> k \<in> fst ` set m"
  by (auto simp: btm_contains_key_def btm_get_def map_of_eq_None_iff)

text \<open>Dropping the oldest entries keeps the newest ones.\<close>

lemma btm_drop_inv: "btm_inv m \<Longrightarrow> btm_inv (drop k m)"
  by (simp add: btm_inv_def drop_map [symmetric] sorted_wrt_drop)

lemma btm_get_drop_Some: "btm_inv m \<Longrightarrow> btm_get (drop k m) j = Some x \<Longrightarrow> btm_get m j = Some x"
  by (simp add: btm_get_in_set btm_drop_inv in_set_dropD)

lemma btm_get_drop_newer:
  assumes m: "btm_inv m" and i: "btm_get (drop k m) i \<noteq> None" "i \<le> j"
  shows "btm_get (drop k m) j = btm_get m j"
proof (cases "btm_get m j")
  case None
  then show ?thesis using btm_get_drop_Some[OF m] by (cases "btm_get (drop k m) j") auto
next
  case (Some x)
  have "(j, x) \<in> set (take k m @ drop k m)" using Some m by (simp add: btm_get_in_set)
  moreover have "(j, x) \<notin> set (take k m)"
  proof
    assume "(j, x) \<in> set (take k m)"
    moreover obtain y where "(i, y) \<in> set (drop k m)"
      using i(1) btm_drop_inv[OF m] by (auto simp: btm_get_in_set)
    moreover have "sorted_wrt (<) (map fst (take k m @ drop k m))" using m by (simp add: btm_inv_def)
    ultimately have "j < i" unfolding map_append sorted_wrt_append by force
    then show False using i(2) by simp
  qed
  ultimately have "(j, x) \<in> set (drop k m)" by (metis Un_iff set_append)
  then show ?thesis using Some btm_drop_inv[OF m] by (simp add: btm_get_in_set)
qed

lemmas btm_invs = btm_insert_inv btm_retain_inv btm_remove_inv btm_push_inv btm_pop_first_inv

end
