(* ===== verification/Dag_Deadline.thy ===== *)
theory Dag_Deadline
  imports Dag_Graph Btree_Map
begin

text \<open>
  One DAG of reactors (\<open>awkernel_async_lib/src/dag.rs\<close>, \<open>struct Dag\<close>): its nodes, its edges and the
  absolute deadlines of its released jobs. The two mutexes of a \<open>Dag\<close> are always taken in the same
  order and for the whole body of an operation, so each operation is one state transition on the
  record \<open>dag\<close>. Durations are in nanoseconds.
\<close>

record node_info =
  ni_task_id :: u32
  ni_subscribe_topic_names :: "string list"
  ni_publish_topic_names :: "string list"
  ni_relative_deadline :: "nat option"
  ni_num_finished :: u64
  ni_deadline_job :: "u64 option"

record edge_info =
  ei_topic_name :: string

type_synonym dag_graph = "(node_info, edge_info) graph"

record dag =
  dag_id :: u32
  dag_graph :: dag_graph
  dag_absolute_deadlines :: "(u64, u64) btree_map"

definition to_node_index :: "u32 \<Rightarrow> node_index" where
  "to_node_index index = word_of_nat (unat index)"

definition get_source_nodes :: "dag \<Rightarrow> node_index list" where
  "get_source_nodes d = externals (dag_graph d) Incoming"

definition get_sink_nodes :: "dag \<Rightarrow> node_index list" where
  "get_sink_nodes d = externals (dag_graph d) Outgoing"

definition get_sink_relative_deadline :: "dag \<Rightarrow> nat option" where
  "get_sink_relative_deadline d =
     (case externals (dag_graph d) Outgoing of
        [] \<Rightarrow> None
      | sink # _ \<Rightarrow> Option.bind (node_weight (dag_graph d) sink) ni_relative_deadline)"

definition set_relative_deadline :: "dag \<Rightarrow> node_index \<Rightarrow> nat \<Rightarrow> dag rust" where
  "set_relative_deadline d node_idx deadline =
     and_then (unwrap (node_weight_mut (dag_graph d) node_idx (\<lambda>i. i\<lparr>ni_relative_deadline := Some deadline\<rparr>)))
       (\<lambda>g. Inr (d\<lparr>dag_graph := g\<rparr>))"

section \<open>Absolute deadlines of the released jobs\<close>

text \<open>The closure \<open>release_deadline\<close> runs only when the job has no deadline yet; it may panic.\<close>

definition get_or_release_absolute_deadline :: "dag \<Rightarrow> node_index \<Rightarrow> bool \<Rightarrow> u64 rust \<Rightarrow> (u64 \<times> dag) rust" where
  "get_or_release_absolute_deadline d node_idx release release_deadline =
     and_then (returns (nb_next (neighbors_directed (dag_graph d) node_idx Incoming))) (\<lambda>nx.
     let is_source = (fst nx = None) in
     and_then (unwrap (node_weight (dag_graph d) node_idx)) (\<lambda>node_info.
     let job = ni_num_finished node_info;
         release = (release \<and> is_source);
         deadline_job = (if release \<or> btm_contains_key (dag_absolute_deadlines d) job then Some job else None)
     in
     and_then (unwrap (node_weight_mut (dag_graph d) node_idx (\<lambda>i. i\<lparr>ni_deadline_job := deadline_job\<rparr>))) (\<lambda>g.
     let d = d\<lparr>dag_graph := g\<rparr> in
     case btm_get (dag_absolute_deadlines d) job of
       Some deadline \<Rightarrow> Inr (deadline, d)
     | None \<Rightarrow>
         and_then release_deadline (\<lambda>release_deadline.
         if release
         then Inr (release_deadline,
                   d\<lparr>dag_absolute_deadlines := btm_insert (dag_absolute_deadlines d) job release_deadline\<rparr>)
         else Inr (release_deadline, d)))))"

definition has_stale_deadline :: "dag \<Rightarrow> node_index \<Rightarrow> bool rust" where
  "has_stale_deadline d node_idx =
     and_then (unwrap (node_weight (dag_graph d) node_idx)) (\<lambda>node_info.
       Inr (ni_deadline_job node_info \<noteq> Some (ni_num_finished node_info)
         \<and> btm_contains_key (dag_absolute_deadlines d) (ni_num_finished node_info)))"

text \<open>\<open>Attribute::default().queue_size\<close>\<close>

definition default_queue_size :: usize where
  "default_queue_size = 10"

fun trim_deadlines :: "nat \<Rightarrow> (u64, u64) btree_map \<Rightarrow> (u64, u64) btree_map" where
  "trim_deadlines max_unfinished [] = []"
| "trim_deadlines max_unfinished (e # m) =
     (if length (e # m) > max_unfinished then trim_deadlines max_unfinished (btm_pop_first (e # m)) else e # m)"

text \<open>\<open>Iterator::min\<close>\<close>

definition iter_min :: "'a :: linorder list \<Rightarrow> 'a option" where
  "iter_min xs = (case xs of [] \<Rightarrow> None | y # ys \<Rightarrow> Some (fold min ys y))"

definition finish_job :: "dag \<Rightarrow> node_index \<Rightarrow> dag rust" where
  "finish_job d node_idx =
     and_then (unwrap (node_weight_mut (dag_graph d) node_idx (\<lambda>i. i\<lparr>ni_num_finished := ni_num_finished i + 1\<rparr>))) (\<lambda>g.
     and_then (unwrap (iter_min (map ni_num_finished
                (List.map_filter (node_weight g) (node_indices g))))) (\<lambda>oldest_unfinished.
     let kept = btm_retain (\<lambda>job. job \<ge> oldest_unfinished) (dag_absolute_deadlines d);
         max_unfinished = node_count g * (default_queue_size + 1) + 1
     in Inr (d\<lparr>dag_graph := g, dag_absolute_deadlines := trim_deadlines max_unfinished kept\<rparr>)))"

section \<open>Invariant\<close>

definition dag_inv :: "dag \<Rightarrow> bool" where
  "dag_inv d \<longleftrightarrow> graph_inv (dag_graph d) \<and> btm_inv (dag_absolute_deadlines d)"

definition is_source_node :: "dag \<Rightarrow> node_index \<Rightarrow> bool" where
  "is_source_node d v \<longleftrightarrow> in_edges (dag_graph d) v = []"

text \<open>The job that a node processes next, and the deadline of a job if it is released.\<close>

definition current_job :: "dag \<Rightarrow> node_index \<Rightarrow> u64" where
  "current_job d v = (case node_weight (dag_graph d) v of Some i \<Rightarrow> ni_num_finished i | None \<Rightarrow> 0)"

definition deadline_of :: "dag \<Rightarrow> u64 \<Rightarrow> u64 option" where
  "deadline_of d job = btm_get (dag_absolute_deadlines d) job"

lemma nb_next_of_collect:
  assumes "nb_collect it = Some vs"
  shows "\<exists>it'. nb_next it = Some ((case vs of [] \<Rightarrow> None | v # _ \<Rightarrow> Some v), it')"
  using assms by (auto simp: nb_collect.simps[of it] Option.bind_eq_Some_conv split: option.splits)

lemma first_in_neighbor:
  assumes "graph_inv g"
  shows "\<exists>it'. nb_next (neighbors_directed g v Incoming)
           = Some ((if in_edges g v = [] then None else Some (ge_node0 (hd (in_edges g v)))), it')"
  using nb_next_of_collect[OF conjunct2[OF neighbors_exact[OF assms, of v]]]
  by (cases "in_edges g v") auto

definition is_node :: "dag \<Rightarrow> node_index \<Rightarrow> bool" where
  "is_node d v \<longleftrightarrow> unat v < node_count (dag_graph d)"

lemma node_weight_iff: "is_node d v \<longleftrightarrow> (\<exists>i. node_weight (dag_graph d) v = Some i)"
  by (simp add: is_node_def node_weight_def node_count_def)

lemma node_weight_mut_Some:
  assumes "is_node d v"
  obtains g where "node_weight_mut (dag_graph d) v f = Some g"
  using assms by (auto simp: is_node_def node_weight_mut_def node_count_def)

lemma dag_wake_result:
  assumes inv: "dag_inv d" and v: "is_node d v"
  obtains g where
    "node_weight_mut (dag_graph d) v (\<lambda>i. i\<lparr>ni_deadline_job :=
         (if rel \<and> is_source_node d v \<or> deadline_of d (current_job d v) \<noteq> None
          then Some (current_job d v) else None)\<rparr>) = Some g"
    "get_or_release_absolute_deadline d v rel (Inr rd) =
       Inr (case deadline_of d (current_job d v) of Some x \<Rightarrow> x | None \<Rightarrow> rd,
            d\<lparr>dag_graph := g, dag_absolute_deadlines :=
              (if deadline_of d (current_job d v) = None \<and> rel \<and> is_source_node d v
               then btm_insert (dag_absolute_deadlines d) (current_job d v) rd
               else dag_absolute_deadlines d)\<rparr>)"
proof -
  obtain i where i: "node_weight (dag_graph d) v = Some i" using v node_weight_iff by blast
  then have job: "ni_num_finished i = current_job d v" by (simp add: current_job_def)
  obtain it' where "nb_next (neighbors_directed (dag_graph d) v Incoming)
      = Some (if is_source_node d v then None else Some (ge_node0 (hd (in_edges (dag_graph d) v))), it')"
    using first_in_neighbor[of "dag_graph d" v] inv by (auto simp: dag_inv_def is_source_node_def)
  moreover obtain g where "node_weight_mut (dag_graph d) v (\<lambda>i. i\<lparr>ni_deadline_job :=
         (if rel \<and> is_source_node d v \<or> deadline_of d (current_job d v) \<noteq> None
          then Some (current_job d v) else None)\<rparr>) = Some g"
    using node_weight_mut_Some[OF v] by blast
  ultimately show ?thesis
    using i job that
    by (cases "is_source_node d v"; cases rel; cases "deadline_of d (current_job d v)")
      (simp_all add: get_or_release_absolute_deadline_def Let_def btm_contains_key_def deadline_of_def)
qed

lemma update_keeps_jobs:
  assumes "node_weight_mut (dag_graph d) v f = Some g" "\<And>i. ni_num_finished (f i) = ni_num_finished i"
  shows "current_job (d\<lparr>dag_graph := g, dag_absolute_deadlines := m\<rparr>) u = current_job d u"
    "is_node (d\<lparr>dag_graph := g, dag_absolute_deadlines := m\<rparr>) u = is_node d u"
    "is_source_node (d\<lparr>dag_graph := g, dag_absolute_deadlines := m\<rparr>) u = is_source_node d u"
  using node_weight_mut_edges[OF assms(1)] assms(2)
  by (auto simp: current_job_def is_node_def is_source_node_def split: option.split)

lemma iter_min_Some: "xs \<noteq> [] \<Longrightarrow> iter_min xs = Some (Min (set xs))"
  by (cases xs) (simp_all add: iter_min_def flip: Min.set_eq_fold)

lemma trim_deadlines_drop: "trim_deadlines mx m = drop (length m - mx) m"
  by (induction mx m rule: trim_deadlines.induct) (auto simp: Suc_diff_le not_less)

definition oldest_unfinished :: "dag \<Rightarrow> u64" where
  "oldest_unfinished d = Min (current_job d ` {v. is_node d v})"

definition max_unfinished :: "dag \<Rightarrow> nat" where
  "max_unfinished d = node_count (dag_graph d) * (default_queue_size + 1) + 1"

lemma finite_nodes: "finite {v. is_node d v}"
  by simp

lemma job_list_set:
  assumes "graph_inv (dag_graph d)"
  shows "set (map ni_num_finished (List.map_filter (node_weight (dag_graph d)) (node_indices (dag_graph d))))
    = current_job d ` {v. is_node d v}"
proof -
  have n: "node_count (dag_graph d) < 2 ^ 32" using assms by (simp add: graph_inv_def node_count_def)
  have "set (node_indices (dag_graph d)) = {v. is_node d v}"
  proof safe
    fix v assume "v \<in> set (node_indices (dag_graph d))"
    then show "is_node d v" using n by (auto simp: node_indices_def is_node_def unat_of_nat)
  next
    fix v assume "is_node d v"
    then show "v \<in> set (node_indices (dag_graph d))"
      using word_of_index[of v] by (force simp: node_indices_def is_node_def)
  qed
  moreover have "node_weight (dag_graph d) v \<noteq> None \<longleftrightarrow> is_node d v" for v
    using node_weight_iff by auto
  ultimately show ?thesis
    by (force simp: List.map_filter_def current_job_def image_iff)
qed

lemma finish_result:
  assumes inv: "dag_inv d" and v: "is_node d v"
  obtains d' where "finish_job d v = Inr d'" "dag_inv d'"
    "\<And>u. is_node d' u = is_node d u"
    "\<And>u. is_source_node d' u = is_source_node d u"
    "\<And>u. current_job d' u = (if u = v then current_job d v + 1 else current_job d u)"
    "dag_absolute_deadlines d' =
       trim_deadlines (max_unfinished d) (btm_retain (\<lambda>j. oldest_unfinished d' \<le> j) (dag_absolute_deadlines d))"
proof -
  obtain g where g: "node_weight_mut (dag_graph d) v (\<lambda>i. i\<lparr>ni_num_finished := ni_num_finished i + 1\<rparr>) = Some g"
    using node_weight_mut_Some[OF v] by blast
  note ge = node_weight_mut_edges[OF g]
  let ?d = "\<lambda>m. d\<lparr>dag_graph := g, dag_absolute_deadlines := m\<rparr>"
  have gi: "graph_inv g" using inv node_weight_mut_inv[OF g] by (simp add: dag_inv_def)
  have nodes: "is_node (?d m) u = is_node d u" for m u using ge by (simp add: is_node_def)
  have cj: "current_job (?d m) u = (if u = v then current_job d v + 1 else current_job d u)" for m u
    using ge(6)[of u] v node_weight_iff[of d v] by (auto simp: current_job_def split: option.split)
  let ?js = "map ni_num_finished (List.map_filter (node_weight g) (node_indices g))"
  have js: "set ?js = current_job (?d m) ` {u. is_node (?d m) u}" for m
    using job_list_set[of "?d m"] gi by simp
  then have "?js \<noteq> []" using v nodes by (metis empty_iff image_is_empty mem_Collect_eq set_empty)
  then have "iter_min ?js = Some (oldest_unfinished (?d m))" for m
    unfolding oldest_unfinished_def js[of m, symmetric] by (rule iter_min_Some)
  then have mins: "iter_min ?js = Some (oldest_unfinished (?d []))" "\<And>m. oldest_unfinished (?d m) = oldest_unfinished (?d [])"
    by (metis option.inject)+
  let ?m = "trim_deadlines (max_unfinished d) (btm_retain (\<lambda>j. oldest_unfinished (?d []) \<le> j) (dag_absolute_deadlines d))"
  have "finish_job d v = Inr (?d ?m)"
    using g mins(1) ge(2) by (simp add: finish_job_def max_unfinished_def Let_def)
  moreover have "btm_inv ?m"
    using inv by (simp add: trim_deadlines_drop dag_inv_def btm_inv_def btm_retain_def drop_map [symmetric] sorted_wrt_drop sorted_wrt_filter sorted_wrt_map)
  ultimately show ?thesis
    using that[of "?d ?m"] gi nodes cj mins(2)[of ?m] ge by (simp add: dag_inv_def is_source_node_def)
qed

section \<open>Runs of a DAG\<close>

datatype dag_event = Wake node_index bool u64 u64 | Finish node_index

inductive dag_step :: "dag \<Rightarrow> dag_event \<Rightarrow> dag \<Rightarrow> bool" where
  wake: "get_or_release_absolute_deadline d v rel (Inr rd) = Inr (x, d') \<Longrightarrow> dag_step d (Wake v rel rd x) d'"
| finish: "finish_job d v = Inr d' \<Longrightarrow> dag_step d (Finish v) d'"

inductive_cases dag_step_cases: "dag_step d e d'"

text \<open>
  What flow control guarantees: no node is more than \<open>queue_size + 1\<close> jobs per node of the graph
  behind another one. The job counters have not reached the end of their range.
\<close>

definition lag_bounded :: "dag \<Rightarrow> bool" where
  "lag_bounded d \<longleftrightarrow>
     (\<forall>v w. is_node d v \<longrightarrow> is_node d w \<longrightarrow>
        unat (current_job d w) \<le> unat (current_job d v) + node_count (dag_graph d) * (default_queue_size + 1)
        \<and> unat (current_job d v) + 1 < 2 ^ 64)"

inductive dag_run :: "dag \<Rightarrow> dag_event list \<Rightarrow> dag \<Rightarrow> bool" where
  nil: "dag_run d [] d"
| snoc: "dag_run d es d1 \<Longrightarrow> lag_bounded d1 \<Longrightarrow> dag_step d1 e d2 \<Longrightarrow> dag_run d (es @ [e]) d2"

text \<open>No job is released that every node has yet to reach.\<close>

definition released_ok :: "dag \<Rightarrow> bool" where
  "released_ok d \<longleftrightarrow> (\<forall>j. deadline_of d j \<noteq> None \<longrightarrow> (\<exists>v. is_node d v \<and> j \<le> current_job d v))"

lemma get_needs_node:
  "get_or_release_absolute_deadline d v rel rd = Inr r \<Longrightarrow> is_node d v"
  by (auto simp: get_or_release_absolute_deadline_def and_then_Inr_iff Let_def node_weight_iff)

lemma finish_needs_node: "finish_job d v = Inr d' \<Longrightarrow> is_node d v"
  by (auto simp: finish_job_def and_then_Inr_iff node_weight_mut_def is_node_def node_count_def split: if_splits)

lemma wake_step:
  assumes "dag_inv d" "get_or_release_absolute_deadline d v rel (Inr rd) = Inr (x, d')"
  shows "dag_inv d'" "\<And>u. is_node d' u = is_node d u" "\<And>u. current_job d' u = current_job d u"
    "\<And>u. is_source_node d' u = is_source_node d u"
    "x = (case deadline_of d (current_job d v) of Some y \<Rightarrow> y | None \<Rightarrow> rd)"
    "\<And>j. deadline_of d' j = (if deadline_of d (current_job d v) = None \<and> rel \<and> is_source_node d v
           \<and> j = current_job d v then Some rd else deadline_of d j)"
proof -
  obtain g where g: "node_weight_mut (dag_graph d) v (\<lambda>i. i\<lparr>ni_deadline_job :=
         (if rel \<and> is_source_node d v \<or> deadline_of d (current_job d v) \<noteq> None
          then Some (current_job d v) else None)\<rparr>) = Some g"
    and res: "get_or_release_absolute_deadline d v rel (Inr rd) =
       Inr (case deadline_of d (current_job d v) of Some x \<Rightarrow> x | None \<Rightarrow> rd,
            d\<lparr>dag_graph := g, dag_absolute_deadlines :=
              (if deadline_of d (current_job d v) = None \<and> rel \<and> is_source_node d v
               then btm_insert (dag_absolute_deadlines d) (current_job d v) rd
               else dag_absolute_deadlines d)\<rparr>)"
    using dag_wake_result[OF assms(1) get_needs_node[OF assms(2)]] .
  have d': "d' = d\<lparr>dag_graph := g, dag_absolute_deadlines :=
              (if deadline_of d (current_job d v) = None \<and> rel \<and> is_source_node d v
               then btm_insert (dag_absolute_deadlines d) (current_job d v) rd
               else dag_absolute_deadlines d)\<rparr>"
    and x: "x = (case deadline_of d (current_job d v) of Some y \<Rightarrow> y | None \<Rightarrow> rd)"
    using res assms(2) by auto
  have inv: "graph_inv (dag_graph d)" "btm_inv (dag_absolute_deadlines d)"
    using assms(1) by (auto simp: dag_inv_def)
  show "dag_inv d'"
    using inv node_weight_mut_inv[OF g inv(1)] by (simp add: d' dag_inv_def btm_insert_inv)
  show "is_node d' u = is_node d u" "current_job d' u = current_job d u"
    "is_source_node d' u = is_source_node d u" for u
    using update_keeps_jobs[OF g] by (simp_all add: d')
  show "x = (case deadline_of d (current_job d v) of Some y \<Rightarrow> y | None \<Rightarrow> rd)" by (rule x)
  show "deadline_of d' j = (if deadline_of d (current_job d v) = None \<and> rel \<and> is_source_node d v
           \<and> j = current_job d v then Some rd else deadline_of d j)" for j
    using inv by (simp add: d' deadline_of_def btm_get_insert)
qed

lemma oldest_le: "is_node d v \<Longrightarrow> oldest_unfinished d \<le> current_job d v"
  by (simp add: oldest_unfinished_def)

lemma oldest_attained:
  assumes "is_node d v" obtains u where "is_node d u" "oldest_unfinished d = current_job d u"
proof -
  have "Min (current_job d ` {v. is_node d v}) \<in> current_job d ` {v. is_node d v}"
    using assms by (intro Min_in) auto
  then show ?thesis using that by (auto simp: oldest_unfinished_def)
qed

text \<open>A sorted map with keys in an interval of words has at most as many entries as the interval.\<close>

lemma btm_interval_length:
  fixes m :: "(u64, 'v) btree_map"
  assumes "btm_inv m" "\<And>k. k \<in> fst ` set m \<Longrightarrow> lo \<le> unat k \<and> unat k \<le> lo + w"
  shows "length m \<le> w + 1"
proof -
  have "length m = card (fst ` set m)"
    using distinct_card[OF btm_inv_distinct[OF assms(1)]] by simp
  also have "\<dots> = card (unat ` fst ` set m)"
    by (rule card_image [symmetric]) (auto intro: inj_onI simp: word_unat_eq_iff)
  also have "\<dots> \<le> card {lo .. lo + w}"
    by (intro card_mono finite_atLeastAtMost image_subsetI) (simp add: assms(2))
  finally show ?thesis by simp
qed

lemma finish_step:
  assumes inv: "dag_inv d" and rel: "released_ok d" and lag: "lag_bounded d" and fin: "finish_job d v = Inr d'"
  shows "dag_inv d'" "released_ok d'" "\<And>u. is_node d' u = is_node d u"
    "\<And>u. unat (current_job d' u) = unat (current_job d u) + (if u = v then 1 else 0)"
    "\<And>j. deadline_of d' j = (if oldest_unfinished d' \<le> j then deadline_of d j else None)"
proof -
  have v: "is_node d v" by (rule finish_needs_node[OF fin])
  have d': "dag_inv d'" "\<And>u. is_node d' u = is_node d u"
    "\<And>u. current_job d' u = (if u = v then current_job d v + 1 else current_job d u)"
    "dag_absolute_deadlines d' = trim_deadlines (max_unfinished d)
       (btm_retain (\<lambda>j. oldest_unfinished d' \<le> j) (dag_absolute_deadlines d))"
    by (rule finish_result[OF inv v], use fin in simp)+
  have "unat (current_job d v) + 1 < 2 ^ 64" using lag v by (simp add: lag_bounded_def)
  then have "unat (current_job d v + 1) = unat (current_job d v) + 1"
    by (simp add: unat_word_ariths)
  then have cj: "unat (current_job d' u) = unat (current_job d u) + (if u = v then 1 else 0)" for u
    by (simp add: d'(3))
  let ?m = "btm_retain (\<lambda>j. oldest_unfinished d' \<le> j) (dag_absolute_deadlines d)"
  obtain u where u: "is_node d u" "oldest_unfinished d' = current_job d' u"
    using oldest_attained[of d' v] v d'(2) by metis
  have "length ?m \<le> node_count (dag_graph d) * (default_queue_size + 1) + 1"
  proof (rule btm_interval_length)
    show "btm_inv ?m" using inv by (simp add: dag_inv_def btm_retain_inv)
    fix k assume "k \<in> fst ` set ?m"
    then have k: "oldest_unfinished d' \<le> k" "deadline_of d k \<noteq> None"
      by (auto simp: btm_retain_def deadline_of_def btm_get_def map_of_eq_None_iff)
    then obtain w where w: "is_node d w" "k \<le> current_job d w" using rel by (auto simp: released_ok_def)
    have "unat (current_job d w) \<le> unat (current_job d u) + node_count (dag_graph d) * (default_queue_size + 1)"
      using lag u(1) w(1) by (simp add: lag_bounded_def)
    then show "unat (oldest_unfinished d') \<le> unat k \<and>
        unat k \<le> unat (oldest_unfinished d') + node_count (dag_graph d) * (default_queue_size + 1)"
      using k w(2) cj[of u] u(2) by (auto simp: word_le_nat_alt)
  qed
  then have keep: "dag_absolute_deadlines d' = ?m"
    by (simp add: d'(4) trim_deadlines_drop max_unfinished_def)
  show dl: "deadline_of d' j = (if oldest_unfinished d' \<le> j then deadline_of d j else None)" for j
    by (simp add: deadline_of_def keep btm_get_retain)
  have "current_job d w \<le> current_job d' w" for w using cj[of w] by (simp add: word_le_nat_alt)
  then have up: "j \<le> current_job d w \<Longrightarrow> j \<le> current_job d' w" for j w
    using order_trans by blast
  show "released_ok d'"
    unfolding released_ok_def
  proof (intro allI impI)
    fix j assume "deadline_of d' j \<noteq> None"
    then have "deadline_of d j \<noteq> None" by (simp add: dl split: if_splits)
    then obtain w where "is_node d w" "j \<le> current_job d w" using rel by (auto simp: released_ok_def)
    then show "\<exists>w. is_node d' w \<and> j \<le> current_job d' w" using d'(2) up by blast
  qed
  show "dag_inv d'" "\<And>u. is_node d' u = is_node d u" by (fact d'(1,2))+
  show "\<And>u. unat (current_job d' u) = unat (current_job d u) + (if u = v then 1 else 0)" by (fact cj)
qed

lemma wake_released_ok:
  assumes "dag_inv d" "get_or_release_absolute_deadline d v rel (Inr rd) = Inr (x, d')" "released_ok d"
  shows "released_ok d'"
  using wake_step(2,3,6)[OF assms(1,2)] assms(3) get_needs_node[OF assms(2)]
  unfolding released_ok_def by auto

lemma dag_run_keeps:
  assumes "dag_run d es d'" "dag_inv d" "released_ok d"
  shows "dag_inv d' \<and> released_ok d' \<and> (\<forall>u. is_node d' u = is_node d u \<and> current_job d u \<le> current_job d' u)
    \<and> (\<forall>j x u. deadline_of d j = Some x \<longrightarrow> is_node d u \<longrightarrow> current_job d' u \<le> j \<longrightarrow> deadline_of d' j = Some x)"
  using assms
proof (induction rule: dag_run.induct)
  case (snoc d es d1 e d2)
  then have IH: "dag_inv d1" "released_ok d1" "\<And>u. is_node d1 u = is_node d u"
    "\<And>u. current_job d u \<le> current_job d1 u"
    "\<And>j x u. deadline_of d j = Some x \<Longrightarrow> is_node d u \<Longrightarrow> current_job d1 u \<le> j \<Longrightarrow> deadline_of d1 j = Some x"
    by auto
  from snoc.hyps(3) show ?case
  proof (cases rule: dag_step.cases)
    case (wake v rel rd x)
    note w = wake_step[OF IH(1) wake(2)] wake_released_ok[OF IH(1) wake(2) IH(2)]
    have "deadline_of d2 j = Some x" if "deadline_of d j = Some x" "is_node d u" "current_job d2 u \<le> j" for j x u
      using IH(5)[OF that(1,2)] that(3) w(3,6) by auto
    then show ?thesis using IH(3,4) w(1-3,7) by simp
  next
    case (finish v)
    note f = finish_step[OF IH(1,2) snoc.hyps(2) finish(2)]
    have le: "current_job d1 u \<le> current_job d2 u" for u using f(4)[of u] by (simp add: word_le_nat_alt)
    have "oldest_unfinished d2 \<le> j" if "is_node d u" "current_job d2 u \<le> j" for u j
      using that f(3) IH(3) oldest_le[of d2 u] by auto
    then have "deadline_of d2 j = Some x" if "deadline_of d j = Some x" "is_node d u" "current_job d2 u \<le> j" for j x u
      using IH(5)[OF that(1,2)] that(2,3) f(5) le[of u] by auto
    then show ?thesis using IH(3,4) f(1-3) le order_trans[OF IH(4) le] by simp
  qed
qed simp

text \<open>
  C25. Job deadlines are consistent along any run of wakes and job completions in which flow control
  bounds the lag between the nodes: once a job is released with deadline \<open>x\<close>, every node of the DAG
  that wakes for that job gets exactly \<open>x\<close>, however late it wakes and whatever happened in between.
\<close>

theorem released_job_keeps_its_deadline:
  assumes "dag_inv d" "released_ok d" "deadline_of d j = Some x"
    and "dag_run d es d'" "is_node d v" "current_job d' v = j"
  shows "\<exists>d''. get_or_release_absolute_deadline d' v rel (Inr rd) = Inr (x, d'') \<and> deadline_of d'' j = Some x"
proof -
  have d': "dag_inv d'" "is_node d' v" "deadline_of d' j = Some x"
    using dag_run_keeps[OF assms(4,1,2)] assms(3,5,6) by auto
  obtain d'' where "get_or_release_absolute_deadline d' v rel (Inr rd) = Inr (x, d'')"
    using dag_wake_result[OF d'(1,2), of rel rd] d'(3) assms(6) by auto
  then show ?thesis using wake_step(6)[OF d'(1)] d'(3) by (metis option.distinct(1))
qed

text \<open>A source node that publishes to a sink node; job 0 is released and the sink lags by \<open>n\<close> jobs.\<close>

definition sample_dag :: "u64 \<Rightarrow> dag" where
  "sample_dag n = \<lparr>dag_id = 1,
     dag_graph = \<lparr>
       g_nodes = [\<lparr>gn_weight = \<lparr>ni_task_id = 7, ni_subscribe_topic_names = [],
                     ni_publish_topic_names = [''t''], ni_relative_deadline = None,
                     ni_num_finished = n, ni_deadline_job = Some 0\<rparr>, gn_next0 = 0, gn_next1 = index_end\<rparr>,
                  \<lparr>gn_weight = \<lparr>ni_task_id = 8, ni_subscribe_topic_names = [''t''],
                     ni_publish_topic_names = [], ni_relative_deadline = Some 50,
                     ni_num_finished = 0, ni_deadline_job = None\<rparr>, gn_next0 = index_end, gn_next1 = 0\<rparr>],
       g_edges = [\<lparr>ge_weight = \<lparr>ei_topic_name = ''t''\<rparr>, ge_next0 = index_end, ge_next1 = index_end,
                    ge_node0 = 0, ge_node1 = 1\<rparr>]\<rparr>,
     dag_absolute_deadlines = [(0, 100)]\<rparr>"

lemma unat_less_2_iff: "unat (v :: u32) < 2 \<longleftrightarrow> v = 0 \<or> v = 1"
proof
  assume "unat v < 2"
  then have "unat v = 0 \<or> unat v = 1" by linarith
  then show "v = 0 \<or> v = 1" by (auto simp: word_unat_eq_iff)
qed auto

lemma sample_dag_node: "is_node (sample_dag n) v \<longleftrightarrow> v = 0 \<or> v = 1"
  by (simp add: is_node_def sample_dag_def node_count_def numeral_2_eq_2 flip: unat_less_2_iff)

lemma sample_dag_job: "current_job (sample_dag n) v = (if v = 0 then n else 0)"
  by (simp add: current_job_def sample_dag_def node_weight_def flip: unat_less_2_iff)
    (auto simp: unat_less_2_iff numeral_2_eq_2 [symmetric])

lemma sample_dag_inv: "dag_inv (sample_dag n)"
  by (simp add: dag_inv_def sample_dag_def graph_inv_def btm_inv_def All_less_Suc)

lemma sample_dag_ok: "released_ok (sample_dag n)" "lag_bounded (sample_dag 0)"
proof -
  have "deadline_of (sample_dag n) j \<noteq> None \<longleftrightarrow> j = 0" for j
    by (simp add: deadline_of_def btm_get_def sample_dag_def)
  then show "released_ok (sample_dag n)" unfolding released_ok_def by (auto simp: sample_dag_node)
  show "lag_bounded (sample_dag 0)" by (auto simp: lag_bounded_def sample_dag_node sample_dag_job)
qed

lemma sample_dag_finish: "finish_job (sample_dag 0) 0 = Inr (sample_dag 1)"
  by (simp add: sample_dag_def finish_job_def node_weight_mut_def node_indices_def node_count_def
      node_weight_def List.map_filter_def iter_min_def btm_retain_def default_queue_size_def)

theorem released_job_keeps_its_deadline_witness:
  "\<exists>d''. get_or_release_absolute_deadline (sample_dag 1) 1 True (Inr 999) = Inr (100, d'') \<and> deadline_of d'' 0 = Some 100"
proof (rule released_job_keeps_its_deadline)
  show "dag_inv (sample_dag 0)" "released_ok (sample_dag 0)" by (fact sample_dag_inv sample_dag_ok)+
  show "deadline_of (sample_dag 0) 0 = Some 100" by (simp add: deadline_of_def btm_get_def sample_dag_def)
  show "dag_run (sample_dag 0) ([] @ [Finish 0]) (sample_dag 1)"
    by (rule dag_run.snoc[OF dag_run.nil sample_dag_ok(2) dag_step.finish[OF sample_dag_finish]])
  show "is_node (sample_dag 0) 1" "current_job (sample_dag 1) 1 = 0" by (simp_all add: sample_dag_node sample_dag_job)
qed

text \<open>
  C26. \<open>finish_job\<close> bounds the bookkeeping whatever the nodes do, in particular when a node has stopped:
  afterwards at most \<open>node_count * (queue_size + 1) + 1\<close> deadlines are kept, none of them of a job that
  every node finished, and those that are kept are the newest ones with their deadlines unchanged.
\<close>

theorem finish_job_bounds_deadlines:
  assumes "dag_inv d" "is_node d v"
  shows "\<exists>d'. finish_job d v = Inr d' \<and> dag_inv d'
    \<and> length (dag_absolute_deadlines d') \<le> max_unfinished d
    \<and> (\<forall>j x. deadline_of d' j = Some x \<longrightarrow> deadline_of d j = Some x \<and> oldest_unfinished d' \<le> j)
    \<and> (\<forall>i j. deadline_of d' i \<noteq> None \<longrightarrow> i \<le> j \<longrightarrow> deadline_of d' j = deadline_of d j)"
proof -
  obtain d' where d': "finish_job d v = Inr d'" "dag_inv d'"
    "dag_absolute_deadlines d' = trim_deadlines (max_unfinished d)
       (btm_retain (\<lambda>j. oldest_unfinished d' \<le> j) (dag_absolute_deadlines d))"
    by (rule finish_result[OF assms]) blast
  let ?m = "btm_retain (\<lambda>j. oldest_unfinished d' \<le> j) (dag_absolute_deadlines d)"
  let ?k = "length ?m - max_unfinished d"
  have m: "btm_inv ?m" using assms(1) by (simp add: dag_inv_def btm_retain_inv)
  have drop: "deadline_of d' j = btm_get (drop ?k ?m) j" for j
    by (simp add: deadline_of_def d'(3) trim_deadlines_drop)
  have get_m: "btm_get ?m j = (if oldest_unfinished d' \<le> j then deadline_of d j else None)" for j
    by (simp add: btm_get_retain deadline_of_def)
  have "length (dag_absolute_deadlines d') \<le> max_unfinished d" by (simp add: d'(3) trim_deadlines_drop)
  moreover have old: "deadline_of d j = Some x \<and> oldest_unfinished d' \<le> j" if "deadline_of d' j = Some x" for j x
    using btm_get_drop_Some[OF m that[unfolded drop]] by (simp add: get_m split: if_splits)
  moreover have "deadline_of d' j = deadline_of d j" if ij: "deadline_of d' i \<noteq> None" "i \<le> j" for i j
  proof -
    obtain x where "deadline_of d' i = Some x" using ij(1) by blast
    then have "oldest_unfinished d' \<le> j" using old ij(2) by (meson order_trans)
    then show ?thesis using btm_get_drop_newer[OF m ij(1)[unfolded drop] ij(2)] get_m[of j] drop[of j] by simp
  qed
  ultimately show ?thesis using d'(1,2) by blast
qed

theorem finish_job_bounds_deadlines_witness:
  "\<exists>d'. finish_job (sample_dag 0) 0 = Inr d' \<and> length (dag_absolute_deadlines d') \<le> max_unfinished (sample_dag 0)"
  using finish_job_bounds_deadlines[OF sample_dag_inv, of 0 0] by (auto simp: sample_dag_node)

text \<open>
  C27. Staleness is exactly what it says: a node that has just woken has no stale deadline, and a node
  has a stale deadline only if its current job is released and its last wake was for another job.
\<close>

theorem wake_clears_stale_deadline:
  assumes "dag_inv d" "get_or_release_absolute_deadline d v rel (Inr rd) = Inr (x, d')"
  shows "has_stale_deadline d' v = Inr False
    \<and> (has_stale_deadline d v = Inr True \<longrightarrow> deadline_of d (current_job d v) = Some x)"
proof -
  have v: "is_node d v" by (rule get_needs_node[OF assms(2)])
  obtain i where i: "node_weight (dag_graph d) v = Some i" using v node_weight_iff by blast
  obtain g where g: "node_weight_mut (dag_graph d) v (\<lambda>i. i\<lparr>ni_deadline_job :=
         (if rel \<and> is_source_node d v \<or> deadline_of d (current_job d v) \<noteq> None
          then Some (current_job d v) else None)\<rparr>) = Some g"
    and "dag_graph d' = g"
    using dag_wake_result[OF assms(1) v, of rel rd] assms(2) by (metis (no_types, lifting) Inr_inject dag.select_convs(2)
        dag.surjective dag.update_convs(2) dag.update_convs(3) prod.inject)
  then have "node_weight (dag_graph d') v = Some (i\<lparr>ni_deadline_job :=
         (if rel \<and> is_source_node d v \<or> deadline_of d (current_job d v) \<noteq> None
          then Some (current_job d v) else None)\<rparr>)"
    using node_weight_mut_edges(6)[OF g] i by simp
  then show ?thesis
    using i wake_step(3,5,6)[OF assms]
    by (auto simp: has_stale_deadline_def current_job_def btm_contains_key_def deadline_of_def split: option.splits)
qed

theorem wake_clears_stale_deadline_witness:
  "\<exists>x d'. get_or_release_absolute_deadline (sample_dag 1) 1 False (Inr 999) = Inr (x, d') \<and> has_stale_deadline d' 1 = Inr False
     \<and> has_stale_deadline (sample_dag 1) 1 = Inr True"
proof -
  obtain x d' where w: "get_or_release_absolute_deadline (sample_dag 1) 1 False (Inr 999) = Inr (x, d')"
    by (rule dag_wake_result[OF sample_dag_inv, of 1 1 False 999]) (auto simp: sample_dag_node)
  then show ?thesis using wake_clears_stale_deadline[OF sample_dag_inv w]
    by (simp add: has_stale_deadline_def sample_dag_def node_weight_def btm_contains_key_def btm_get_def)
qed

end
