(* ===== verification/Dag_Registry.thy ===== *)
theory Dag_Registry
  imports Dag_Deadline
begin

text \<open>
  The table of DAGs (\<open>struct Dags\<close> of \<open>awkernel_async_lib/src/dag.rs\<close>) and the search for an unused
  identifier, which the table of tasks has too (\<open>Tasks::spawn\<close> of \<open>task.rs\<close>). An \<open>Arc\<close> is an address
  (\<open>nat\<close>) in a heap: a \<open>Dag\<close> outlives its table entry as long as a holder keeps the address.
\<close>

section \<open>Searching an unused identifier\<close>

text \<open>The loop of \<open>Dags::create\<close>; \<open>None\<close> if it does not end.\<close>

partial_function (option) find_dag_id :: "(u32 \<Rightarrow> bool) \<Rightarrow> u32 \<Rightarrow> u32 option" where
  "find_dag_id used cid = (if \<not> used cid then Some cid else find_dag_id used (max (cid + 1) 1))"

text \<open>The loop of \<open>Tasks::spawn\<close>.\<close>

partial_function (option) find_task_id :: "(u32 \<Rightarrow> bool) \<Rightarrow> u32 \<Rightarrow> u32 option" where
  "find_task_id used cid =
     (let cid = (if cid = 0 then cid + 1 else cid)
      in if \<not> used cid then Some cid else find_task_id used (cid + 1))"

text \<open>The number of steps from \<open>cid\<close> to the unused identifier \<open>f\<close>, both nonzero.\<close>

definition id_distance :: "u32 \<Rightarrow> u32 \<Rightarrow> nat" where
  "id_distance f cid = (if cid \<le> f then unat f - unat cid else unat f + 2 ^ 32 - 1 - unat cid)"

lemma max_one: "i \<noteq> 0 \<Longrightarrow> max i 1 = (i :: u32)"
  by (simp add: max.absorb1 word_le_nat_alt unat_gt_0 Suc_le_eq)

lemma max_one_nonzero: "max i 1 \<noteq> (0 :: u32)"
  by (cases "i = 0") (auto simp: max_one)

lemma unat_u32_less: "unat (i :: u32) < 2 ^ 32"
proof -
  have "unat i < 2 ^ LENGTH(32)" by (rule unsigned_less)
  then show ?thesis by simp
qed

lemma id_distance_step:
  assumes "f \<noteq> 0" "cid \<noteq> 0" "cid \<noteq> f"
  shows "id_distance f (max (cid + 1) 1) < id_distance f cid"
proof (cases "cid = - 1")
  case True
  have "0 < unat f" using assms(1) by (simp add: unat_gt_0)
  moreover have "unat f \<noteq> unat (- 1 :: u32)" using assms(3) True by (simp add: word_unat_eq_iff)
  ultimately show ?thesis
    using True unat_index_end unat_u32_less[of f]
    by (auto simp: id_distance_def word_le_nat_alt max_def not_le word_less_nat_alt)
next
  case False
  then have "unat cid < 2 ^ 32 - 1"
    using unat_index_end unat_u32_less[of cid] by (auto simp: word_unat_eq_iff)
  then have "unat (cid + 1) = unat cid + 1" "unat cid < 2 ^ 32 - 1" by (simp_all add: unat_word_ariths)
  then show ?thesis
    using assms unat_u32_less[of f] by (auto simp: id_distance_def word_le_nat_alt max_def word_unat_eq_iff)
qed

lemma find_dag_id_returns:
  assumes "\<not> used f" "f \<noteq> 0"
  shows "cid \<noteq> 0 \<Longrightarrow> \<exists>r. find_dag_id used cid = Some r \<and> \<not> used r \<and> r \<noteq> 0"
proof (induction "id_distance f cid" arbitrary: cid rule: less_induct)
  case less
  show ?case
  proof (cases "used cid")
    case True
    then have "cid \<noteq> f" using assms by auto
    then have "\<exists>r. find_dag_id used (max (cid + 1) 1) = Some r \<and> \<not> used r \<and> r \<noteq> 0"
      using less id_distance_step[OF assms(2)] by (metis max_one_nonzero)
    then show ?thesis using True by (subst find_dag_id.simps) simp
  next
    case False
    then show ?thesis using less.prems by (subst find_dag_id.simps) simp
  qed
qed

lemma find_task_id_eq:
  assumes "\<not> used f" "f \<noteq> 0"
  shows "find_task_id used cid = find_dag_id used (max cid 1)"
proof -
  have "find_task_id used cid = find_dag_id used cid" if "cid \<noteq> 0" for cid
    using that
  proof (induction "id_distance f cid" arbitrary: cid rule: less_induct)
    case less
    have zero: "find_task_id used 0 = find_task_id used 1"
      by (subst (1 2) find_task_id.simps) simp
    show ?case
    proof (cases "used cid")
      case True
      then have "id_distance f (max (cid + 1) 1) < id_distance f cid"
        using id_distance_step[OF assms(2)] less.prems assms(1) by blast
      moreover have "max (cid + 1) 1 \<noteq> 0" by (rule max_one_nonzero)
      ultimately have "find_task_id used (max (cid + 1) 1) = find_dag_id used (max (cid + 1) 1)"
        using less.hyps by blast
      moreover have "find_task_id used (max (cid + 1) 1) = find_task_id used (cid + 1)"
        using zero by (cases "cid + 1 = 0") (auto simp: max_one)
      ultimately show ?thesis
        using True less.prems by (subst find_task_id.simps, subst find_dag_id.simps) simp
    next
      case False
      then show ?thesis using less.prems by (subst find_task_id.simps, subst find_dag_id.simps) simp
    qed
  qed
  moreover have "find_task_id used 0 = find_task_id used 1" by (subst (1 2) find_task_id.simps) simp
  ultimately show ?thesis by (cases "cid = 0") (auto simp: max_one)
qed

text \<open>If fewer than \<open>2 ^ 32 - 1\<close> identifiers are in use, a nonzero one is unused.\<close>

lemma free_id_exists:
  assumes "card {i. used i} < 2 ^ 32 - 1"
  shows "\<exists>f :: u32. \<not> used f \<and> f \<noteq> 0"
proof (rule ccontr)
  assume "\<not> ?thesis"
  then have "UNIV - {0} \<subseteq> {i. used i}" by auto
  then have "card (UNIV - {0 :: u32}) \<le> card {i. used i}" by (intro card_mono) auto
  moreover have "card (UNIV - {0 :: u32}) = 2 ^ 32 - 1" by (simp add: card_Diff_singleton card_word)
  ultimately show False using assms by simp
qed

section \<open>The table of DAGs\<close>

record dags =
  dags_candidate_id :: u32
  dags_id_to_dag :: "(u32, nat) btree_map"

record dag_store =
  ds_dags :: dags
  ds_heap :: "nat \<Rightarrow> dag"
  ds_next_ref :: nat

definition dags_new :: dags where
  "dags_new = \<lparr>dags_candidate_id = 1, dags_id_to_dag = []\<rparr>"

definition dags_create :: "dag_store \<Rightarrow> (nat \<times> dag_store) rust" where
  "dags_create S =
     and_then (returns (find_dag_id (btm_contains_key (dags_id_to_dag (ds_dags S))) (dags_candidate_id (ds_dags S)))) (\<lambda>cid.
     let r = ds_next_ref S;
         dag = \<lparr>dag_id = cid, dag_graph = graph_new, dag_absolute_deadlines = []\<rparr>
     in Inr (r, S\<lparr>ds_heap := (ds_heap S)(r := dag), ds_next_ref := Suc r,
              ds_dags := \<lparr>dags_candidate_id = cid, dags_id_to_dag = btm_insert (dags_id_to_dag (ds_dags S)) cid r\<rparr>\<rparr>))"

definition create_dag :: "dag_store \<Rightarrow> (nat \<times> dag_store) rust" where
  "create_dag S = dags_create S"

definition dags_remove :: "dags \<Rightarrow> u32 \<Rightarrow> dags" where
  "dags_remove D cid = D\<lparr>dags_id_to_dag := btm_remove (dags_id_to_dag D) cid\<rparr>"

definition get_dag :: "dag_store \<Rightarrow> u32 \<Rightarrow> nat option" where
  "get_dag S cid = btm_get (dags_id_to_dag (ds_dags S)) cid"

text \<open>Every entry points to an allocated DAG that carries the identifier of the entry.\<close>

definition dag_store_inv :: "dag_store \<Rightarrow> bool" where
  "dag_store_inv S \<longleftrightarrow>
     btm_inv (dags_id_to_dag (ds_dags S)) \<and> dags_candidate_id (ds_dags S) \<noteq> 0 \<and>
     (\<forall>cid r. get_dag S cid = Some r \<longrightarrow> r < ds_next_ref S \<and> dag_id (ds_heap S r) = cid \<and> dag_inv (ds_heap S r) \<and> cid \<noteq> 0)"

lemma dag_inv_new: "dag_inv \<lparr>dag_id = cid, dag_graph = graph_new, dag_absolute_deadlines = []\<rparr>"
  by (simp add: dag_inv_def graph_inv_new btm_inv_def)

lemma dags_create_step:
  assumes inv: "dag_store_inv S" and create: "dags_create S = Inr (r, S')"
    and fresh: "\<exists>f. get_dag S f = None \<and> f \<noteq> 0"
  shows "dag_store_inv S' \<and> r = ds_next_ref S \<and> get_dag S (dag_id (ds_heap S' r)) = None
    \<and> dag_id (ds_heap S' r) \<noteq> 0 \<and> get_dag S' (dag_id (ds_heap S' r)) = Some r
    \<and> (\<forall>c. c \<noteq> dag_id (ds_heap S' r) \<longrightarrow> get_dag S' c = get_dag S c)"
proof -
  let ?used = "btm_contains_key (dags_id_to_dag (ds_dags S))"
  have used: "?used c \<longleftrightarrow> get_dag S c \<noteq> None" for c by (simp add: btm_contains_key_def get_dag_def)
  obtain f where "\<not> ?used f" "f \<noteq> 0" using fresh used by blast
  moreover have "dags_candidate_id (ds_dags S) \<noteq> 0" using inv by (simp add: dag_store_inv_def)
  ultimately obtain cid where cid: "find_dag_id ?used (dags_candidate_id (ds_dags S)) = Some cid" "\<not> ?used cid" "cid \<noteq> 0"
    using find_dag_id_returns by blast
  have S': "r = ds_next_ref S" "S' = S\<lparr>ds_heap := (ds_heap S)(ds_next_ref S := \<lparr>dag_id = cid, dag_graph = graph_new, dag_absolute_deadlines = []\<rparr>),
      ds_next_ref := Suc (ds_next_ref S), ds_dags := \<lparr>dags_candidate_id = cid,
        dags_id_to_dag = btm_insert (dags_id_to_dag (ds_dags S)) cid (ds_next_ref S)\<rparr>\<rparr>"
    using create cid(1) by (auto simp: dags_create_def Let_def)
  have b: "btm_inv (dags_id_to_dag (ds_dags S))" using inv by (simp add: dag_store_inv_def)
  have get: "get_dag S' c = (if c = cid then Some (ds_next_ref S) else get_dag S c)" for c
    using b by (simp add: get_dag_def S' btm_get_insert)
  have heap: "ds_heap S' p = ds_heap S p" if "p \<noteq> ds_next_ref S" for p using that by (simp add: S')
  have entry: "p < ds_next_ref S' \<and> dag_id (ds_heap S' p) = c \<and> dag_inv (ds_heap S' p) \<and> c \<noteq> 0"
    if c: "get_dag S' c = Some p" for c p
  proof (cases "c = cid")
    case True
    then show ?thesis using c cid(3) unfolding get by (simp add: S' dag_inv_new)
  next
    case False
    then have "get_dag S c = Some p" using c by (simp add: get)
    then have "p < ds_next_ref S \<and> dag_id (ds_heap S p) = c \<and> dag_inv (ds_heap S p) \<and> c \<noteq> 0"
      using inv unfolding dag_store_inv_def by blast
    then show ?thesis by (simp add: S')
  qed
  have "dag_store_inv S'"
    unfolding dag_store_inv_def using entry b cid(3) by (simp add: S' btm_insert_inv)
  then show ?thesis using cid get S'(1) used by (simp add: S'(2))
qed

text \<open>
  Creating a DAG ends as long as a nonzero identifier is unused, and the new DAG gets an
  identifier that no DAG of the table has; the other entries stay as they are.
\<close>

theorem create_dag_fresh_id:
  assumes "dag_store_inv S" "card {i. get_dag S i \<noteq> None} < 2 ^ 32 - 1"
  shows "\<exists>r S'. create_dag S = Inr (r, S') \<and> dag_store_inv S'
    \<and> get_dag S (dag_id (ds_heap S' r)) = None \<and> get_dag S' (dag_id (ds_heap S' r)) = Some r
    \<and> (\<forall>c. c \<noteq> dag_id (ds_heap S' r) \<longrightarrow> get_dag S' c = get_dag S c)"
proof -
  obtain f where f: "get_dag S f = None" "f \<noteq> 0" using free_id_exists[OF assms(2)] by auto
  have "dags_candidate_id (ds_dags S) \<noteq> 0" using assms(1) by (simp add: dag_store_inv_def)
  then obtain cid where "find_dag_id (btm_contains_key (dags_id_to_dag (ds_dags S))) (dags_candidate_id (ds_dags S)) = Some cid"
    using find_dag_id_returns[of "btm_contains_key (dags_id_to_dag (ds_dags S))" f] f
    by (auto simp: btm_contains_key_def get_dag_def)
  then obtain r S' where "dags_create S = Inr (r, S')" by (simp add: dags_create_def Let_def)
  then show ?thesis using dags_create_step[OF assms(1)] f by (auto simp: create_dag_def)
qed

definition empty_dag_store :: dag_store where
  "empty_dag_store = \<lparr>ds_dags = dags_new, ds_heap = (\<lambda>_. sample_dag 0), ds_next_ref = 0\<rparr>"

theorem create_dag_fresh_id_witness:
  "\<exists>r S'. create_dag empty_dag_store = Inr (r, S') \<and> get_dag S' (dag_id (ds_heap S' r)) = Some r"
proof -
  have "dag_store_inv empty_dag_store" "card {i. get_dag empty_dag_store i \<noteq> None} < 2 ^ 32 - 1"
    by (simp_all add: dag_store_inv_def empty_dag_store_def dags_new_def get_dag_def btm_get_def btm_inv_def)
  from create_dag_fresh_id[OF this] show ?thesis by blast
qed

end
