(* ===== verification/Scheduler_Types.thy ===== *)
theory Scheduler_Types
  imports Aw_Prelude "HOL-Library.FSet"
begin

text \<open>
  The scheduler types, their priority list and the combined priority word of a task
  (\<open>awkernel_async_lib/src/scheduler.rs\<close>, \<open>task.rs\<close>, \<open>awkernel_lib/src/cpu.rs\<close>).

  The CPU sets and the affinity queue come from the crate \<open>affinity_btree_queue\<close>. They are a
  parameter: the record \<open>ext_ops\<close> holds the operations that the kernel calls, and \<open>ext_ok\<close> states
  the documented behaviour that the kernel relies on.
\<close>

unbundle bit_operations_syntax

section \<open>The operations of the affinity queue crate\<close>

type_synonym edf_key = "u64 \<times> u64"

record ('m, 'q) ext_ops =
  cm_empty :: 'm
  cm_all :: 'm
  cm_masked_below :: "'m \<Rightarrow> usize \<Rightarrow> 'm"
  cm_without :: "'m \<Rightarrow> usize \<Rightarrow> 'm"
  cm_is_empty :: "'m \<Rightarrow> bool"
  cm_union :: "'m \<Rightarrow> 'm \<Rightarrow> 'm"
  cm_contains :: "'m \<Rightarrow> usize \<Rightarrow> bool"
  cm_iter :: "'m \<Rightarrow> usize list"
  bq_new :: "usize \<Rightarrow> 'q"
  bq_push :: "'q \<Rightarrow> edf_key \<Rightarrow> 'm \<Rightarrow> nat option \<Rightarrow> 'q option"
  bq_pop_for_cpu :: "'q \<Rightarrow> usize \<Rightarrow> (edf_key \<times> 'm \<times> nat option) option \<times> 'q"
  bq_affinity_mask :: "'q \<Rightarrow> 'm"

definition NUM_MAX_CPU :: usize where
  "NUM_MAX_CPU = 512"

definition masked_workers :: "('m, 'q) ext_ops \<Rightarrow> 'm \<Rightarrow> usize \<Rightarrow> 'm" where
  "masked_workers P cpus num_cpus = cm_without P (cm_masked_below P cpus num_cpus) 0"

definition all_workers :: "('m, 'q) ext_ops \<Rightarrow> usize \<Rightarrow> 'm" where
  "all_workers P num_cpus = masked_workers P (cm_all P) num_cpus"

text \<open>
  Documented behaviour. \<open>mem\<close> is the set of CPUs of a mask, \<open>els\<close> the entries of a queue in the order
  in which they leave: by key, entries with equal keys in insertion order. A queue created for \<open>n\<close>
  CPUs (\<open>cap\<close>) accepts an entry whose mask is a nonempty subset of these CPUs.
\<close>

fun edf_insert :: "edf_key \<times> 'x \<Rightarrow> (edf_key \<times> 'x) list \<Rightarrow> (edf_key \<times> 'x) list" where
  "edf_insert e [] = [e]"
| "edf_insert e (f # fs) =
     (if fst (fst e) < fst (fst f) \<or> fst (fst e) = fst (fst f) \<and> snd (fst e) < snd (fst f)
      then e # f # fs else f # edf_insert e fs)"

fun take_first :: "('x \<Rightarrow> bool) \<Rightarrow> 'x list \<Rightarrow> 'x option \<times> 'x list" where
  "take_first p [] = (None, [])"
| "take_first p (x # xs) =
     (if p x then (Some x, xs) else (let (r, ys) = take_first p xs in (r, x # ys)))"

definition mask_ok :: "('m, 'q) ext_ops \<Rightarrow> ('m \<Rightarrow> nat set) \<Rightarrow> bool" where
  "mask_ok P mem \<longleftrightarrow>
     inj mem \<and> (\<forall>m. finite (mem m)) \<and> mem (cm_empty P) = {} \<and> mem (cm_all P) = {..<NUM_MAX_CPU} \<and>
     (\<forall>m n. mem (cm_masked_below P m n) = mem m \<inter> {..<n}) \<and>
     (\<forall>m c. mem (cm_without P m c) = mem m - {c}) \<and>
     (\<forall>m. cm_is_empty P m \<longleftrightarrow> mem m = {}) \<and>
     (\<forall>m m'. mem (cm_union P m m') = mem m \<union> mem m') \<and>
     (\<forall>m c. cm_contains P m c \<longleftrightarrow> c \<in> mem m) \<and>
     (\<forall>m. cm_iter P m = sorted_list_of_set (mem m))"

definition queue_ok ::
    "('m, 'q) ext_ops \<Rightarrow> ('m \<Rightarrow> nat set) \<Rightarrow> ('q \<Rightarrow> (edf_key \<times> 'm \<times> nat option) list) \<Rightarrow> ('q \<Rightarrow> usize) \<Rightarrow> bool" where
  "queue_ok P mem els cap \<longleftrightarrow>
     (\<forall>n. els (bq_new P n) = [] \<and> cap (bq_new P n) = n) \<and>
     (\<forall>q k m x. mem m \<noteq> {} \<longrightarrow> mem m \<subseteq> {..<cap q} \<longrightarrow>
        (\<exists>q'. bq_push P q k m x = Some q' \<and> els q' = edf_insert (k, m, x) (els q) \<and> cap q' = cap q)) \<and>
     (\<forall>q c. fst (bq_pop_for_cpu P q c) = fst (take_first (\<lambda>e. c \<in> mem (fst (snd e))) (els q))
          \<and> els (snd (bq_pop_for_cpu P q c)) = snd (take_first (\<lambda>e. c \<in> mem (fst (snd e))) (els q))
          \<and> cap (snd (bq_pop_for_cpu P q c)) = cap q) \<and>
     (\<forall>q. mem (bq_affinity_mask P q) = (\<Union>e \<in> set (els q). mem (fst (snd e))))"

definition ext_ok ::
    "('m, 'q) ext_ops \<Rightarrow> ('m \<Rightarrow> nat set) \<Rightarrow> ('q \<Rightarrow> (edf_key \<times> 'm \<times> nat option) list) \<Rightarrow> ('q \<Rightarrow> usize) \<Rightarrow> bool" where
  "ext_ok P mem els cap \<longleftrightarrow> mask_ok P mem \<and> queue_ok P mem els cap"

section \<open>Scheduler types\<close>

datatype 'm scheduler_type =
    ClusteredEDF u64 'm
  | GEDF u64
  | PrioritizedFIFO u8
  | PrioritizedRR u8
  | Panicked_Sched

fun st_equals :: "'m scheduler_type \<Rightarrow> 'm scheduler_type \<Rightarrow> bool" where
  "st_equals (GEDF _) (GEDF _) = True"
| "st_equals (ClusteredEDF _ _) (ClusteredEDF _ _) = True"
| "st_equals (PrioritizedFIFO _) (PrioritizedFIFO _) = True"
| "st_equals (PrioritizedRR _) (PrioritizedRR _) = True"
| "st_equals Panicked_Sched Panicked_Sched = True"
| "st_equals _ _ = False"

fun st_cpu_set :: "'m scheduler_type \<Rightarrow> 'm option" where
  "st_cpu_set (ClusteredEDF _ cpus) = Some cpus"
| "st_cpu_set _ = None"

fun is_clustered :: "'m scheduler_type \<Rightarrow> bool" where
  "is_clustered (ClusteredEDF _ _) = True"
| "is_clustered _ = False"

definition PRIORITY_LIST :: "('m, 'q) ext_ops \<Rightarrow> 'm scheduler_type list" where
  "PRIORITY_LIST P =
     [ClusteredEDF 0 (cm_empty P), GEDF 0, PrioritizedFIFO 0, PrioritizedRR 0, Panicked_Sched]"

fun count_clustered_prefix :: "'m scheduler_type list \<Rightarrow> usize" where
  "count_clustered_prefix [] = 0"
| "count_clustered_prefix (s # ss) = (if is_clustered s then Suc (count_clustered_prefix ss) else 0)"

definition get_num_clustered_schedulers :: "('m, 'q) ext_ops \<Rightarrow> usize" where
  "get_num_clustered_schedulers P = count_clustered_prefix (PRIORITY_LIST P)"

text \<open>The loop of \<open>get_priority\<close> over the index; \<open>n\<close> is the length of the whole list.\<close>

fun find_priority :: "usize \<Rightarrow> usize \<Rightarrow> 'm scheduler_type list \<Rightarrow> 'm scheduler_type \<Rightarrow> u8 rust" where
  "find_priority n index [] sched_type = Inl Explicit_Panic"
| "find_priority n index (s # ss) sched_type =
     (if st_equals s sched_type then Inr (word_of_nat (n - 1 - index)) else find_priority n (index + 1) ss sched_type)"

definition get_priority :: "('m, 'q) ext_ops \<Rightarrow> 'm scheduler_type \<Rightarrow> u8 rust" where
  "get_priority P sched_type = find_priority (length (PRIORITY_LIST P)) 0 (PRIORITY_LIST P) sched_type"

text \<open>The statics \<open>SCHEDULER\<close> that \<open>get_scheduler\<close> selects; their \<open>priority\<close> fields are constants.\<close>

datatype scheduler_ref = S_ClusteredEDF | S_GEDF | S_PrioritizedFIFO | S_PrioritizedRR | S_Panicked

fun get_scheduler :: "'m scheduler_type \<Rightarrow> scheduler_ref" where
  "get_scheduler (PrioritizedFIFO _) = S_PrioritizedFIFO"
| "get_scheduler (PrioritizedRR _) = S_PrioritizedRR"
| "get_scheduler (GEDF _) = S_GEDF"
| "get_scheduler (ClusteredEDF _ _) = S_ClusteredEDF"
| "get_scheduler Panicked_Sched = S_Panicked"

fun scheduler_name :: "('m, 'q) ext_ops \<Rightarrow> scheduler_ref \<Rightarrow> 'm scheduler_type" where
  "scheduler_name P S_ClusteredEDF = ClusteredEDF 0 (cm_empty P)"
| "scheduler_name P S_GEDF = GEDF 0"
| "scheduler_name P S_PrioritizedFIFO = PrioritizedFIFO 0"
| "scheduler_name P S_PrioritizedRR = PrioritizedRR 0"
| "scheduler_name P S_Panicked = Panicked_Sched"

definition sched_priority :: "('m, 'q) ext_ops \<Rightarrow> scheduler_ref \<Rightarrow> u8 rust" where
  "sched_priority P s = get_priority P (scheduler_name P s)"

section \<open>Task priorities\<close>

definition MAX_TASK_PRIORITY :: u64 where
  "MAX_TASK_PRIORITY = push_bit 56 1 - 1"

text \<open>\<open>combine_priority\<close> on 64-bit and on 32-bit targets.\<close>

definition combine_priority :: "u8 \<Rightarrow> u64 \<Rightarrow> u64 rust" where
  "combine_priority scheduler_priority task_priority =
     (if task_priority < push_bit 56 1
      then Inr (push_bit 56 (ucast scheduler_priority) OR (task_priority AND (push_bit 56 1 - 1)))
      else Inl Assertion_Failed)"

definition combine_priority32 :: "u8 \<Rightarrow> u64 \<Rightarrow> u32 rust" where
  "combine_priority32 scheduler_priority task_priority =
     (let task_priority_32 = ucast task_priority :: u32
      in if task_priority_32 < push_bit 24 1
         then Inr (push_bit 24 (ucast scheduler_priority) OR (task_priority_32 AND (push_bit 24 1 - 1)))
         else Inl Assertion_Failed)"

lemma get_priority_simps [simp]:
  "get_priority P (ClusteredEDF d m) = Inr 4"
  "get_priority P (GEDF d) = Inr 3"
  "get_priority P (PrioritizedFIFO p) = Inr 2"
  "get_priority P (PrioritizedRR p) = Inr 1"
  "get_priority P Panicked_Sched = Inr 0"
  by (simp_all add: get_priority_def PRIORITY_LIST_def)

lemma sched_priority_simps [simp]:
  "sched_priority P S_ClusteredEDF = Inr 4"
  "sched_priority P S_GEDF = Inr 3"
  "sched_priority P S_PrioritizedFIFO = Inr 2"
  "sched_priority P S_PrioritizedRR = Inr 1"
  "sched_priority P S_Panicked = Inr 0"
  by (simp_all add: sched_priority_def)

lemma num_clustered_1 [simp]: "get_num_clustered_schedulers P = 1"
  by (simp add: get_num_clustered_schedulers_def PRIORITY_LIST_def)

lemma combine_priority_unat:
  assumes "combine_priority s t = Inr w"
  shows "unat t < 2 ^ 56 \<and> unat w = unat s * 2 ^ 56 + unat t"
proof -
  have t: "t < push_bit 56 1" and w: "w = push_bit 56 (ucast s) OR (t AND (push_bit 56 1 - 1))"
    using assms by (auto simp: combine_priority_def split: if_splits)
  have t56: "unat t < 2 ^ 56" using t by (simp add: word_less_nat_alt)
  have tb: "take_bit 56 t = t"
    using t56 by (simp add: word_unat_eq_iff unsigned_take_bit_eq take_bit_nat_eq_self)
  have mask: "t AND (push_bit 56 1 - 1) = take_bit 56 t"
    by (simp add: take_bit_eq_mask mask_eq_exp_minus_1)
  have "unat s < 2 ^ LENGTH(8)" by (rule unsigned_less)
  then have s: "unat s < 2 ^ 8" by simp
  have "w = push_bit 56 (ucast s) + take_bit 56 t"
    unfolding w mask by (rule disjunctive_add_eq_or [symmetric]) (auto simp: bit_eq_iff bit_simps)
  then have "w = push_bit 56 (ucast s) + t" by (simp add: tb)
  moreover have "unat (push_bit 56 (ucast s :: u64)) = unat s * 2 ^ 56"
    using s by (simp add: push_bit_eq_mult unat_word_ariths unsigned_ucast_eq take_bit_nat_eq_self)
  ultimately show ?thesis using t56 s by (simp add: unat_word_ariths)
qed

lemma combine_priority_some: "t \<le> MAX_TASK_PRIORITY \<Longrightarrow> \<exists>w. combine_priority s t = Inr w"
  by (auto simp: combine_priority_def MAX_TASK_PRIORITY_def word_le_nat_alt word_less_nat_alt)

text \<open>
  The combined priority word orders tasks lexicographically: first by the priority of the
  scheduler, then by the task priority. For the EDF schedulers, which store
  \<open>MAX_TASK_PRIORITY - deadline\<close>, an earlier deadline is a strictly higher priority.
\<close>

theorem combine_priority_lexicographic:
  assumes "combine_priority s t = Inr w" "combine_priority s' t' = Inr w'"
  shows "(w < w' \<longleftrightarrow> s < s' \<or> s = s' \<and> t < t') \<and> (w = w' \<longleftrightarrow> s = s' \<and> t = t')
    \<and> (\<forall>d d'. t = MAX_TASK_PRIORITY - d \<and> t' = MAX_TASK_PRIORITY - d' \<and> d \<le> MAX_TASK_PRIORITY
          \<and> d' \<le> MAX_TASK_PRIORITY \<and> s = s' \<longrightarrow> (w < w' \<longleftrightarrow> d' < d))"
proof -
  have w: "unat t < 2 ^ 56" "unat w = unat s * 2 ^ 56 + unat t"
    "unat t' < 2 ^ 56" "unat w' = unat s' * 2 ^ 56 + unat t'"
    using assms[THEN combine_priority_unat] by auto
  have lt: "w < w' \<longleftrightarrow> s < s' \<or> s = s' \<and> t < t'"
    using digits_less[OF w(1,3)] by (simp add: word_less_nat_alt word_unat_eq_iff[of s] w)
  have eq: "w = w' \<longleftrightarrow> s = s' \<and> t = t'"
    using digits_eq[OF w(1,3)] by (simp add: word_unat_eq_iff[of s] word_unat_eq_iff[of t] word_unat_eq_iff[of w] w)
  have "MAX_TASK_PRIORITY - d < MAX_TASK_PRIORITY - d' \<longleftrightarrow> d' < d"
    if "d \<le> MAX_TASK_PRIORITY" "d' \<le> MAX_TASK_PRIORITY" for d d'
    using that by (auto simp: word_less_nat_alt word_le_nat_alt unat_sub)
  then show ?thesis using lt eq by auto
qed

theorem combine_priority_lexicographic_witness:
  "\<exists>w w'. combine_priority 3 (MAX_TASK_PRIORITY - 20) = Inr w \<and> combine_priority 3 (MAX_TASK_PRIORITY - 10) = Inr w' \<and> w < w'"
proof -
  have le: "MAX_TASK_PRIORITY - d \<le> MAX_TASK_PRIORITY" if "d \<le> MAX_TASK_PRIORITY" for d
    using that by (simp add: word_le_nat_alt unat_sub)
  obtain w w' where w: "combine_priority 3 (MAX_TASK_PRIORITY - 20) = Inr w"
    "combine_priority 3 (MAX_TASK_PRIORITY - 10) = Inr w'"
    using combine_priority_some[OF le, of 20 3] combine_priority_some[OF le, of 10 3]
    by (auto simp: MAX_TASK_PRIORITY_def)
  then show ?thesis using combine_priority_lexicographic[OF w] by (auto simp: MAX_TASK_PRIORITY_def)
qed

text \<open>
  On a 32-bit target the initial priority of every EDF task, \<open>MAX_TASK_PRIORITY\<close>, fails the
  assertion of \<open>combine_priority\<close>: its low 32 bits do not fit into 24 bits.
\<close>

theorem combine_priority32_panics_on_max: "combine_priority32 s MAX_TASK_PRIORITY = Inl Assertion_Failed"
  by (simp add: combine_priority32_def MAX_TASK_PRIORITY_def Let_def)

section \<open>A list implementation of the affinity queue\<close>

text \<open>It shows that the documented behaviour can be met; the examples evaluate on it.\<close>

definition list_ops :: "(nat fset, (edf_key \<times> nat fset \<times> nat option) list \<times> nat) ext_ops" where
  "list_ops = \<lparr>
     cm_empty = {||}, cm_all = fset_of_list [0..<NUM_MAX_CPU],
     cm_masked_below = (\<lambda>m n. ffilter (\<lambda>c. c < n) m),
     cm_without = (\<lambda>m c. m |-| {|c|}),
     cm_is_empty = (\<lambda>m. m = {||}),
     cm_union = (|\<union>|),
     cm_contains = (\<lambda>m c. c |\<in>| m),
     cm_iter = sorted_list_of_fset,
     bq_new = (\<lambda>n. ([], n)),
     bq_push = (\<lambda>q k m x. Some (edf_insert (k, m, x) (fst q), snd q)),
     bq_pop_for_cpu = (\<lambda>q c. let r = take_first (\<lambda>e. c |\<in>| fst (snd e)) (fst q) in (fst r, (snd r, snd q))),
     bq_affinity_mask = (\<lambda>q. ffUnion (fset_of_list (map (fst \<circ> snd) (fst q))))\<rparr>"

lemma list_ops_ok: "ext_ok list_ops fset fst snd"
  unfolding ext_ok_def
proof
  show "mask_ok list_ops fset"
    by (auto simp: mask_ok_def list_ops_def inj_on_def fset_inject fset_of_list.rep_eq
        sorted_list_of_fset.rep_eq)
  show "queue_ok list_ops fset fst snd"
    by (auto simp: queue_ok_def list_ops_def Let_def fset_of_list.rep_eq ffUnion.rep_eq)
qed

section \<open>Worker masks\<close>

lemma mem_masked_workers: "mask_ok P mem \<Longrightarrow> mem (masked_workers P m n) = mem m \<inter> {1..<n}"
  by (auto simp: mask_ok_def masked_workers_def)

lemma mem_all_workers: "mask_ok P mem \<Longrightarrow> mem (all_workers P n) = {1..<min n NUM_MAX_CPU}"
  by (auto simp: all_workers_def mem_masked_workers) (auto simp: mask_ok_def)

lemma masked_workers_fixpoint:
  "mask_ok P mem \<Longrightarrow> masked_workers P m n = m \<longleftrightarrow> mem m \<subseteq> {1..<n}"
  using mem_masked_workers[of P mem m n] inj_eq[of mem "masked_workers P m n" m] by (auto simp: mask_ok_def)

end
