(* ===== verification/Binary_Heap.thy ===== *)
theory Binary_Heap
  imports Aw_Prelude
begin

text \<open>
  Rust's \<open>BinaryHeap\<close>. Its contract is that \<open>peek\<close> and \<open>pop\<close> give a greatest element; the internal
  layout is not part of it. The model keeps the elements in a list in insertion order and takes the
  first greatest one. The order \<open>lt\<close> is the \<open>Ord\<close> implementation of the element type; the locale
  \<open>strict_weak_order\<close> is what \<open>Ord\<close> promises, and it is interpreted for each order the kernel uses.
\<close>

definition bh_greatest :: "('a \<Rightarrow> 'a \<Rightarrow> bool) \<Rightarrow> 'a \<Rightarrow> 'a list \<Rightarrow> 'a" where
  "bh_greatest lt x xs = fold (\<lambda>y m. if lt m y then y else m) xs x"

definition bh_peek :: "('a \<Rightarrow> 'a \<Rightarrow> bool) \<Rightarrow> 'a list \<Rightarrow> 'a option" where
  "bh_peek lt h = (case h of [] \<Rightarrow> None | x # xs \<Rightarrow> Some (bh_greatest lt x xs))"

definition bh_pop :: "('a \<Rightarrow> 'a \<Rightarrow> bool) \<Rightarrow> 'a list \<Rightarrow> 'a option \<times> 'a list" where
  "bh_pop lt h = (case bh_peek lt h of None \<Rightarrow> (None, h) | Some m \<Rightarrow> (Some m, remove1 m h))"

definition bh_push :: "'a list \<Rightarrow> 'a \<Rightarrow> 'a list" where
  "bh_push h x = h @ [x]"

definition bh_retain :: "('a \<Rightarrow> bool) \<Rightarrow> 'a list \<Rightarrow> 'a list" where
  "bh_retain p h = filter p h"

lemma bh_greatest_in: "bh_greatest lt x xs \<in> set (x # xs)"
  unfolding bh_greatest_def
proof (induction xs arbitrary: x)
  case (Cons y ys)
  then show ?case by (cases "lt x y") (fastforce simp: Cons.IH)+
qed simp

lemma bh_peek_None [simp]: "bh_peek lt h = None \<longleftrightarrow> h = []"
  by (auto simp: bh_peek_def split: list.splits)

lemma bh_peek_in: "bh_peek lt h = Some m \<Longrightarrow> m \<in> set h"
  using bh_greatest_in by (fastforce simp: bh_peek_def split: list.splits)

lemma bh_pop_None [simp]: "bh_pop lt h = (None, h') \<longleftrightarrow> h = [] \<and> h' = []"
  by (auto simp: bh_pop_def bh_peek_def split: option.splits list.splits)

lemma bh_pop_Some:
  assumes "bh_pop lt h = (Some m, h')"
  shows "m \<in> set h" "h' = remove1 m h" "mset h = add_mset m (mset h')" "length h' < length h"
proof -
  show m: "m \<in> set h" and h': "h' = remove1 m h"
    using assms bh_peek_in[of lt h m] by (auto simp: bh_pop_def split: option.splits)
  show "mset h = add_mset m (mset h')" using m by (simp add: h')
  show "length h' < length h" using m length_pos_if_in_set[OF m] by (simp add: h' length_remove1)
qed

text \<open>The elements in the order in which repeated \<open>pop\<close> calls return them.\<close>

function bh_drain :: "('a \<Rightarrow> 'a \<Rightarrow> bool) \<Rightarrow> 'a list \<Rightarrow> 'a list" where
  "bh_drain lt h = (case bh_pop lt h of (None, _) \<Rightarrow> [] | (Some m, h') \<Rightarrow> m # bh_drain lt h')"
  by pat_completeness auto
termination
  by (relation "measure (length \<circ> snd)") (auto dest: bh_pop_Some(4)[OF sym])

declare bh_drain.simps [simp del]

lemma bh_drain_Nil [simp]: "bh_drain lt [] = []"
  by (simp add: bh_drain.simps bh_pop_def bh_peek_def)

lemma bh_drain_pop:
  "bh_pop lt h = (Some m, h') \<Longrightarrow> bh_drain lt h = m # bh_drain lt h'"
  by (subst bh_drain.simps) simp

lemma bh_drain_mset: "mset (bh_drain lt h) = mset h"
proof (induction lt h rule: bh_drain.induct)
  case (1 lt h)
  show ?case
  proof (cases "bh_pop lt h")
    case (Pair r h')
    then show ?thesis
      using 1 bh_pop_Some(3)[of lt h _ h'] by (cases r) (auto simp: bh_drain.simps[of lt h])
  qed
qed

locale strict_weak_order =
  fixes lt :: "'a \<Rightarrow> 'a \<Rightarrow> bool"
  assumes irrefl: "\<not> lt x x"
    and trans: "lt x y \<Longrightarrow> lt y z \<Longrightarrow> lt x z"
    and negtrans: "\<not> lt x y \<Longrightarrow> \<not> lt y z \<Longrightarrow> \<not> lt x z"
begin

lemma asym: "lt x y \<Longrightarrow> \<not> lt y x"
  using irrefl trans by blast

lemma greatest: "y \<in> set (x # xs) \<Longrightarrow> \<not> lt (bh_greatest lt x xs) y"
  unfolding bh_greatest_def
proof (induction xs arbitrary: x y)
  case Nil
  then show ?case by (simp add: irrefl)
next
  case (Cons z zs)
  let ?m = "if lt x z then z else x"
  have IH: "\<not> lt (fold (\<lambda>y m. if lt m y then y else m) zs ?m) w" if "w \<in> set (?m # zs)" for w
    using Cons.IH[OF that] .
  have "\<not> lt ?m y" if "y = x \<or> y = z" using that irrefl asym by auto
  then show ?case using Cons.prems IH[of y] IH[of ?m] negtrans[of _ ?m y] by auto
qed

lemma peek_greatest: "bh_peek lt h = Some m \<Longrightarrow> y \<in> set h \<Longrightarrow> \<not> lt m y"
  by (auto simp: bh_peek_def greatest split: list.splits)

lemma pop_greatest: "bh_pop lt h = (Some m, h') \<Longrightarrow> y \<in> set h \<Longrightarrow> \<not> lt m y"
  by (auto simp: bh_pop_def peek_greatest split: option.splits)

lemma drain_sorted: "sorted_wrt (\<lambda>x y. \<not> lt x y) (bh_drain lt h)"
proof (induction "length h" arbitrary: h rule: less_induct)
  case less
  show ?case
  proof (cases "bh_pop lt h")
    case (Pair r h')
    show ?thesis
    proof (cases r)
      case None
      then have "h = []" using Pair by simp
      then show ?thesis by simp
    next
      case (Some m)
      have "set (bh_drain lt h') = set h'" by (metis bh_drain_mset set_mset_mset)
      moreover have "set h' \<subseteq> set h" using bh_pop_Some(2)[of lt h m h'] Pair Some by (simp add: set_remove1_subset)
      ultimately show ?thesis
        using less bh_pop_Some(4)[of lt h m h'] Pair Some pop_greatest[of h m h']
        by (auto simp: bh_drain_pop)
    qed
  qed
qed

end

end
