(* ===== verification/Kernel_State.thy ===== *)
theory Kernel_State
  imports Scheduler_Types Binary_Heap Prio_Queue Dag_Registry
begin

text \<open>
  The state of the asynchronous runtime: tasks, run queues, per-CPU variables and the
  preemption-pending heaps (the statics of \<open>task.rs\<close>, \<open>scheduler.rs\<close>, \<open>scheduler/*.rs\<close>,
  \<open>task/preempt.rs\<close> and \<open>task/preempt/thread.rs\<close>), with the accessors of \<open>task.rs\<close>.

  \<^item> An \<open>Arc<Task>\<close> is an address in \<open>k_heap\<close>. The mutex of a task protects \<open>t_info\<close>; its atomic
    priority word is \<open>t_priority\<close>.
  \<^item> A handler that the code runs under \<open>GLOBAL_WAKE_GET_MUTEX\<close> is one transition on the record
    \<open>kernel\<close>. \<open>k_tasks_locked\<close> is true while \<open>TASKS\<close> is held across a call; taking \<open>TASKS\<close> again on
    the same CPU then spins forever (\<open>Diverges\<close>).
  \<^item> Time is \<open>k_now\<close> in nanoseconds since boot. \<open>k_ipis\<close> and \<open>k_wakes\<close> record the preemption IPIs
    sent and the CPUs woken, latest first.
\<close>

datatype state = Initialized | Running | Runnable | Waiting | Preempted | Terminated | Panicked

record dag_info =
  di_dag_id :: u32
  di_node_id :: u32

record 'm task_info =
  ti_state :: state
  ti_scheduler_type :: "'m scheduler_type"
  ti_num_preempt :: u64
  ti_last_executed_time :: nat
  ti_absolute_deadline :: "u64 option"
  ti_need_sched :: bool
  ti_need_preemption :: bool
  ti_panicked :: bool
  ti_dag_info :: "dag_info option"
  ti_thread :: "nat option"

text \<open>The fused future of a task: whether a CPU holds its lock, and whether it has completed.\<close>

record fut =
  f_locked :: bool
  f_terminated :: bool

record 'm task =
  t_id :: u32
  t_name :: string
  t_future :: fut
  t_info :: "'m task_info"
  t_scheduler :: scheduler_ref
  t_priority :: u64
  t_cpu_set :: "'m option"

record prio_task =
  pt_task :: nat
  pt_priority :: u8

record gedf_task =
  gt_task :: nat
  gt_absolute_deadline :: u64
  gt_wake_time :: u64

record ('m, 'q) kernel =
  k_num_cpu :: usize
  k_preemption_enabled :: bool
  k_now :: nat
  k_heap :: "nat \<Rightarrow> 'm task"
  k_next_ref :: nat
  k_candidate_id :: u32
  k_id_to_task :: "(u32, nat) btree_map"
  k_tasks_locked :: bool
  k_running :: "usize \<Rightarrow> u32"
  k_num_task_in_queue :: u32
  k_num_clustered :: u32
  k_preemption_request :: "usize \<Rightarrow> bool"
  k_pending :: "(usize, nat list) btree_map"
  k_fifo :: "prio_task priority_queue option"
  k_rr :: "prio_task priority_queue option"
  k_gedf :: "gedf_task list option"
  k_cedf :: "'q option"
  k_panicked :: "nat list option"
  k_thread_pool :: "usize \<Rightarrow> nat list"
  k_preempted :: "usize \<Rightarrow> nat list"
  k_next_task :: "usize \<Rightarrow> nat list"
  k_num_preemption :: usize
  k_threads_pooled :: "nat list"
  k_threads_running :: "(usize, nat) btree_map"
  k_dags :: dag_store
  k_ipis :: "usize list"
  k_wakes :: "usize list"

section \<open>Tasks\<close>

abbreviation task_id :: "('m, 'q) kernel \<Rightarrow> nat \<Rightarrow> u32" where
  "task_id K r \<equiv> t_id (k_heap K r)"

abbreviation info :: "('m, 'q) kernel \<Rightarrow> nat \<Rightarrow> 'm task_info" where
  "info K r \<equiv> t_info (k_heap K r)"

definition upd_info :: "nat \<Rightarrow> ('m task_info \<Rightarrow> 'm task_info) \<Rightarrow> ('m, 'q) kernel \<Rightarrow> ('m, 'q) kernel" where
  "upd_info r f K = K\<lparr>k_heap := (k_heap K)(r := (k_heap K r)\<lparr>t_info := f (info K r)\<rparr>)\<rparr>"

definition preempts :: "('m, 'q) kernel \<Rightarrow> nat \<Rightarrow> nat \<Rightarrow> bool" where
  "preempts K r other \<longleftrightarrow> t_priority (k_heap K r) > t_priority (k_heap K other)"

text \<open>\<open>Ord for Task\<close>: the priority word, then the task identifier.\<close>

definition task_lt :: "('m, 'q) kernel \<Rightarrow> nat \<Rightarrow> nat \<Rightarrow> bool" where
  "task_lt K r other \<longleftrightarrow>
     (let p = t_priority (k_heap K r); p' = t_priority (k_heap K other)
      in if p = p' then task_id K r < task_id K other else p < p')"

definition get_scheduler_type :: "'m task_info \<Rightarrow> 'm scheduler_type" where
  "get_scheduler_type i = (if ti_panicked i then Panicked_Sched else ti_scheduler_type i)"

definition take_preempt_context :: "nat \<Rightarrow> ('m, 'q) kernel \<Rightarrow> nat option \<times> ('m, 'q) kernel" where
  "take_preempt_context r K = (ti_thread (info K r), upd_info r (\<lambda>i. i\<lparr>ti_thread := None\<rparr>) K)"

definition set_preempt_context :: "nat \<Rightarrow> nat \<Rightarrow> ('m, 'q) kernel \<Rightarrow> ('m, 'q) kernel rust" where
  "set_preempt_context r ctx K =
     (if ti_thread (info K r) = None then Inr (upd_info r (\<lambda>i. i\<lparr>ti_thread := Some ctx\<rparr>) K)
      else Inl Assertion_Failed)"

definition update_last_executed :: "nat \<Rightarrow> ('m, 'q) kernel \<Rightarrow> ('m, 'q) kernel" where
  "update_last_executed r K = upd_info r (\<lambda>i. i\<lparr>ti_last_executed_time := k_now K\<rparr>) K"

definition update_priority_info :: "nat \<Rightarrow> u8 \<Rightarrow> u64 \<Rightarrow> ('m, 'q) kernel \<Rightarrow> ('m, 'q) kernel rust" where
  "update_priority_info r scheduler_priority task_priority K =
     and_then (combine_priority scheduler_priority task_priority) (\<lambda>p.
       Inr (K\<lparr>k_heap := (k_heap K)(r := (k_heap K r)\<lparr>t_priority := p\<rparr>)\<rparr>))"

section \<open>Per-CPU variables and the task table\<close>

definition uptime :: "('m, 'q) kernel \<Rightarrow> u64" where
  "uptime K = word_of_nat (k_now K div 1000)"

definition get_current_task :: "('m, 'q) kernel \<Rightarrow> usize \<Rightarrow> u32 option" where
  "get_current_task K cpu_id = (let cid = k_running K cpu_id in if cid = 0 then None else Some cid)"

definition set_current_task :: "usize \<Rightarrow> u32 \<Rightarrow> ('m, 'q) kernel \<Rightarrow> ('m, 'q) kernel" where
  "set_current_task cpu_id tid K = K\<lparr>k_running := (k_running K)(cpu_id := tid)\<rparr>"

definition get_tasks_running :: "('m, 'q) kernel \<Rightarrow> (usize \<times> u32) list" where
  "get_tasks_running K = map (\<lambda>cpu_id. (cpu_id, k_running K cpu_id)) [0..<min NUM_MAX_CPU (k_num_cpu K)]"

definition get_task_running :: "('m, 'q) kernel \<Rightarrow> usize \<Rightarrow> usize \<times> u32" where
  "get_task_running K cpu_id = (cpu_id, k_running K cpu_id)"

definition get_task :: "('m, 'q) kernel \<Rightarrow> u32 \<Rightarrow> nat option rust" where
  "get_task K tid = (if k_tasks_locked K then Inl Diverges else Inr (btm_get (k_id_to_task K) tid))"

definition get_tasks :: "('m, 'q) kernel \<Rightarrow> nat list rust" where
  "get_tasks K = (if k_tasks_locked K then Inl Diverges else Inr (map snd (k_id_to_task K)))"

definition get_last_executed_by_task_id :: "('m, 'q) kernel \<Rightarrow> u32 \<Rightarrow> nat option rust" where
  "get_last_executed_by_task_id K tid =
     (if k_tasks_locked K then Inl Diverges
      else Inr (map_option (\<lambda>r. ti_last_executed_time (info K r)) (btm_get (k_id_to_task K) tid)))"

definition get_scheduler_type_by_task_id :: "('m, 'q) kernel \<Rightarrow> u32 \<Rightarrow> 'm scheduler_type option rust" where
  "get_scheduler_type_by_task_id K tid =
     (if k_tasks_locked K then Inl Diverges
      else Inr (map_option (\<lambda>r. get_scheduler_type (info K r)) (btm_get (k_id_to_task K) tid)))"

definition set_need_preemption :: "u32 \<Rightarrow> usize \<Rightarrow> ('m, 'q) kernel \<Rightarrow> ('m, 'q) kernel rust" where
  "set_need_preemption tid cpu_id K =
     (if k_tasks_locked K then Inl Diverges
      else let K = (case btm_get (k_id_to_task K) tid of
                      Some r \<Rightarrow> upd_info r (\<lambda>i. i\<lparr>ti_need_preemption := True\<rparr>) K
                    | None \<Rightarrow> K)
           in Inr (K\<lparr>k_preemption_request := (k_preemption_request K)(cpu_id := True)\<rparr>))"

definition send_ipi :: "usize \<Rightarrow> ('m, 'q) kernel \<Rightarrow> ('m, 'q) kernel" where
  "send_ipi cpu_id K = K\<lparr>k_ipis := cpu_id # k_ipis K\<rparr>"

definition wake_cpu :: "usize \<Rightarrow> ('m, 'q) kernel \<Rightarrow> ('m, 'q) kernel" where
  "wake_cpu cpu_id K = K\<lparr>k_wakes := cpu_id # k_wakes K\<rparr>"

section \<open>Preemption-pending tasks\<close>

definition peek_preemption_pending :: "('m, 'q) kernel \<Rightarrow> usize \<Rightarrow> nat option" where
  "peek_preemption_pending K cpu_id = Option.bind (btm_get (k_pending K) cpu_id) (bh_peek (task_lt K))"

definition remove_preemption_pending :: "usize \<Rightarrow> u32 \<Rightarrow> ('m, 'q) kernel \<Rightarrow> ('m, 'q) kernel" where
  "remove_preemption_pending cpu_id tid K =
     (case btm_get (k_pending K) cpu_id of
        Some heap \<Rightarrow> K\<lparr>k_pending := btm_insert (k_pending K) cpu_id (bh_retain (\<lambda>r. task_id K r \<noteq> tid) heap)\<rparr>
      | None \<Rightarrow> K)"

definition push_preemption_pending :: "usize \<Rightarrow> nat \<Rightarrow> ('m, 'q) kernel \<Rightarrow> ('m, 'q) kernel" where
  "push_preemption_pending cpu_id r K = K\<lparr>k_pending := btm_push (k_pending K) cpu_id r\<rparr>"

definition pop_preemption_pending :: "usize \<Rightarrow> ('m, 'q) kernel \<Rightarrow> nat option \<times> ('m, 'q) kernel" where
  "pop_preemption_pending cpu_id K =
     (case btm_get (k_pending K) cpu_id of
        Some heap \<Rightarrow> let (r, heap') = bh_pop (task_lt K) heap
                     in (r, K\<lparr>k_pending := btm_insert (k_pending K) cpu_id heap'\<rparr>)
      | None \<Rightarrow> (None, K))"

definition move_preemption_pending :: "usize \<Rightarrow> ('m, 'q) kernel \<Rightarrow> nat list option \<times> ('m, 'q) kernel" where
  "move_preemption_pending cpu_id K =
     (btm_get (k_pending K) cpu_id, K\<lparr>k_pending := btm_remove (k_pending K) cpu_id\<rparr>)"

section \<open>The orders of tasks\<close>

interpretation task_order: strict_weak_order "task_lt K" for K :: "('m, 'q) kernel"
  by unfold_locales (auto simp: task_lt_def Let_def split: if_splits)

text \<open>\<open>Ord for GEDFTask\<close>: a later deadline is smaller; on equal deadlines a later wake time is.\<close>

definition gedf_lt :: "gedf_task \<Rightarrow> gedf_task \<Rightarrow> bool" where
  "gedf_lt a b \<longleftrightarrow>
     (if gt_absolute_deadline b = gt_absolute_deadline a then gt_wake_time b < gt_wake_time a
      else gt_absolute_deadline b < gt_absolute_deadline a)"

interpretation gedf_order: strict_weak_order gedf_lt
  by unfold_locales (auto simp: gedf_lt_def split: if_splits)

end
