(* ===== verification/Schedulers.thy ===== *)
theory Schedulers
  imports Kernel_State
begin

text \<open>
  The five schedulers (\<open>scheduler/prioritized_fifo.rs\<close>, \<open>prioritized_rr.rs\<close>, \<open>gedf.rs\<close>,
  \<open>clustered_edf.rs\<close>, \<open>panicked.rs\<close>) and the dispatch over them (\<open>scheduler.rs\<close>). A scheduler is its
  \<open>wake_task\<close> and its \<open>get_next\<close>; \<open>cpu\<close> is the CPU that runs the call (\<open>awkernel_lib::cpu::cpu_id()\<close>).
\<close>

section \<open>Requesting a preemption\<close>

text \<open>\<open>Ord\<close> on the tuples \<open>(Arc<Task>, usize)\<close>, and \<open>Iterator::min\<close> by an order.\<close>

definition target_lt :: "('m, 'q) kernel \<Rightarrow> nat \<times> usize \<Rightarrow> nat \<times> usize \<Rightarrow> bool" where
  "target_lt K a b \<longleftrightarrow>
     (if task_lt K (fst a) (fst b) then True
      else if task_lt K (fst b) (fst a) then False
      else snd a < snd b)"

definition iter_min_by :: "('a \<Rightarrow> 'a \<Rightarrow> bool) \<Rightarrow> 'a list \<Rightarrow> 'a option" where
  "iter_min_by lt xs = (case xs of [] \<Rightarrow> None | y # ys \<Rightarrow> Some (fold (\<lambda>z m. if lt z m then z else m) ys y))"

text \<open>The task that a CPU runs or has pending, whichever is greater, with the CPU.\<close>

definition cpu_target :: "('m, 'q) kernel \<Rightarrow> usize \<times> u32 \<Rightarrow> (nat \<times> usize) option rust" where
  "cpu_target K rt =
     and_then (get_task K (snd rt)) (\<lambda>t. Inr (map_option (\<lambda>t.
       let highest_pending = (case peek_preemption_pending K (fst rt) of Some p \<Rightarrow> p | None \<Rightarrow> t)
       in (if task_lt K highest_pending t then t else highest_pending, fst rt)) t))"

definition request_preemption :: "nat \<Rightarrow> nat \<Rightarrow> usize \<Rightarrow> ('m, 'q) kernel \<Rightarrow> ('m, 'q) kernel rust" where
  "request_preemption r target_task target_cpu K =
     and_then (set_need_preemption (task_id K target_task) target_cpu (push_preemption_pending target_cpu r K)) (\<lambda>K.
       Inr (send_ipi target_cpu K))"

text \<open>
  \<open>invoke_preemption\<close> of the schedulers that are not clustered. The bodies of the three methods are
  the same text.
\<close>

definition global_invoke_preemption :: "nat \<Rightarrow> ('m, 'q) kernel \<Rightarrow> (bool \<times> ('m, 'q) kernel) rust" where
  "global_invoke_preemption r K =
     (if \<not> k_preemption_enabled K then Inr (False, K)
      else let tasks_running = filter (\<lambda>rt. snd rt \<noteq> 0) (get_tasks_running K) in
      if tasks_running = [] \<or> (\<exists>rt \<in> set tasks_running. snd rt = task_id K r) then Inr (False, K)
      else and_then (map_rust (cpu_target K) tasks_running) (\<lambda>targets.
           and_then (unwrap (iter_min_by (target_lt K) (List.map_filter (\<lambda>t. t) targets))) (\<lambda>(target_task, target_cpu).
           if preempts K r target_task
           then and_then (request_preemption r target_task target_cpu K) (\<lambda>K. Inr (True, K))
           else Inr (False, K))))"

definition fifo_invoke_preemption :: "nat \<Rightarrow> ('m, 'q) kernel \<Rightarrow> (bool \<times> ('m, 'q) kernel) rust" where
  "fifo_invoke_preemption r K = global_invoke_preemption r K"

definition rr_invoke_preemption_wake :: "nat \<Rightarrow> ('m, 'q) kernel \<Rightarrow> (bool \<times> ('m, 'q) kernel) rust" where
  "rr_invoke_preemption_wake r K = global_invoke_preemption r K"

definition gedf_invoke_preemption :: "nat \<Rightarrow> ('m, 'q) kernel \<Rightarrow> (bool \<times> ('m, 'q) kernel) rust" where
  "gedf_invoke_preemption r K = global_invoke_preemption r K"

text \<open>
  The loop of the clustered scheduler over the CPUs of the set. The outer option is \<open>None\<close> on the
  early \<open>return false\<close>, the inner one is the \<open>victim\<close>.
\<close>

fun cedf_victim :: "('m, 'q) kernel \<Rightarrow> nat \<Rightarrow> usize list \<Rightarrow> (usize \<times> nat) option \<Rightarrow> (usize \<times> nat) option option rust" where
  "cedf_victim K r [] victim = Inr (Some victim)"
| "cedf_victim K r (cpu_id # cpus) victim =
     (let running_id = snd (get_task_running K cpu_id) in
      if running_id = task_id K r then Inr None
      else if running_id = 0 then Inr None
      else and_then (get_task K running_id) (\<lambda>task_running.
        let task_pending = peek_preemption_pending K cpu_id;
            target = (case (task_running, task_pending) of
                (Some running, Some pending) \<Rightarrow> Some (if task_lt K pending running then running else pending)
              | (Some running, None) \<Rightarrow> Some running
              | (None, Some pending) \<Rightarrow> Some pending
              | (None, None) \<Rightarrow> None)
        in case target of
             None \<Rightarrow> Inr None
           | Some target_task \<Rightarrow>
               cedf_victim K r cpus
                 (case victim of
                    Some (c, lowest) \<Rightarrow>
                      if \<not> task_lt K target_task lowest then victim else Some (cpu_id, target_task)
                  | None \<Rightarrow> Some (cpu_id, target_task))))"

definition cedf_invoke_preemption :: "('m, 'q) ext_ops \<Rightarrow> nat \<Rightarrow> ('m, 'q) kernel \<Rightarrow> (bool \<times> ('m, 'q) kernel) rust" where
  "cedf_invoke_preemption P r K =
     (if \<not> k_preemption_enabled K then Inr (False, K)
      else and_then (unwrap (t_cpu_set (k_heap K r))) (\<lambda>cpu_set.
           and_then (cedf_victim K r (cm_iter P cpu_set) None) (\<lambda>v.
             case v of
               None \<Rightarrow> Inr (False, K)
             | Some None \<Rightarrow> Inr (False, K)
             | Some (Some (victim_cpu, target_task)) \<Rightarrow>
                 if preempts K r target_task
                 then and_then (request_preemption r target_task victim_cpu K) (\<lambda>K. Inr (True, K))
                 else Inr (False, K))))"

section \<open>Enqueuing a woken task\<close>

definition calculate_and_update_dag_deadline ::
    "dag_info \<Rightarrow> u64 \<Rightarrow> state \<Rightarrow> ('m, 'q) kernel \<Rightarrow> (u64 \<times> ('m, 'q) kernel) rust" where
  "calculate_and_update_dag_deadline di wake_time st K =
     (case get_dag (k_dags K) (di_dag_id di) of
        None \<Rightarrow> Inl Explicit_Panic
      | Some r \<Rightarrow>
          let dag = ds_heap (k_dags K) r;
              release = (st \<noteq> Preempted);
              release_deadline =
                (case get_sink_relative_deadline dag of
                   Some deadline \<Rightarrow> Inr (wake_time + word_of_nat (deadline div 1000))
                 | None \<Rightarrow> Inl Explicit_Panic)
          in and_then (get_or_release_absolute_deadline dag (to_node_index (di_node_id di)) release release_deadline)
               (\<lambda>(deadline, dag). Inr (deadline, K\<lparr>k_dags := (k_dags K)\<lparr>ds_heap := (ds_heap (k_dags K))(r := dag)\<rparr>\<rparr>)))"

text \<open>
  The first block of \<open>wake_task\<close> of both EDF schedulers, which runs under the lock of the task: the
  wake time, the absolute deadline, and the task with its priority and deadline updated.
\<close>

definition edf_deadline ::
    "u8 \<Rightarrow> u64 \<Rightarrow> nat \<Rightarrow> ('m, 'q) kernel \<Rightarrow> (u64 \<times> u64 \<times> ('m, 'q) kernel) rust" where
  "edf_deadline sched_prio relative_deadline r K =
     (let wake_time = uptime K in
      and_then (case ti_dag_info (info K r) of
                  Some di \<Rightarrow> calculate_and_update_dag_deadline di wake_time (ti_state (info K r)) K
                | None \<Rightarrow> Inr (wake_time + relative_deadline, K)) (\<lambda>(absolute_deadline, K).
      and_then (update_priority_info r sched_prio (MAX_TASK_PRIORITY - absolute_deadline) K) (\<lambda>K.
      Inr (wake_time, absolute_deadline, upd_info r (\<lambda>i. i\<lparr>ti_absolute_deadline := Some absolute_deadline\<rparr>) K))))"

definition fifo_wake_task :: "nat \<Rightarrow> ('m, 'q) kernel \<Rightarrow> ('m, 'q) kernel rust" where
  "fifo_wake_task r K =
     (case ti_scheduler_type (info K r) of
        PrioritizedFIFO priority \<Rightarrow>
          and_then (fifo_invoke_preemption r K) (\<lambda>(preempted, K).
            if preempted then Inr K
            else let q = (case k_fifo K of Some q \<Rightarrow> q | None \<Rightarrow> pq_new)
                 in and_then (pq_push q priority \<lparr>pt_task = r, pt_priority = priority\<rparr>) (\<lambda>q.
                      Inr (K\<lparr>k_fifo := Some q\<rparr>)))
      | _ \<Rightarrow> Inl Unreachable_Reached)"

definition rr_wake_task :: "nat \<Rightarrow> ('m, 'q) kernel \<Rightarrow> ('m, 'q) kernel rust" where
  "rr_wake_task r K =
     (case ti_scheduler_type (info K r) of
        PrioritizedRR priority \<Rightarrow>
          and_then (rr_invoke_preemption_wake r K) (\<lambda>(preempted, K).
            if preempted then Inr K
            else let q = (case k_rr K of Some q \<Rightarrow> q | None \<Rightarrow> pq_new)
                 in and_then (pq_push q priority \<lparr>pt_task = r, pt_priority = priority\<rparr>) (\<lambda>q.
                      Inr (K\<lparr>k_rr := Some q\<rparr>)))
      | _ \<Rightarrow> Inl Unreachable_Reached)"

definition gedf_wake_task :: "('m, 'q) ext_ops \<Rightarrow> nat \<Rightarrow> ('m, 'q) kernel \<Rightarrow> ('m, 'q) kernel rust" where
  "gedf_wake_task P r K =
     (case ti_scheduler_type (info K r) of
        GEDF relative_deadline \<Rightarrow>
          and_then (sched_priority P S_GEDF) (\<lambda>sched_prio.
          and_then (edf_deadline sched_prio relative_deadline r K) (\<lambda>(wake_time, absolute_deadline, K).
          and_then (gedf_invoke_preemption r K) (\<lambda>(preempted, K).
            if preempted then Inr K
            else let h = (case k_gedf K of Some h \<Rightarrow> h | None \<Rightarrow> [])
                 in Inr (K\<lparr>k_gedf := Some (bh_push h
                      \<lparr>gt_task = r, gt_absolute_deadline = absolute_deadline, gt_wake_time = wake_time\<rparr>)\<rparr>))))
      | _ \<Rightarrow> Inl Unreachable_Reached)"

text \<open>\<open>ClusteredTask::new\<close> counts the entry; \<open>take\<close> counts it out.\<close>

definition clustered_new :: "nat \<Rightarrow> ('m, 'q) kernel \<Rightarrow> nat option \<times> ('m, 'q) kernel" where
  "clustered_new r K = (Some r, K\<lparr>k_num_clustered := k_num_clustered K + 1\<rparr>)"

definition clustered_take :: "nat option \<Rightarrow> ('m, 'q) kernel \<Rightarrow> nat option \<times> ('m, 'q) kernel" where
  "clustered_take entry K =
     (case entry of
        Some r \<Rightarrow> (Some r, K\<lparr>k_num_clustered := k_num_clustered K - 1\<rparr>)
      | None \<Rightarrow> (None, K))"

definition cedf_wake_task :: "('m, 'q) ext_ops \<Rightarrow> nat \<Rightarrow> ('m, 'q) kernel \<Rightarrow> ('m, 'q) kernel rust" where
  "cedf_wake_task P r K =
     (case ti_scheduler_type (info K r) of
        ClusteredEDF relative_deadline _ \<Rightarrow>
          and_then (sched_priority P S_ClusteredEDF) (\<lambda>sched_prio.
          and_then (edf_deadline sched_prio relative_deadline r K) (\<lambda>(wake_time, absolute_deadline, K).
          and_then (unwrap (t_cpu_set (k_heap K r))) (\<lambda>cpu_set.
          if cm_is_empty P cpu_set \<or> masked_workers P cpu_set (k_num_cpu K) \<noteq> cpu_set
          then Inl Unreachable_Reached
          else and_then (cedf_invoke_preemption P r K) (\<lambda>(preempted, K).
            if preempted then Inr K
            else let q = (case k_cedf K of Some q \<Rightarrow> q | None \<Rightarrow> bq_new P (k_num_cpu K));
                     (entry, K) = clustered_new r K
                 in and_then (unwrap (bq_push P q (absolute_deadline, wake_time) cpu_set entry)) (\<lambda>q.
                      Inr (K\<lparr>k_cedf := Some q\<rparr>))))))
      | _ \<Rightarrow> Inl Unreachable_Reached)"

definition panicked_wake_task :: "nat \<Rightarrow> ('m, 'q) kernel \<Rightarrow> ('m, 'q) kernel rust" where
  "panicked_wake_task r K =
     Inr (K\<lparr>k_panicked := Some ((case k_panicked K of Some q \<Rightarrow> q | None \<Rightarrow> []) @ [r])\<rparr>)"

fun sched_wake_task :: "('m, 'q) ext_ops \<Rightarrow> scheduler_ref \<Rightarrow> nat \<Rightarrow> ('m, 'q) kernel \<Rightarrow> ('m, 'q) kernel rust" where
  "sched_wake_task P S_ClusteredEDF r K = cedf_wake_task P r K"
| "sched_wake_task P S_GEDF r K = gedf_wake_task P r K"
| "sched_wake_task P S_PrioritizedFIFO r K = fifo_wake_task r K"
| "sched_wake_task P S_PrioritizedRR r K = rr_wake_task r K"
| "sched_wake_task P S_Panicked r K = panicked_wake_task r K"

section \<open>Taking the next task\<close>

text \<open>
  The block that every \<open>get_next\<close> runs under the lock of a popped task: \<open>None\<close> is its \<open>continue\<close>.
\<close>

definition claim_task :: "usize \<Rightarrow> bool \<Rightarrow> nat \<Rightarrow> ('m, 'q) kernel \<Rightarrow> ('m, 'q) kernel option" where
  "claim_task cpu execution_ensured r K =
     (if ti_state (info K r) = Terminated \<or> ti_state (info K r) = Panicked then None
      else let K = (if ti_state (info K r) = Preempted
                    then upd_info r (\<lambda>i. i\<lparr>ti_need_preemption := False\<rparr>) K else K)
           in Some (if execution_ensured
                    then set_current_task cpu (task_id K r) (upd_info r (\<lambda>i. i\<lparr>ti_state := Running\<rparr>) K)
                    else K))"

definition pq_size :: "'a priority_queue \<Rightarrow> nat" where
  "pq_size q = sum_list (map length (pq_queue q))"

lemma pq_pop_size:
  assumes "pq_pop q = Inr (Some x, q')"
  shows "pq_size q' < pq_size q"
proof -
  obtain p rest where p: "p < length (pq_queue q)" "pq_queue q ! p = x # rest" "pq_queue q' = (pq_queue q)[p := rest]"
    using assms
    by (auto simp: pq_pop_def Let_def vec_get_def and_then_def split: if_splits list.splits)
  have "sum_list (map length ((pq_queue q)[p := rest])) < sum_list (map length (pq_queue q))"
    using p(1,2)
  proof (induction "pq_queue q" arbitrary: p q)
    case (Cons a as)
    show ?case
    proof (cases p)
      case 0
      then show ?thesis using Cons.prems by (simp flip: Cons.hyps(2))
    next
      case (Suc n)
      have "as = pq_queue (q\<lparr>pq_queue := as\<rparr>)" by simp
      from Cons.hyps(1)[OF this, of n] Suc Cons.prems show ?thesis by (simp flip: Cons.hyps(2))
    qed
  qed simp
  then show ?thesis using p(3) by (simp add: pq_size_def)
qed

function prio_get_next_loop :: "usize \<Rightarrow> bool \<Rightarrow> prio_task priority_queue \<Rightarrow> ('m, 'q) kernel \<Rightarrow>
    (nat option \<times> prio_task priority_queue \<times> ('m, 'q) kernel) rust" where
  "prio_get_next_loop cpu execution_ensured q K =
     (case pq_pop q of
        Inl e \<Rightarrow> Inl e
      | Inr (None, q) \<Rightarrow> Inr (None, q, K)
      | Inr (Some task, q) \<Rightarrow>
          (case claim_task cpu execution_ensured (pt_task task) K of
             None \<Rightarrow> prio_get_next_loop cpu execution_ensured q K
           | Some K \<Rightarrow> Inr (Some (pt_task task), q, K)))"
  by pat_completeness auto
termination
  by (relation "measure (\<lambda>(_, _, q, _). pq_size q)") (auto dest: pq_pop_size)

declare prio_get_next_loop.simps [simp del]

definition fifo_get_next :: "usize \<Rightarrow> bool \<Rightarrow> ('m, 'q) kernel \<Rightarrow> (nat option \<times> ('m, 'q) kernel) rust" where
  "fifo_get_next cpu execution_ensured K =
     (case k_fifo K of
        None \<Rightarrow> Inr (None, K)
      | Some q \<Rightarrow> and_then (prio_get_next_loop cpu execution_ensured q K) (\<lambda>(r, q, K). Inr (r, K\<lparr>k_fifo := Some q\<rparr>)))"

definition rr_get_next :: "usize \<Rightarrow> bool \<Rightarrow> ('m, 'q) kernel \<Rightarrow> (nat option \<times> ('m, 'q) kernel) rust" where
  "rr_get_next cpu execution_ensured K =
     (case k_rr K of
        None \<Rightarrow> Inr (None, K)
      | Some q \<Rightarrow> and_then (prio_get_next_loop cpu execution_ensured q K) (\<lambda>(r, q, K). Inr (r, K\<lparr>k_rr := Some q\<rparr>)))"

function gedf_get_next_loop :: "usize \<Rightarrow> bool \<Rightarrow> gedf_task list \<Rightarrow> ('m, 'q) kernel \<Rightarrow>
    nat option \<times> gedf_task list \<times> ('m, 'q) kernel" where
  "gedf_get_next_loop cpu execution_ensured h K =
     (case bh_pop gedf_lt h of
        (None, h) \<Rightarrow> (None, h, K)
      | (Some task, h) \<Rightarrow>
          (case claim_task cpu execution_ensured (gt_task task) K of
             None \<Rightarrow> gedf_get_next_loop cpu execution_ensured h K
           | Some K \<Rightarrow> (Some (gt_task task), h, K)))"
  by pat_completeness auto
termination
  by (relation "measure (\<lambda>(_, _, h, _). length h)") (auto dest: bh_pop_Some(4)[OF sym])

declare gedf_get_next_loop.simps [simp del]

definition gedf_get_next :: "usize \<Rightarrow> bool \<Rightarrow> ('m, 'q) kernel \<Rightarrow> (nat option \<times> ('m, 'q) kernel) rust" where
  "gedf_get_next cpu execution_ensured K =
     (case k_gedf K of
        None \<Rightarrow> Inr (None, K)
      | Some h \<Rightarrow> let (r, h, K) = gedf_get_next_loop cpu execution_ensured h K in Inr (r, K\<lparr>k_gedf := Some h\<rparr>))"

partial_function (option) cedf_get_next_loop :: "('m, 'q) ext_ops \<Rightarrow> usize \<Rightarrow> bool \<Rightarrow> 'q \<Rightarrow> ('m, 'q) kernel \<Rightarrow>
    (nat option \<times> 'q \<times> ('m, 'q) kernel) option" where
  "cedf_get_next_loop P cpu execution_ensured q K =
     (let p = bq_pop_for_cpu P q cpu in
      case fst p of
        None \<Rightarrow> Some (None, snd p, K)
      | Some e \<Rightarrow>
          (let t = clustered_take (snd (snd e)) K in
           case fst t of
             None \<Rightarrow> cedf_get_next_loop P cpu execution_ensured (snd p) (snd t)
           | Some task \<Rightarrow>
               (case claim_task cpu execution_ensured task (snd t) of
                  None \<Rightarrow> cedf_get_next_loop P cpu execution_ensured (snd p) (snd t)
                | Some K' \<Rightarrow> Some (Some task, snd p, K'))))"

definition cedf_get_next :: "('m, 'q) ext_ops \<Rightarrow> usize \<Rightarrow> bool \<Rightarrow> ('m, 'q) kernel \<Rightarrow> (nat option \<times> ('m, 'q) kernel) rust" where
  "cedf_get_next P cpu execution_ensured K =
     (case k_cedf K of
        None \<Rightarrow> Inr (None, K)
      | Some q \<Rightarrow> and_then (returns (cedf_get_next_loop P cpu execution_ensured q K)) (\<lambda>(r, q, K). Inr (r, K\<lparr>k_cedf := Some q\<rparr>)))"

fun panicked_get_next_loop :: "usize \<Rightarrow> bool \<Rightarrow> nat list \<Rightarrow> ('m, 'q) kernel \<Rightarrow> nat option \<times> nat list \<times> ('m, 'q) kernel" where
  "panicked_get_next_loop cpu execution_ensured [] K = (None, [], K)"
| "panicked_get_next_loop cpu execution_ensured (task # q) K =
     (case claim_task cpu execution_ensured task K of
        None \<Rightarrow> panicked_get_next_loop cpu execution_ensured q K
      | Some K \<Rightarrow> (Some task, q, K))"

definition panicked_get_next :: "usize \<Rightarrow> bool \<Rightarrow> ('m, 'q) kernel \<Rightarrow> (nat option \<times> ('m, 'q) kernel) rust" where
  "panicked_get_next cpu execution_ensured K =
     (case k_panicked K of
        None \<Rightarrow> Inr (None, K)
      | Some q \<Rightarrow> let (r, q, K) = panicked_get_next_loop cpu execution_ensured q K in Inr (r, K\<lparr>k_panicked := Some q\<rparr>))"

fun sched_get_next :: "('m, 'q) ext_ops \<Rightarrow> scheduler_ref \<Rightarrow> usize \<Rightarrow> bool \<Rightarrow> ('m, 'q) kernel \<Rightarrow> (nat option \<times> ('m, 'q) kernel) rust" where
  "sched_get_next P S_ClusteredEDF cpu ens K = cedf_get_next P cpu ens K"
| "sched_get_next P S_GEDF cpu ens K = gedf_get_next cpu ens K"
| "sched_get_next P S_PrioritizedFIFO cpu ens K = fifo_get_next cpu ens K"
| "sched_get_next P S_PrioritizedRR cpu ens K = rr_get_next cpu ens K"
| "sched_get_next P S_Panicked cpu ens K = panicked_get_next cpu ens K"

fun queued_cpu_mask :: "('m, 'q) ext_ops \<Rightarrow> scheduler_ref \<Rightarrow> ('m, 'q) kernel \<Rightarrow> 'm" where
  "queued_cpu_mask P S_ClusteredEDF K = (case k_cedf K of Some q \<Rightarrow> bq_affinity_mask P q | None \<Rightarrow> cm_empty P)"
| "queued_cpu_mask P _ K = cm_empty P"

definition clustered_queued_cpu_mask :: "('m, 'q) ext_ops \<Rightarrow> ('m, 'q) kernel \<Rightarrow> 'm" where
  "clustered_queued_cpu_mask P K =
     foldl (\<lambda>mask scheduler_type. cm_union P mask (queued_cpu_mask P (get_scheduler scheduler_type) K))
       (cm_empty P) (take (get_num_clustered_schedulers P) (PRIORITY_LIST P))"

text \<open>\<open>find_map\<close> over the schedulers: the first one that gives a task.\<close>

fun find_next :: "('m, 'q) ext_ops \<Rightarrow> 'm scheduler_type list \<Rightarrow> usize \<Rightarrow> bool \<Rightarrow> ('m, 'q) kernel \<Rightarrow>
    (nat option \<times> ('m, 'q) kernel) rust" where
  "find_next P [] cpu ens K = Inr (None, K)"
| "find_next P (s # ss) cpu ens K =
     and_then (sched_get_next P (get_scheduler s) cpu ens K) (\<lambda>(r, K).
       case r of Some t \<Rightarrow> Inr (Some t, K) | None \<Rightarrow> find_next P ss cpu ens K)"

definition get_next_task :: "('m, 'q) ext_ops \<Rightarrow> usize \<Rightarrow> bool \<Rightarrow> ('m, 'q) kernel \<Rightarrow> (nat option \<times> ('m, 'q) kernel) rust" where
  "get_next_task P cpu execution_ensured K =
     and_then (if k_num_clustered K > 0
               then find_next P (take (get_num_clustered_schedulers P) (PRIORITY_LIST P)) cpu execution_ensured K
               else Inr (None, K)) (\<lambda>(task, K).
     case task of
       Some t \<Rightarrow> Inr (Some t, K)
     | None \<Rightarrow>
         and_then (find_next P (drop (get_num_clustered_schedulers P) (PRIORITY_LIST P)) cpu execution_ensured K) (\<lambda>(task, K).
         case task of
           Some t \<Rightarrow> Inr (Some t, K\<lparr>k_num_task_in_queue := k_num_task_in_queue K - 1\<rparr>)
         | None \<Rightarrow> Inr (None, K)))"

end
