(* ===== verification/Task_Ops.thy ===== *)
theory Task_Ops
  imports Schedulers
begin

text \<open>
  Spawning and waking tasks (\<open>awkernel_async_lib/src/task.rs\<close>), the round-robin time quantum
  (\<open>scheduler/prioritized_rr.rs\<close>) and waking the worker CPUs.
\<close>

section \<open>Waking\<close>

definition is_none :: "'a option \<Rightarrow> bool" where
  "is_none x = (case x of None \<Rightarrow> True | Some _ \<Rightarrow> False)"

text \<open>\<open>ArcWake::wake\<close>\<close>

definition task_wake :: "('m, 'q) ext_ops \<Rightarrow> nat \<Rightarrow> ('m, 'q) kernel \<Rightarrow> ('m, 'q) kernel rust" where
  "task_wake P r K =
     (case ti_state (info K r) of
        Running \<Rightarrow> Inr (upd_info r (\<lambda>i. i\<lparr>ti_need_sched := True\<rparr>) K)
      | Runnable \<Rightarrow> Inr (upd_info r (\<lambda>i. i\<lparr>ti_need_sched := True\<rparr>) K)
      | Preempted \<Rightarrow> Inr (upd_info r (\<lambda>i. i\<lparr>ti_need_sched := True\<rparr>) K)
      | Terminated \<Rightarrow> Inr K
      | Panicked \<Rightarrow> Inr K
      | _ \<Rightarrow>
          let K = upd_info r (\<lambda>i. i\<lparr>ti_state := Runnable\<rparr>) K;
              panicked = ti_panicked (info K r);
              K = (if panicked \<or> is_none (t_cpu_set (k_heap K r))
                   then K\<lparr>k_num_task_in_queue := k_num_task_in_queue K + 1\<rparr> else K)
          in and_then (if panicked then panicked_wake_task r K
                       else sched_wake_task P (t_scheduler (k_heap K r)) r K) (\<lambda>K.
               Inr (wake_cpu 0 K)))"

text \<open>\<open>Tasks::wake\<close> and the function \<open>wake\<close>, which holds \<open>TASKS\<close> for the whole call.\<close>

definition tasks_wake :: "('m, 'q) ext_ops \<Rightarrow> u32 \<Rightarrow> ('m, 'q) kernel \<Rightarrow> ('m, 'q) kernel rust" where
  "tasks_wake P tid K =
     (case btm_get (k_id_to_task K) tid of Some r \<Rightarrow> task_wake P r K | None \<Rightarrow> Inr K)"

definition wake :: "('m, 'q) ext_ops \<Rightarrow> u32 \<Rightarrow> ('m, 'q) kernel \<Rightarrow> ('m, 'q) kernel rust" where
  "wake P tid K =
     (if k_tasks_locked K then Inl Diverges
      else and_then (tasks_wake P tid (K\<lparr>k_tasks_locked := True\<rparr>)) (\<lambda>K. Inr (K\<lparr>k_tasks_locked := False\<rparr>)))"

section \<open>Spawning\<close>

text \<open>The normalized scheduler type and the CPU set of a new task.\<close>

definition normalize_cpu_set :: "('m, 'q) ext_ops \<Rightarrow> usize \<Rightarrow> 'm scheduler_type \<Rightarrow> 'm scheduler_type \<times> 'm option" where
  "normalize_cpu_set P num_cpu st =
     (case st of
        ClusteredEDF deadline cpus \<Rightarrow>
          let masked = masked_workers P cpus num_cpu;
              normalized = (if cm_is_empty P masked then all_workers P num_cpu else masked)
          in (ClusteredEDF deadline normalized, Some normalized)
      | _ \<Rightarrow> (st, None))"

definition initial_task_priority :: "'m scheduler_type \<Rightarrow> u64" where
  "initial_task_priority st =
     (case st of
        PrioritizedFIFO priority \<Rightarrow> ucast priority
      | PrioritizedRR priority \<Rightarrow> ucast priority
      | _ \<Rightarrow> MAX_TASK_PRIORITY)"

definition tasks_spawn ::
    "('m, 'q) ext_ops \<Rightarrow> string \<Rightarrow> scheduler_ref \<Rightarrow> 'm scheduler_type \<Rightarrow> dag_info option \<Rightarrow> ('m, 'q) kernel \<Rightarrow>
     (u32 \<times> ('m, 'q) kernel) rust" where
  "tasks_spawn P name sched st di K =
     and_then (returns (find_task_id (btm_contains_key (k_id_to_task K)) (k_candidate_id K))) (\<lambda>cid.
     let (st, cpu_set) = normalize_cpu_set P (k_num_cpu K) st;
         i = \<lparr>ti_state = Initialized, ti_scheduler_type = st, ti_num_preempt = 0,
              ti_last_executed_time = k_now K, ti_absolute_deadline = None, ti_need_sched = False,
              ti_need_preemption = False, ti_panicked = False, ti_dag_info = di, ti_thread = None\<rparr>
     in
     and_then (sched_priority P sched) (\<lambda>sp.
     and_then (combine_priority sp (initial_task_priority st)) (\<lambda>p.
     let task = \<lparr>t_id = cid, t_name = name, t_future = \<lparr>f_locked = False, f_terminated = False\<rparr>,
                 t_info = i, t_scheduler = sched, t_priority = p, t_cpu_set = cpu_set\<rparr>;
         r = k_next_ref K
     in Inr (cid, K\<lparr>k_heap := (k_heap K)(r := task), k_next_ref := Suc r, k_candidate_id := cid,
                   k_id_to_task := btm_insert (k_id_to_task K) cid r\<rparr>))))"

definition tasks_remove :: "u32 \<Rightarrow> ('m, 'q) kernel \<Rightarrow> ('m, 'q) kernel" where
  "tasks_remove tid K = K\<lparr>k_id_to_task := btm_remove (k_id_to_task K) tid\<rparr>"

definition inner_spawn ::
    "('m, 'q) ext_ops \<Rightarrow> string \<Rightarrow> 'm scheduler_type \<Rightarrow> dag_info option \<Rightarrow> ('m, 'q) kernel \<Rightarrow> (u32 \<times> ('m, 'q) kernel) rust" where
  "inner_spawn P name sched_type di K =
     (if k_tasks_locked K then Inl Diverges
      else and_then (tasks_spawn P name (get_scheduler sched_type) sched_type di K) (\<lambda>(tid, K).
           case btm_get (k_id_to_task K) tid of
             Some r \<Rightarrow> and_then (task_wake P r K) (\<lambda>K. Inr (tid, K))
           | None \<Rightarrow> Inr (tid, K)))"

definition spawn :: "('m, 'q) ext_ops \<Rightarrow> string \<Rightarrow> 'm scheduler_type \<Rightarrow> ('m, 'q) kernel \<Rightarrow> (u32 \<times> ('m, 'q) kernel) rust" where
  "spawn P name sched_type K = inner_spawn P name sched_type None K"

definition spawn_with_dag_info ::
    "('m, 'q) ext_ops \<Rightarrow> string \<Rightarrow> 'm scheduler_type \<Rightarrow> dag_info \<Rightarrow> ('m, 'q) kernel \<Rightarrow> (u32 \<times> ('m, 'q) kernel) rust" where
  "spawn_with_dag_info P name sched_type di K = inner_spawn P name sched_type (Some di) K"

section \<open>The round-robin time quantum\<close>

text \<open>The quantum in microseconds. \<open>cpu\<close> is the primary CPU, which runs the tick.\<close>

definition rr_interval :: u64 where
  "rr_interval = 4000"

definition invoke_preemption_tick :: "('m, 'q) ext_ops \<Rightarrow> usize \<Rightarrow> usize \<Rightarrow> u32 \<Rightarrow> ('m, 'q) kernel \<Rightarrow> ('m, 'q) kernel rust" where
  "invoke_preemption_tick P cpu cpu_id tid K =
     and_then (get_last_executed_by_task_id K tid) (\<lambda>last_executed.
     case last_executed of
       None \<Rightarrow> Inr K
     | Some t \<Rightarrow>
         let elapsed = word_of_nat ((k_now K - t) div 1000) :: u64 in
         if elapsed > rr_interval
         then and_then (get_next_task P cpu False K) (\<lambda>(next_task, K).
              case next_task of
                Some r \<Rightarrow>
                  and_then (set_need_preemption tid cpu_id (push_preemption_pending cpu_id r K)) (\<lambda>K. Inr (send_ipi cpu_id K))
              | None \<Rightarrow> Inr K)
         else Inr K)"

text \<open>The loop over the worker CPUs at the start of \<open>scheduler::wake_task\<close>.\<close>

fun tick_cpus :: "('m, 'q) ext_ops \<Rightarrow> usize \<Rightarrow> usize list \<Rightarrow> ('m, 'q) kernel \<Rightarrow> ('m, 'q) kernel rust" where
  "tick_cpus P cpu [] K = Inr K"
| "tick_cpus P cpu (cpu_id # cpus) K =
     and_then (case get_current_task K cpu_id of
                 None \<Rightarrow> Inr K
               | Some tid \<Rightarrow>
                   and_then (get_scheduler_type_by_task_id K tid) (\<lambda>st.
                   case st of
                     Some (PrioritizedRR _) \<Rightarrow> invoke_preemption_tick P cpu cpu_id tid K
                   | _ \<Rightarrow> Inr K)) (\<lambda>K. tick_cpus P cpu cpus K)"

definition check_time_quanta :: "('m, 'q) ext_ops \<Rightarrow> usize \<Rightarrow> ('m, 'q) kernel \<Rightarrow> ('m, 'q) kernel rust" where
  "check_time_quanta P cpu K =
     (if k_preemption_enabled K then tick_cpus P cpu [1..<k_num_cpu K] K else Inr K)"

section \<open>Waking the workers\<close>

text \<open>\<open>asleep i\<close> is the result of \<open>wake_cpu(i)\<close>: whether the CPU was asleep.\<close>

fun wake_workers_loop :: "('m, 'q) ext_ops \<Rightarrow> (usize \<Rightarrow> bool) \<Rightarrow> 'm \<Rightarrow> u32 \<Rightarrow> usize list \<Rightarrow> ('m, 'q) kernel \<Rightarrow> ('m, 'q) kernel" where
  "wake_workers_loop P asleep clustered_mask num_tasks [] K = K"
| "wake_workers_loop P asleep clustered_mask num_tasks (i # is) K =
     (if cm_contains P clustered_mask i
      then wake_workers_loop P asleep clustered_mask num_tasks is (wake_cpu i K)
      else if num_tasks = 0 then wake_workers_loop P asleep clustered_mask num_tasks is K
      else wake_workers_loop P asleep clustered_mask (if asleep i then num_tasks - 1 else num_tasks) is (wake_cpu i K))"

definition wake_workers :: "('m, 'q) ext_ops \<Rightarrow> (usize \<Rightarrow> bool) \<Rightarrow> ('m, 'q) kernel \<Rightarrow> ('m, 'q) kernel" where
  "wake_workers P asleep K =
     wake_workers_loop P asleep (clustered_queued_cpu_mask P K) (k_num_task_in_queue K) [1..<k_num_cpu K] K"

end
