(* ===== verification/Executor.thy ===== *)
theory Executor
  imports Task_Ops
begin

text \<open>
  Preemption (\<open>task/preempt.rs\<close>, \<open>task/preempt/thread.rs\<close>) and the worker loop (\<open>run_main\<close> of
  \<open>task.rs\<close>). A context switch leaves the function in the middle; an operation that may switch
  therefore ends either by returning or by switching to a worker thread context (an address), and
  \<open>resume_context\<close> is what the code runs on the other side. One round of \<open>run_main\<close> is
  \<open>exec_dispatch\<close>, up to the poll of the future, and \<open>exec_complete\<close>, after it.
\<close>

section \<open>Worker threads\<close>

definition take_current_context :: "usize \<Rightarrow> ('m, 'q) kernel \<Rightarrow> (nat \<times> ('m, 'q) kernel) rust" where
  "take_current_context cpu K =
     and_then (unwrap (btm_get (k_threads_running K) cpu)) (\<lambda>ctx.
       Inr (ctx, K\<lparr>k_threads_running := btm_remove (k_threads_running K) cpu\<rparr>))"

definition set_current_context :: "usize \<Rightarrow> nat \<Rightarrow> ('m, 'q) kernel \<Rightarrow> ('m, 'q) kernel rust" where
  "set_current_context cpu ctx K =
     (if btm_get (k_threads_running K) cpu = None
      then Inr (K\<lparr>k_threads_running := btm_insert (k_threads_running K) cpu ctx\<rparr>)
      else Inl Assertion_Failed)"

definition take_pooled_thread :: "('m, 'q) kernel \<Rightarrow> nat option \<times> ('m, 'q) kernel" where
  "take_pooled_thread K =
     (case k_threads_pooled K of
        [] \<Rightarrow> (None, K)
      | t # ts \<Rightarrow> (Some t, K\<lparr>k_threads_pooled := ts\<rparr>))"

definition make_thread_pooled :: "nat \<Rightarrow> ('m, 'q) kernel \<Rightarrow> ('m, 'q) kernel" where
  "make_thread_pooled ctx K = K\<lparr>k_threads_pooled := ctx # k_threads_pooled K\<rparr>"

definition deallocate_thread_pool :: "('m, 'q) kernel \<Rightarrow> ('m, 'q) kernel" where
  "deallocate_thread_pool K = K\<lparr>k_threads_pooled := []\<rparr>"

definition push_to_thread_pool :: "usize \<Rightarrow> nat \<Rightarrow> ('m, 'q) kernel \<Rightarrow> ('m, 'q) kernel" where
  "push_to_thread_pool cpu ctx K = K\<lparr>k_thread_pool := (k_thread_pool K)(cpu := k_thread_pool K cpu @ [ctx])\<rparr>"

section \<open>Preemption\<close>

text \<open>The two loops of \<open>re_schedule\<close>, each on the deque that it empties.\<close>

fun re_wake :: "('m, 'q) ext_ops \<Rightarrow> nat list \<Rightarrow> ('m, 'q) kernel \<Rightarrow> ('m, 'q) kernel rust" where
  "re_wake P [] K = Inr K"
| "re_wake P (r # rs) K = and_then (sched_wake_task P (t_scheduler (k_heap K r)) r K) (re_wake P rs)"

definition re_schedule :: "('m, 'q) ext_ops \<Rightarrow> usize \<Rightarrow> ('m, 'q) kernel \<Rightarrow> ('m, 'q) kernel rust" where
  "re_schedule P cpu K =
     and_then (re_wake P (k_preempted K cpu) (K\<lparr>k_preempted := (k_preempted K)(cpu := [])\<rparr>)) (\<lambda>K.
       Inr (fold make_thread_pooled (k_thread_pool K cpu) (K\<lparr>k_thread_pool := (k_thread_pool K)(cpu := [])\<rparr>)))"

text \<open>What the code runs after \<open>context_switch\<close> returns, and at the start of \<open>thread_entry\<close>.\<close>

definition resume_context :: "('m, 'q) ext_ops \<Rightarrow> usize \<Rightarrow> nat \<Rightarrow> ('m, 'q) kernel \<Rightarrow> ('m, 'q) kernel rust" where
  "resume_context P cpu ctx K = and_then (set_current_context cpu ctx K) (re_schedule P cpu)"

datatype outcome = Returned | Switch_To nat

definition yield_and_pool :: "usize \<Rightarrow> nat \<Rightarrow> ('m, 'q) kernel \<Rightarrow> (outcome \<times> ('m, 'q) kernel) rust" where
  "yield_and_pool cpu next_ctx K =
     and_then (take_current_context cpu K) (\<lambda>(current_ctx, K).
       Inr (Switch_To next_ctx, push_to_thread_pool cpu current_ctx K))"

definition yield_preempted_and_wake_task ::
    "usize \<Rightarrow> nat \<Rightarrow> nat \<Rightarrow> ('m, 'q) kernel \<Rightarrow> (outcome \<times> ('m, 'q) kernel) rust" where
  "yield_preempted_and_wake_task cpu current_task next_thread K =
     and_then (take_current_context cpu K) (\<lambda>(current_ctx, K).
     and_then (set_preempt_context current_task current_ctx K) (\<lambda>K.
     let K = upd_info current_task (\<lambda>i. i\<lparr>ti_state := Preempted, ti_num_preempt := ti_num_preempt i + 1\<rparr>) K;
         K = K\<lparr>k_preempted := (k_preempted K)(cpu := current_task # k_preempted K cpu),
               k_num_preemption := k_num_preemption K + 1\<rparr>
     in Inr (Switch_To next_thread, K)))"

text \<open>Re-waking the rest of a moved heap, the greatest task first.\<close>

function re_wake_heap :: "('m, 'q) ext_ops \<Rightarrow> nat list \<Rightarrow> ('m, 'q) kernel \<Rightarrow> ('m, 'q) kernel rust" where
  "re_wake_heap P h K =
     (case bh_pop (task_lt K) h of
        (None, _) \<Rightarrow> Inr K
      | (Some p, h) \<Rightarrow>
          (case sched_wake_task P (t_scheduler (k_heap K p)) p K of
             Inl e \<Rightarrow> Inl e
           | Inr K \<Rightarrow> re_wake_heap P h K))"
  by pat_completeness auto
termination
  by (relation "measure (\<lambda>(_, h, _). length h)") (auto dest: bh_pop_Some(4)[OF sym])

declare re_wake_heap.simps [simp del]

text \<open>
  The second half of \<open>do_preemption\<close>: the context of \<open>next\<close>, or a thread that will run it.
  \<open>new_thread\<close> is the result of \<open>create_thread\<close>.
\<close>

definition switch_to_next ::
    "('m, 'q) ext_ops \<Rightarrow> nat option \<Rightarrow> usize \<Rightarrow> nat \<Rightarrow> nat \<Rightarrow> ('m, 'q) kernel \<Rightarrow> (outcome \<times> ('m, 'q) kernel) rust" where
  "switch_to_next P new_thread cpu current_task next K =
     (let (ctx, K) = take_preempt_context next K in
      case ctx of
        Some next_thread \<Rightarrow> yield_preempted_and_wake_task cpu current_task next_thread K
      | None \<Rightarrow>
          let (t, K) = take_pooled_thread K in
          (case (case t of Some t \<Rightarrow> Some t | None \<Rightarrow> new_thread) of
             Some next_thread \<Rightarrow>
               yield_preempted_and_wake_task cpu current_task next_thread
                 (K\<lparr>k_next_task := (k_next_task K)(cpu := k_next_task K cpu @ [next])\<rparr>)
           | None \<Rightarrow>
               and_then (sched_wake_task P (t_scheduler (k_heap K next)) next K) (\<lambda>K. Inr (Returned, K))))"

definition do_preemption ::
    "('m, 'q) ext_ops \<Rightarrow> nat option \<Rightarrow> usize \<Rightarrow> ('m, 'q) kernel \<Rightarrow> (outcome \<times> ('m, 'q) kernel) rust" where
  "do_preemption P new_thread cpu K =
     (case peek_preemption_pending K cpu of
        None \<Rightarrow> Inr (Returned, K)
      | Some next \<Rightarrow>
          (case get_current_task K cpu of
             None \<Rightarrow>
               and_then (sched_wake_task P (t_scheduler (k_heap K next)) next
                           (remove_preemption_pending cpu (task_id K next) K)) (\<lambda>K. Inr (Returned, K))
           | Some current_task_id \<Rightarrow>
               and_then (get_task K current_task_id) (\<lambda>ct.
               and_then (unwrap ct) (\<lambda>current_task.
               let quantum_rotation =
                     (\<not> preempts K current_task next \<and> t_scheduler (k_heap K current_task) = S_PrioritizedRR)
               in if \<not> preempts K next current_task \<and> \<not> quantum_rotation
                  then and_then (sched_wake_task P (t_scheduler (k_heap K next)) next
                           (remove_preemption_pending cpu (task_id K next) K)) (\<lambda>K. Inr (Returned, K))
                  else
                    let (moved, K) = move_preemption_pending cpu K in
                    and_then (unwrap moved) (\<lambda>moved.
                    let (nx, moved) = bh_pop (task_lt K) moved in
                    and_then (unwrap nx) (\<lambda>next.
                    let K = set_current_task cpu (task_id K next) K in
                    and_then (re_wake_heap P moved K) (\<lambda>K.
                    and_then (get_task K current_task_id) (\<lambda>ct.
                    and_then (unwrap ct) (\<lambda>current_task.
                    switch_to_next P new_thread cpu current_task next K)))))))))"

definition preemption :: "('m, 'q) ext_ops \<Rightarrow> nat option \<Rightarrow> usize \<Rightarrow> ('m, 'q) kernel \<Rightarrow> (outcome \<times> ('m, 'q) kernel) rust" where
  "preemption P new_thread cpu K =
     do_preemption P new_thread cpu (K\<lparr>k_preemption_request := (k_preemption_request K)(cpu := False)\<rparr>)"

definition voluntary_preemption :: "('m, 'q) ext_ops \<Rightarrow> nat option \<Rightarrow> usize \<Rightarrow> ('m, 'q) kernel \<Rightarrow> (outcome \<times> ('m, 'q) kernel) rust" where
  "voluntary_preemption P new_thread cpu K =
     (if k_running K cpu = 0 then Inr (Returned, K)
      else if \<not> k_preemption_request K cpu then Inr (Returned, K)
      else preemption P new_thread cpu K)"

definition preempt_get_next_task :: "usize \<Rightarrow> ('m, 'q) kernel \<Rightarrow> nat option \<times> ('m, 'q) kernel" where
  "preempt_get_next_task cpu K =
     (case k_next_task K cpu of
        [] \<Rightarrow> (None, K)
      | r # rs \<Rightarrow> (Some r, K\<lparr>k_next_task := (k_next_task K)(cpu := rs)\<rparr>))"

definition panicking :: "('m, 'q) ext_ops \<Rightarrow> nat option \<Rightarrow> usize \<Rightarrow> ('m, 'q) kernel \<Rightarrow> (outcome \<times> ('m, 'q) kernel) rust" where
  "panicking P new_thread cpu K =
     (case get_current_task K cpu of
        None \<Rightarrow> Inr (Returned, K)
      | Some tid \<Rightarrow>
          and_then (get_task K tid) (\<lambda>t.
          case t of
            None \<Rightarrow> Inr (Returned, K)
          | Some r \<Rightarrow>
              let K = upd_info r (\<lambda>i. i\<lparr>ti_scheduler_type := Panicked_Sched, ti_panicked := True\<rparr>) K
              in if k_preemption_enabled K then preemption P new_thread cpu K else Inr (Returned, K)))"

section \<open>The worker loop\<close>

definition task_get_next_task :: "('m, 'q) ext_ops \<Rightarrow> usize \<Rightarrow> bool \<Rightarrow> ('m, 'q) kernel \<Rightarrow> (nat option \<times> ('m, 'q) kernel) rust" where
  "task_get_next_task P cpu execution_ensured K =
     (case (if k_preemption_enabled K then preempt_get_next_task cpu K else (None, K)) of
        (Some next, K) \<Rightarrow>
          Inr (Some next, if execution_ensured then set_current_task cpu (task_id K next) K else K)
      | (None, K) \<Rightarrow> get_next_task P cpu execution_ensured K)"

text \<open>Re-waking the preemption-pending tasks of an idle CPU. The loop pops until its heap is empty.\<close>

partial_function (option) re_wake_pending :: "('m, 'q) ext_ops \<Rightarrow> usize \<Rightarrow> ('m, 'q) kernel \<Rightarrow> ('m, 'q) kernel rust option" where
  "re_wake_pending P cpu K =
     (let p = pop_preemption_pending cpu K in
      case fst p of
        None \<Rightarrow> Some (Inr (snd p))
      | Some r \<Rightarrow>
          (case sched_wake_task P (t_scheduler (k_heap (snd p) r)) r (snd p) of
             Inl e \<Rightarrow> Some (Inl e)
           | Inr K' \<Rightarrow> re_wake_pending P cpu K'))"

datatype dispatch = Idle | Continue | Poll nat | Yield nat

definition exec_dispatch :: "('m, 'q) ext_ops \<Rightarrow> usize \<Rightarrow> ('m, 'q) kernel \<Rightarrow> (dispatch \<times> ('m, 'q) kernel) rust" where
  "exec_dispatch P cpu K =
     and_then (if k_preemption_enabled K \<and> k_running K cpu = 0
               then and_then (returns (re_wake_pending P cpu K)) (\<lambda>r. r) else Inr K) (\<lambda>K.
     and_then (task_get_next_task P cpu True K) (\<lambda>(task, K).
     case task of
       None \<Rightarrow> Inr (Idle, K)
     | Some r \<Rightarrow>
         let K = K\<lparr>k_preemption_request := (k_preemption_request K)(cpu := False)\<rparr>;
             (ctx, K) = (if k_preemption_enabled K then take_preempt_context r K else (None, K))
         in case ctx of
              Some ctx \<Rightarrow>
                and_then (yield_and_pool cpu ctx (update_last_executed r K)) (\<lambda>(_, K). Inr (Yield ctx, K))
            | None \<Rightarrow>
                if f_locked (t_future (k_heap K r))
                then and_then (task_wake P r (set_current_task cpu 0 K)) (\<lambda>K. Inr (Continue, K))
                else if f_terminated (t_future (k_heap K r)) then Inr (Continue, set_current_task cpu 0 K)
                else if ti_state (info K r) = Terminated \<or> ti_state (info K r) = Panicked
                then Inr (Continue, set_current_task cpu 0 K)
                else
                  let K = set_current_task cpu (task_id K r) (update_last_executed r K);
                      t = k_heap K r
                  in Inr (Poll r, K\<lparr>k_heap := (k_heap K)(r := t\<lparr>t_future := (t_future t)\<lparr>f_locked := True\<rparr>\<rparr>)\<rparr>)))"

datatype poll_result = Poll_Pending | Poll_Ready "(unit, string) result" | Poll_Panicked

definition exec_complete :: "('m, 'q) ext_ops \<Rightarrow> usize \<Rightarrow> nat \<Rightarrow> poll_result \<Rightarrow> ('m, 'q) kernel \<Rightarrow> ('m, 'q) kernel rust" where
  "exec_complete P cpu r res K =
     (let t = k_heap K r;
          ready = (case res of Poll_Ready _ \<Rightarrow> True | _ \<Rightarrow> False);
          K = K\<lparr>k_heap := (k_heap K)(r := t\<lparr>t_future := \<lparr>f_locked = False, f_terminated = ready \<or> f_terminated (t_future t)\<rparr>\<rparr>)\<rparr>;
          running_id = k_running K cpu;
          K = set_current_task cpu 0 K
      in if running_id \<noteq> task_id K r then Inl Assertion_Failed
         else case res of
           Poll_Pending \<Rightarrow>
             let need_sched = ti_need_sched (info K r);
                 K = upd_info r (\<lambda>i. i\<lparr>ti_state := Waiting\<rparr>) K
             in if need_sched
                then task_wake P r (upd_info r (\<lambda>i. i\<lparr>ti_need_sched := False\<rparr>) K)
                else Inr K
         | Poll_Ready _ \<Rightarrow> Inr (tasks_remove (task_id K r) (upd_info r (\<lambda>i. i\<lparr>ti_state := Terminated\<rparr>) K))
         | Poll_Panicked \<Rightarrow> Inr (tasks_remove (task_id K r) (upd_info r (\<lambda>i. i\<lparr>ti_state := Panicked\<rparr>) K)))"

end
