(* ===== verification/Queue_Laws.thy ===== *)
theory Queue_Laws
  imports Task_Ops
begin

text \<open>
  Laws of the run queues: which tasks are queued, and that waking a task and taking the next task
  neither lose nor duplicate one. \<open>queued els K\<close> is the multiset of the task addresses in the five
  run queues and in the preemption-pending heaps; \<open>els\<close> is the content of the affinity queue.
\<close>

section \<open>The multiset of queued tasks\<close>

definition pq_elems :: "'a priority_queue \<Rightarrow> 'a multiset" where
  "pq_elems q = mset (concat (pq_queue q))"

lemma mset_concat_update:
  assumes "i < length xss"
  shows "mset (concat (xss[i := ys])) + mset (xss ! i) = mset (concat xss) + mset ys"
  using assms
proof (induction xss arbitrary: i)
  case (Cons xs xss)
  then show ?case by (cases i) (auto simp: algebra_simps)
qed simp

lemma pq_push_elems:
  assumes "pq_push q p x = Inr q'"
  shows "pq_elems q' = add_mset x (pq_elems q)"
proof -
  let ?i = "unat (min p HIGHEST_PRIORITY)"
  have "?i < length (pq_queue q)" "pq_queue q' = (pq_queue q)[?i := pq_queue q ! ?i @ [x]]"
    using assms by (auto simp: pq_push_def Let_def vec_get_def split: if_splits)
  then show ?thesis
    using mset_concat_update[of ?i "pq_queue q" "pq_queue q ! ?i @ [x]"] by (simp add: pq_elems_def)
qed

lemma pq_pop_elems:
  assumes "pq_pop q = Inr (Some x, q')"
  shows "pq_elems q = add_mset x (pq_elems q')"
proof -
  obtain p rest where p: "p < length (pq_queue q)" "pq_queue q ! p = x # rest" "pq_queue q' = (pq_queue q)[p := rest]"
    using assms by (auto simp: pq_pop_def Let_def vec_get_def and_then_def split: if_splits list.splits)
  then show ?thesis using mset_concat_update[OF p(1), of rest] by (simp add: pq_elems_def)
qed

lemma pq_new_elems [simp]: "pq_elems pq_new = {#}"
  by (simp add: pq_elems_def pq_new_def)

definition prio_queued :: "prio_task priority_queue option \<Rightarrow> nat multiset" where
  "prio_queued oq = (case oq of None \<Rightarrow> {#} | Some q \<Rightarrow> image_mset pt_task (pq_elems q))"

definition gedf_queued :: "gedf_task list option \<Rightarrow> nat multiset" where
  "gedf_queued oh = (case oh of None \<Rightarrow> {#} | Some h \<Rightarrow> image_mset gt_task (mset h))"

definition cedf_queued :: "('q \<Rightarrow> (edf_key \<times> 'm \<times> nat option) list) \<Rightarrow> 'q option \<Rightarrow> nat multiset" where
  "cedf_queued els oq =
     (case oq of None \<Rightarrow> {#} | Some q \<Rightarrow> mset (List.map_filter (\<lambda>e. snd (snd e)) (els q)))"

definition panicked_queued :: "nat list option \<Rightarrow> nat multiset" where
  "panicked_queued oq = (case oq of None \<Rightarrow> {#} | Some q \<Rightarrow> mset q)"

definition pending_queued :: "(usize, nat list) btree_map \<Rightarrow> nat multiset" where
  "pending_queued m = mset (concat (map snd m))"

definition queued :: "('q \<Rightarrow> (edf_key \<times> 'm \<times> nat option) list) \<Rightarrow> ('m, 'q) kernel \<Rightarrow> nat multiset" where
  "queued els K =
     prio_queued (k_fifo K) + prio_queued (k_rr K) + gedf_queued (k_gedf K) + cedf_queued els (k_cedf K)
     + panicked_queued (k_panicked K) + pending_queued (k_pending K)"

lemmas queued_defs = queued_def prio_queued_def gedf_queued_def cedf_queued_def panicked_queued_def

text \<open>
  The tables are sorted, \<open>TASKS\<close> is free, the affinity queue was created for the CPUs of the machine
  and holds tasks only, and \<open>NUM_CLUSTERED_TASKS_IN_QUEUE\<close> counts them (modulo the width of the counter).
\<close>

definition kernel_ok ::
    "('q \<Rightarrow> (edf_key \<times> 'm \<times> nat option) list) \<Rightarrow> ('q \<Rightarrow> usize) \<Rightarrow> ('m, 'q) kernel \<Rightarrow> bool" where
  "kernel_ok els cap K \<longleftrightarrow>
     btm_inv (k_pending K) \<and> btm_inv (k_id_to_task K) \<and> \<not> k_tasks_locked K \<and>
     (\<forall>q. k_fifo K = Some q \<longrightarrow> pq_inv q) \<and> (\<forall>q. k_rr K = Some q \<longrightarrow> pq_inv q) \<and>
     (\<forall>q. k_cedf K = Some q \<longrightarrow> cap q = k_num_cpu K \<and> (\<forall>e \<in> set (els q). snd (snd e) \<noteq> None)) \<and>
     k_num_clustered K = word_of_nat (size (cedf_queued els (k_cedf K)))"

section \<open>Pending heaps\<close>

lemma pending_Nil [simp]: "pending_queued [] = {#}"
  by (simp add: pending_queued_def)

lemma pending_Cons [simp]: "pending_queued (p # m) = mset (snd p) + pending_queued m"
  by (simp add: pending_queued_def)

lemma get_vec_Nil [simp]: "btm_get_vec [] c = []"
  by (simp add: btm_get_vec_def btm_get_def)

lemma get_vec_Cons [simp]: "btm_get_vec (p # m) c = (if fst p = c then snd p else btm_get_vec m c)"
  by (cases p) (simp add: btm_get_vec_def btm_get_def)

lemma get_vec_absent: "c \<notin> fst ` set m \<Longrightarrow> btm_get_vec m c = []"
  by (induction m) auto

lemma btm_inv_Cons: "btm_inv (p # m) \<longleftrightarrow> (\<forall>k \<in> fst ` set m. fst p < k) \<and> btm_inv m"
  by (simp add: btm_inv_def)

lemma pending_insert:
  "btm_inv m \<Longrightarrow> pending_queued (btm_insert m c h) + mset (btm_get_vec m c) = pending_queued m + mset h"
proof (induction m c h rule: btm_insert.induct)
  case (2 k' v' m k v)
  have m: "btm_inv m" "\<And>x. x \<in> fst ` set m \<Longrightarrow> k' < x" using "2.prems" by (auto simp: btm_inv_Cons)
  consider "k < k'" | "k = k'" | "k' < k" by fastforce
  then show ?case
  proof cases
    case 1
    then have "k \<notin> fst ` set m" using m(2) by fastforce
    then show ?thesis using 1 by (simp add: get_vec_absent)
  next
    case 2
    then show ?thesis by simp
  next
    case 3
    then show ?thesis using "2.IH" m(1) by (auto simp: ac_simps)
  qed
qed simp

lemma pending_push: "btm_inv m \<Longrightarrow> pending_queued (btm_push m c r) = add_mset r (pending_queued m)"
  using pending_insert[of m c "btm_get_vec m c @ [r]"] by (simp add: btm_push_def flip: btm_get_vec_def)

lemma pending_remove:
  "btm_inv m \<Longrightarrow> pending_queued m = pending_queued (btm_remove m c) + mset (btm_get_vec m c)"
proof (induction m)
  case (Cons p m)
  then have m: "btm_inv m" "\<And>x. x \<in> fst ` set m \<Longrightarrow> fst p < x" by (auto simp: btm_inv_Cons)
  show ?case
  proof (cases "fst p = c")
    case True
    then have c: "c \<notin> fst ` set m" using m(2) by fastforce
    then have "btm_remove m c = m" by (force simp: btm_remove_def btm_retain_def filter_id_conv)
    then show ?thesis using True c by (simp add: btm_remove_def btm_retain_def)
  next
    case False
    then show ?thesis using Cons.IH[OF m(1)] by (simp add: btm_remove_def btm_retain_def)
  qed
qed (simp add: btm_remove_def btm_retain_def)

section \<open>Requesting a preemption\<close>

lemma request_preemption_result:
  assumes "request_preemption r t c K = Inr K'" "kernel_ok els cap K"
  shows "kernel_ok els cap K' \<and> queued els K' = add_mset r (queued els K) \<and> k_running K' = k_running K
    \<and> k_pending K' = btm_push (k_pending K) c r \<and> k_preemption_request K' c \<and> hd (k_ipis K') = c
    \<and> k_id_to_task K' = k_id_to_task K \<and> k_num_cpu K' = k_num_cpu K
    \<and> (\<forall>x. t_priority (k_heap K' x) = t_priority (k_heap K x) \<and> task_id K' x = task_id K x
          \<and> t_scheduler (k_heap K' x) = t_scheduler (k_heap K x) \<and> t_cpu_set (k_heap K' x) = t_cpu_set (k_heap K x))"
  using assms
  by (auto simp: request_preemption_def set_need_preemption_def push_preemption_pending_def send_ipi_def
      upd_info_def Let_def kernel_ok_def queued_def btm_push_inv pending_push split: option.splits)

lemma global_invoke_cases:
  assumes "global_invoke_preemption r K = Inr (b, K')"
  obtains (no) "\<not> b" "K' = K"
  | (yes) targets t c where "b"
    "map_rust (cpu_target K) (filter (\<lambda>rt. snd rt \<noteq> 0) (get_tasks_running K)) = Inr targets"
    "iter_min_by (target_lt K) (List.map_filter (\<lambda>t. t) targets) = Some (t, c)"
    "preempts K r t" "request_preemption r t c K = Inr K'"
  using assms
  by (auto simp: global_invoke_preemption_def Let_def and_then_Inr_iff split: if_splits)

lemma cedf_invoke_cases:
  assumes "cedf_invoke_preemption P r K = Inr (b, K')"
  obtains (no) "\<not> b" "K' = K"
  | (yes) m c t where "b" "t_cpu_set (k_heap K r) = Some m"
    "cedf_victim K r (cm_iter P m) None = Inr (Some (Some (c, t)))"
    "preempts K r t" "request_preemption r t c K = Inr K'"
proof (cases "k_preemption_enabled K")
  case False
  then show ?thesis using assms no by (auto simp: cedf_invoke_preemption_def)
next
  case True
  then obtain m v where m: "t_cpu_set (k_heap K r) = Some m" "cedf_victim K r (cm_iter P m) None = Inr v"
    using assms by (auto simp: cedf_invoke_preemption_def and_then_Inr_iff)
  show ?thesis
  proof (cases "\<exists>c t. v = Some (Some (c, t))")
    case vic: True
    then show ?thesis using True assms m no yes
      by (auto simp: cedf_invoke_preemption_def and_then_Inr_iff split: if_splits)
  next
    case False
    then have "v = None \<or> v = Some None" by (cases v; cases "the v") auto
    then show ?thesis using True assms m no by (auto simp: cedf_invoke_preemption_def)
  qed
qed

lemma global_invoke_False: "global_invoke_preemption r K = Inr (False, K') \<Longrightarrow> K' = K"
  by (erule global_invoke_cases) simp_all

lemma cedf_invoke_False: "cedf_invoke_preemption P r K = Inr (False, K') \<Longrightarrow> K' = K"
  by (erule cedf_invoke_cases) simp_all

lemma invoke_conserves:
  assumes "global_invoke_preemption r K = Inr (b, K') \<or> cedf_invoke_preemption P r K = Inr (b, K')" "kernel_ok els cap K"
  shows "kernel_ok els cap K' \<and> queued els K' = (if b then add_mset r (queued els K) else queued els K)
    \<and> k_num_cpu K' = k_num_cpu K \<and> (\<not> b \<longrightarrow> K' = K)"
proof -
  have "\<not> b \<and> K' = K \<or> b \<and> (\<exists>t c. request_preemption r t c K = Inr K')"
    using assms(1) by (elim disjE) (auto elim!: global_invoke_cases cedf_invoke_cases)
  then show ?thesis using request_preemption_result[OF _ assms(2)] assms(2) by (elim disjE) (auto 0 3)
qed

section \<open>Waking conserves the queued tasks\<close>

lemma prio_push_conserves:
  assumes "pq_push (case oq of Some q \<Rightarrow> q | None \<Rightarrow> pq_new) p \<lparr>pt_task = r, pt_priority = p\<rparr> = Inr q'"
  shows "prio_queued (Some q') = add_mset r (prio_queued oq)"
  using pq_push_elems[OF assms] by (auto simp: prio_queued_def split: option.splits)

lemma prio_push_inv:
  assumes "pq_push (case oq of Some q \<Rightarrow> q | None \<Rightarrow> pq_new) p x = Inr q'" "\<And>q. oq = Some q \<Longrightarrow> pq_inv q"
  shows "pq_inv q'"
proof -
  have "pq_inv (case oq of Some q \<Rightarrow> q | None \<Rightarrow> pq_new)"
    using assms(2) by (auto simp: pq_inv_new split: option.splits)
  then show ?thesis using pq_push_refines[of _ p x] assms(1) by (metis Inr_inject)
qed

lemma fifo_wake_cases:
  assumes "fifo_wake_task r K = Inr K'"
  obtains (preempt) "global_invoke_preemption r K = Inr (True, K')"
  | (push) p q where "ti_scheduler_type (info K r) = PrioritizedFIFO p"
    "global_invoke_preemption r K = Inr (False, K)"
    "pq_push (case k_fifo K of Some q \<Rightarrow> q | None \<Rightarrow> pq_new) p \<lparr>pt_task = r, pt_priority = p\<rparr> = Inr q"
    "K' = K\<lparr>k_fifo := Some q\<rparr>"
proof -
  obtain p b K1 where *: "ti_scheduler_type (info K r) = PrioritizedFIFO p" "global_invoke_preemption r K = Inr (b, K1)"
    "if b then K' = K1 else \<exists>q. pq_push (case k_fifo K1 of Some q \<Rightarrow> q | None \<Rightarrow> pq_new) p
        \<lparr>pt_task = r, pt_priority = p\<rparr> = Inr q \<and> K' = K1\<lparr>k_fifo := Some q\<rparr>"
    using assms
    by (cases "ti_scheduler_type (info K r)")
      (auto simp: fifo_wake_task_def fifo_invoke_preemption_def and_then_Inr_iff Let_def split: if_splits)
  show ?thesis
  proof (cases b)
    case True
    then show ?thesis using * preempt by simp
  next
    case False
    then have "K1 = K" using *(2) global_invoke_False[of r K K1] by simp
    then show ?thesis using * False push by auto
  qed
qed

lemma rr_wake_cases:
  assumes "rr_wake_task r K = Inr K'"
  obtains (preempt) "global_invoke_preemption r K = Inr (True, K')"
  | (push) p q where "ti_scheduler_type (info K r) = PrioritizedRR p"
    "global_invoke_preemption r K = Inr (False, K)"
    "pq_push (case k_rr K of Some q \<Rightarrow> q | None \<Rightarrow> pq_new) p \<lparr>pt_task = r, pt_priority = p\<rparr> = Inr q"
    "K' = K\<lparr>k_rr := Some q\<rparr>"
proof -
  obtain p b K1 where *: "ti_scheduler_type (info K r) = PrioritizedRR p" "global_invoke_preemption r K = Inr (b, K1)"
    "if b then K' = K1 else \<exists>q. pq_push (case k_rr K1 of Some q \<Rightarrow> q | None \<Rightarrow> pq_new) p
        \<lparr>pt_task = r, pt_priority = p\<rparr> = Inr q \<and> K' = K1\<lparr>k_rr := Some q\<rparr>"
    using assms
    by (cases "ti_scheduler_type (info K r)")
      (auto simp: rr_wake_task_def rr_invoke_preemption_wake_def and_then_Inr_iff Let_def split: if_splits)
  show ?thesis
  proof (cases b)
    case True
    then show ?thesis using * preempt by simp
  next
    case False
    then have "K1 = K" using *(2) global_invoke_False[of r K K1] by simp
    then show ?thesis using * False push by auto
  qed
qed

lemma fifo_wake_conserves:
  assumes "fifo_wake_task r K = Inr K'" "kernel_ok els cap K"
  shows "kernel_ok els cap K' \<and> queued els K' = add_mset r (queued els K)"
  using assms(1)
proof (cases rule: fifo_wake_cases)
  case preempt
  then show ?thesis using invoke_conserves[OF disjI1[OF preempt] assms(2)] by simp
next
  case (push p q)
  have "pq_inv q" using prio_push_inv[OF push(3)] assms(2) by (auto simp: kernel_ok_def)
  then show ?thesis using prio_push_conserves[OF push(3)] assms(2) by (simp add: push(4) queued_def kernel_ok_def)
qed

lemma rr_wake_conserves:
  assumes "rr_wake_task r K = Inr K'" "kernel_ok els cap K"
  shows "kernel_ok els cap K' \<and> queued els K' = add_mset r (queued els K)"
  using assms(1)
proof (cases rule: rr_wake_cases)
  case preempt
  then show ?thesis using invoke_conserves[OF disjI1[OF preempt] assms(2)] by simp
next
  case (push p q)
  have "pq_inv q" using prio_push_inv[OF push(3)] assms(2) by (auto simp: kernel_ok_def)
  then show ?thesis using prio_push_conserves[OF push(3)] assms(2) by (simp add: push(4) queued_def kernel_ok_def)
qed

text \<open>Computing the deadline touches the task and its DAG only.\<close>

lemma dag_deadline_frame:
  assumes "calculate_and_update_dag_deadline di w st K = Inr (d, K')"
  shows "K' = K\<lparr>k_dags := k_dags K'\<rparr>"
  using assms by (auto simp: calculate_and_update_dag_deadline_def Let_def and_then_Inr_iff split: option.splits)

lemma edf_deadline_result:
  assumes "edf_deadline sp rd r K = Inr (w, d, K')"
  shows "K' = K\<lparr>k_dags := k_dags K', k_heap := (k_heap K)(r := k_heap K' r)\<rparr>" "w = uptime K"
    "combine_priority sp (MAX_TASK_PRIORITY - d) = Inr (t_priority (k_heap K' r))"
    "info K' r = (info K r)\<lparr>ti_absolute_deadline := Some d\<rparr>"
    "t_cpu_set (k_heap K' r) = t_cpu_set (k_heap K r)" "task_id K' r = task_id K r"
    "t_scheduler (k_heap K' r) = t_scheduler (k_heap K r)"
    "ti_dag_info (info K r) = None \<Longrightarrow> d = uptime K + rd"
    "t_future (k_heap K' r) = t_future (k_heap K r)"
proof -
  obtain K1 p where K1: "case ti_dag_info (info K r) of
        Some di \<Rightarrow> calculate_and_update_dag_deadline di (uptime K) (ti_state (info K r)) K = Inr (d, K1)
      | None \<Rightarrow> d = uptime K + rd \<and> K1 = K"
    and w: "w = uptime K" and p: "combine_priority sp (MAX_TASK_PRIORITY - d) = Inr p"
    and K': "K' = upd_info r (\<lambda>i. i\<lparr>ti_absolute_deadline := Some d\<rparr>)
        (K1\<lparr>k_heap := (k_heap K1)(r := (k_heap K1 r)\<lparr>t_priority := p\<rparr>)\<rparr>)"
    using assms
    by (cases "ti_dag_info (info K r)")
      (auto simp: edf_deadline_def Let_def and_then_Inr_iff update_priority_info_def)
  have "K1 = K\<lparr>k_dags := k_dags K1\<rparr>"
    using K1 by (auto dest: dag_deadline_frame split: option.splits)
  then obtain D where D: "K1 = K\<lparr>k_dags := D\<rparr>" by blast
  show "K' = K\<lparr>k_dags := k_dags K', k_heap := (k_heap K)(r := k_heap K' r)\<rparr>" "w = uptime K"
    "combine_priority sp (MAX_TASK_PRIORITY - d) = Inr (t_priority (k_heap K' r))"
    "info K' r = (info K r)\<lparr>ti_absolute_deadline := Some d\<rparr>"
    "t_cpu_set (k_heap K' r) = t_cpu_set (k_heap K r)" "task_id K' r = task_id K r"
    "t_scheduler (k_heap K' r) = t_scheduler (k_heap K r)"
    by (simp_all add: K' D w p upd_info_def)
  show "ti_dag_info (info K r) = None \<Longrightarrow> d = uptime K + rd" using K1 by simp
  show "t_future (k_heap K' r) = t_future (k_heap K r)" by (simp add: K' D upd_info_def)
qed

lemma gedf_wake_cases:
  assumes "gedf_wake_task P r K = Inr K'"
  obtains (preempt) rd w d K1 where "ti_scheduler_type (info K r) = GEDF rd"
    "edf_deadline 3 rd r K = Inr (w, d, K1)" "global_invoke_preemption r K1 = Inr (True, K')"
  | (push) rd w d K1 where "ti_scheduler_type (info K r) = GEDF rd"
    "edf_deadline 3 rd r K = Inr (w, d, K1)" "global_invoke_preemption r K1 = Inr (False, K1)"
    "K' = K1\<lparr>k_gedf := Some (bh_push (case k_gedf K1 of Some h \<Rightarrow> h | None \<Rightarrow> [])
        \<lparr>gt_task = r, gt_absolute_deadline = d, gt_wake_time = w\<rparr>)\<rparr>"
proof -
  obtain rd w d K1 b K2 where *: "ti_scheduler_type (info K r) = GEDF rd"
    "edf_deadline 3 rd r K = Inr (w, d, K1)" "global_invoke_preemption r K1 = Inr (b, K2)"
    "K' = (if b then K2 else K2\<lparr>k_gedf := Some (bh_push (case k_gedf K2 of Some h \<Rightarrow> h | None \<Rightarrow> [])
        \<lparr>gt_task = r, gt_absolute_deadline = d, gt_wake_time = w\<rparr>)\<rparr>)"
    using assms
    by (cases "ti_scheduler_type (info K r)")
      (auto simp: gedf_wake_task_def gedf_invoke_preemption_def and_then_Inr_iff Let_def split: if_splits)
  show ?thesis
  proof (cases b)
    case True
    then show ?thesis using * preempt by simp
  next
    case False
    then have "K2 = K1" using *(3) global_invoke_False[of r K1 K2] by simp
    then show ?thesis using * False push by simp
  qed
qed

lemma cedf_wake_cases:
  assumes "cedf_wake_task P r K = Inr K'"
  obtains (preempt) rd m w d K1 where "ti_scheduler_type (info K r) = ClusteredEDF rd m"
    "edf_deadline 4 rd r K = Inr (w, d, K1)" "cedf_invoke_preemption P r K1 = Inr (True, K')"
  | (push) rd m m' w d K1 q where "ti_scheduler_type (info K r) = ClusteredEDF rd m"
    "edf_deadline 4 rd r K = Inr (w, d, K1)" "t_cpu_set (k_heap K1 r) = Some m'"
    "\<not> cm_is_empty P m'" "masked_workers P m' (k_num_cpu K1) = m'"
    "cedf_invoke_preemption P r K1 = Inr (False, K1)"
    "bq_push P (case k_cedf K1 of Some q \<Rightarrow> q | None \<Rightarrow> bq_new P (k_num_cpu K1)) (d, w) m' (Some r) = Some q"
    "K' = K1\<lparr>k_num_clustered := k_num_clustered K1 + 1, k_cedf := Some q\<rparr>"
proof -
  obtain rd m w d K1 m' b K2 where *: "ti_scheduler_type (info K r) = ClusteredEDF rd m"
    "edf_deadline 4 rd r K = Inr (w, d, K1)" "t_cpu_set (k_heap K1 r) = Some m'"
    "\<not> cm_is_empty P m'" "masked_workers P m' (k_num_cpu K1) = m'"
    "cedf_invoke_preemption P r K1 = Inr (b, K2)"
    "if b then K' = K2 else \<exists>q. bq_push P (case k_cedf K2 of Some q \<Rightarrow> q | None \<Rightarrow> bq_new P (k_num_cpu K2)) (d, w) m' (Some r) = Some q
       \<and> K' = K2\<lparr>k_num_clustered := k_num_clustered K2 + 1, k_cedf := Some q\<rparr>"
    using assms
    by (cases "ti_scheduler_type (info K r)")
      (auto simp: cedf_wake_task_def and_then_Inr_iff Let_def clustered_new_def split: if_splits)
  show ?thesis
  proof (cases b)
    case True
    then show ?thesis using * preempt by auto
  next
    case False
    then have "K2 = K1" using *(6) cedf_invoke_False[of P r K1 K2] by simp
    then show ?thesis using * False push by auto
  qed
qed

lemma edf_deadline_keeps:
  assumes "edf_deadline sp rd r K = Inr (w, d, K')"
  shows "queued els K' = queued els K" "kernel_ok els cap K' = kernel_ok els cap K"
    "k_num_cpu K' = k_num_cpu K" "k_gedf K' = k_gedf K" "k_cedf K' = k_cedf K" "k_num_clustered K' = k_num_clustered K"
  by (subst edf_deadline_result(1)[OF assms], simp add: queued_def kernel_ok_def)+

lemma gedf_wake_conserves:
  assumes "gedf_wake_task P r K = Inr K'" "kernel_ok els cap K"
  shows "kernel_ok els cap K' \<and> queued els K' = add_mset r (queued els K)"
  using assms(1)
proof (cases rule: gedf_wake_cases)
  case (preempt rd w d K1)
  note k = edf_deadline_keeps[OF preempt(2)]
  have "kernel_ok els cap K1" using assms(2) k by simp
  from invoke_conserves[OF disjI1[OF preempt(3)] this] k show ?thesis by simp
next
  case (push rd w d K1)
  note k = edf_deadline_keeps[OF push(2)]
  have "kernel_ok els cap K1" "queued els K1 = queued els K" using assms(2) k by simp_all
  then show ?thesis
    by (auto simp: push(4) queued_def kernel_ok_def gedf_queued_def bh_push_def split: option.splits)
qed

lemma mset_map_filter:
  "mset (List.map_filter f xs) = image_mset (the \<circ> f) (filter_mset (\<lambda>x. f x \<noteq> None) (mset xs))"
  by (induction xs) (auto simp: List.map_filter_simps split: option.splits)

lemma mset_edf_insert: "mset (edf_insert e fs) = add_mset e (mset fs)"
  by (induction fs) auto

lemma bq_new_law: "queue_ok P mem els cap \<Longrightarrow> els (bq_new P n) = [] \<and> cap (bq_new P n) = n"
  unfolding queue_ok_def by simp

lemma bq_push_accepts:
  assumes "queue_ok P mem els cap" "mem m \<noteq> {}" "mem m \<subseteq> {..<cap q}"
  shows "\<exists>q'. bq_push P q k m x = Some q' \<and> els q' = edf_insert (k, m, x) (els q) \<and> cap q' = cap q"
proof -
  have "\<forall>q k m x. mem m \<noteq> {} \<longrightarrow> mem m \<subseteq> {..<cap q} \<longrightarrow>
      (\<exists>q'. bq_push P q k m x = Some q' \<and> els q' = edf_insert (k, m, x) (els q) \<and> cap q' = cap q)"
    using assms(1) unfolding queue_ok_def by (elim conjE)
  from this[rule_format, OF assms(2,3)] show ?thesis .
qed

lemma bq_push_law:
  assumes "queue_ok P mem els cap" "mem m \<noteq> {}" "mem m \<subseteq> {..<cap q}" "bq_push P q k m x = Some q'"
  shows "els q' = edf_insert (k, m, x) (els q) \<and> cap q' = cap q"
  using bq_push_accepts[OF assms(1-3), of k x] assms(4) by auto

lemma bq_pop_law:
  "queue_ok P mem els cap \<Longrightarrow>
     fst (bq_pop_for_cpu P q c) = fst (take_first (\<lambda>e. c \<in> mem (fst (snd e))) (els q))
     \<and> els (snd (bq_pop_for_cpu P q c)) = snd (take_first (\<lambda>e. c \<in> mem (fst (snd e))) (els q))
     \<and> cap (snd (bq_pop_for_cpu P q c)) = cap q"
  unfolding queue_ok_def by simp

lemma cedf_push_conserves:
  assumes "ext_ok P mem els cap" "kernel_ok els cap K" "\<not> cm_is_empty P m" "masked_workers P m (k_num_cpu K) = m"
    and "bq_push P (case k_cedf K of Some q \<Rightarrow> q | None \<Rightarrow> bq_new P (k_num_cpu K)) k m (Some r) = Some q"
  shows "cedf_queued els (Some q) = add_mset r (cedf_queued els (k_cedf K)) \<and> cap q = k_num_cpu K
    \<and> (\<forall>e \<in> set (els q). snd (snd e) \<noteq> None)"
proof -
  define q0 where "q0 = (case k_cedf K of Some q \<Rightarrow> q | None \<Rightarrow> bq_new P (k_num_cpu K))"
  have mask: "mask_ok P mem" and queue: "queue_ok P mem els cap" using assms(1) by (simp_all add: ext_ok_def)
  have q0: "cap q0 = k_num_cpu K" "cedf_queued els (Some q0) = cedf_queued els (k_cedf K)"
    "\<And>e. e \<in> set (els q0) \<Longrightarrow> snd (snd e) \<noteq> None"
    using assms(2) bq_new_law[OF queue, of "k_num_cpu K"] unfolding q0_def
    by (cases "k_cedf K"; simp add: kernel_ok_def cedf_queued_def List.map_filter_simps)+
  have m: "mem m \<noteq> {}" using mask assms(3) by (simp add: mask_ok_def)
  have "mem m \<subseteq> {1..<k_num_cpu K}" using masked_workers_fixpoint[OF mask] assms(4) by blast
  then have "mem m \<subseteq> {..<cap q0}" using q0(1) by auto
  from bq_push_law[OF queue m this assms(5)[folded q0_def]]
  have q: "mset (els q) = add_mset (k, m, Some r) (mset (els q0))" "cap q = cap q0"
    by (simp_all add: mset_edf_insert)
  have "e = (k, m, Some r) \<or> e \<in> set (els q0)" if "e \<in> set (els q)" for e
    using that q(1) by (metis insert_iff set_mset_add_mset_insert set_mset_mset)
  then have "\<forall>e \<in> set (els q). snd (snd e) \<noteq> None" using q0(3) by fastforce
  moreover have "cedf_queued els (Some q) = add_mset r (cedf_queued els (Some q0))"
    by (simp add: cedf_queued_def mset_map_filter q(1))
  ultimately show ?thesis using q0(1,2) q(2) by simp
qed

lemma cedf_wake_conserves:
  assumes "ext_ok P mem els cap" "cedf_wake_task P r K = Inr K'" "kernel_ok els cap K"
  shows "kernel_ok els cap K' \<and> queued els K' = add_mset r (queued els K)"
  using assms(2)
proof (cases rule: cedf_wake_cases)
  case (preempt rd m w d K1)
  note k = edf_deadline_keeps[OF preempt(2)]
  have "kernel_ok els cap K1" using assms(3) k by simp
  from invoke_conserves[OF disjI2[OF preempt(3)] this] k show ?thesis by simp
next
  case (push rd m m' w d K1 q)
  note k = edf_deadline_keeps[OF push(2)]
  have K1: "kernel_ok els cap K1" "queued els K1 = queued els K" using assms(3) k by simp_all
  from cedf_push_conserves[OF assms(1) K1(1) push(4,5,7)] K1 show ?thesis
    by (auto simp: push(8) queued_def kernel_ok_def)
qed

lemma panicked_wake_conserves:
  assumes "panicked_wake_task r K = Inr K'" "kernel_ok els cap K"
  shows "kernel_ok els cap K' \<and> queued els K' = add_mset r (queued els K)"
  using assms
  by (auto simp: panicked_wake_task_def queued_def kernel_ok_def panicked_queued_def split: option.splits)

lemma sched_wake_conserves:
  assumes "ext_ok P mem els cap" "sched_wake_task P s r K = Inr K'" "kernel_ok els cap K"
  shows "kernel_ok els cap K' \<and> queued els K' = add_mset r (queued els K)"
proof (cases s)
  case S_ClusteredEDF
  then show ?thesis using cedf_wake_conserves[OF assms(1)] assms by simp
next
  case S_GEDF
  then show ?thesis using gedf_wake_conserves[of P r K K'] assms by simp
next
  case S_PrioritizedFIFO
  then show ?thesis using fifo_wake_conserves[of r K K'] assms by simp
next
  case S_PrioritizedRR
  then show ?thesis using rr_wake_conserves[of r K K'] assms by simp
next
  case S_Panicked
  then show ?thesis using panicked_wake_conserves[of r K K'] assms by simp
qed

end
