(* ===== verification/Run_Queue.thy ===== *)
theory Run_Queue
  imports Queue_Laws
begin

text \<open>
  Taking the next task. The locale \<open>run_queue\<close> is the contract of the loop inside \<open>get_next\<close>: the queue
  has an order in which its tasks leave for a CPU, and one iteration pops the first of them and
  claims it or goes on. The locale's lemma says what the whole loop returns; it is interpreted for
  the priority queues of the FIFO and round-robin schedulers, for the GEDF heap and for the deque of
  the panicked scheduler, and it is used for the affinity queue under \<open>ext_ok\<close>.
\<close>

definition dead :: "('m, 'q) kernel \<Rightarrow> nat \<Rightarrow> bool" where
  "dead K r \<longleftrightarrow> ti_state (info K r) = Terminated \<or> ti_state (info K r) = Panicked"

lemma claim_task_None: "claim_task cpu ens r K = None \<longleftrightarrow> dead K r"
  by (simp add: claim_task_def dead_def Let_def)

lemma claim_task_Some:
  assumes "claim_task cpu ens r K = Some K'"
  shows "\<not> dead K r"
    "K' = K\<lparr>k_heap := (k_heap K)(r := k_heap K' r), k_running := (if ens then (k_running K)(cpu := task_id K r) else k_running K)\<rparr>"
    "k_heap K' r = (k_heap K r)\<lparr>t_info := info K' r\<rparr>"
    "ti_state (info K' r) = (if ens then Running else ti_state (info K r))"
    "ti_scheduler_type (info K' r) = ti_scheduler_type (info K r)"
    "ti_need_sched (info K' r) = ti_need_sched (info K r)"
    "ti_thread (info K' r) = ti_thread (info K r)"
  using assms
  by (auto simp: claim_task_def dead_def Let_def upd_info_def set_current_task_def split: if_splits)

lemma claim_keeps:
  assumes "claim_task cpu ens r K = Some K'"
  shows "queued els K' = queued els K" "kernel_ok els cap K' = kernel_ok els cap K"
    "k_fifo K' = k_fifo K" "k_rr K' = k_rr K" "k_gedf K' = k_gedf K" "k_cedf K' = k_cedf K"
    "k_panicked K' = k_panicked K" "k_num_clustered K' = k_num_clustered K"
  by (subst claim_task_Some(2)[OF assms], simp add: queued_def kernel_ok_def)+

locale run_queue =
  fixes inv :: "'h \<Rightarrow> bool"
    and order :: "usize \<Rightarrow> 'h \<Rightarrow> nat list"
    and elems :: "'h \<Rightarrow> nat multiset"
    and tick :: "('m, 'q) kernel \<Rightarrow> ('m, 'q) kernel"
    and loop :: "usize \<Rightarrow> bool \<Rightarrow> 'h \<Rightarrow> ('m, 'q) kernel \<Rightarrow> (nat option \<times> 'h \<times> ('m, 'q) kernel) rust"
  assumes empty: "inv h \<Longrightarrow> order cpu h = [] \<Longrightarrow>
      \<exists>h'. loop cpu ens h K = Inr (None, h', K) \<and> inv h' \<and> order cpu h' = [] \<and> elems h' = elems h"
    and step: "inv h \<Longrightarrow> order cpu h = r # rs \<Longrightarrow>
      \<exists>h'. inv h' \<and> order cpu h' = rs \<and> elems h = add_mset r (elems h') \<and>
        (\<forall>K. loop cpu ens h K =
          (case claim_task cpu ens r (tick K) of
             None \<Rightarrow> loop cpu ens h' (tick K)
           | Some K' \<Rightarrow> Inr (Some r, h', K')))"
    and tick_heap: "k_heap (tick K) = k_heap K"
begin

lemma tick_pow_heap: "k_heap ((tick ^^ n) K) = k_heap K"
  by (induction n) (simp_all add: tick_heap)

lemma dead_tick: "dead ((tick ^^ n) K) = dead K"
  by (simp add: dead_def fun_eq_iff tick_pow_heap)

lemma tick_pow_swap: "(tick ^^ n) (tick K) = tick ((tick ^^ n) K)"
  by (induction n) simp_all

text \<open>The loop drops dead tasks \<open>D\<close> up to the first live one, which it claims.\<close>

lemma loop_result:
  assumes "inv h"
  shows "\<exists>h' D. inv h' \<and> (\<forall>x \<in> set D. dead K x) \<and>
    (case dropWhile (dead K) (order cpu h) of
       [] \<Rightarrow> loop cpu ens h K = Inr (None, h', (tick ^^ length D) K) \<and> D = order cpu h
             \<and> order cpu h' = [] \<and> elems h = mset D + elems h'
     | r # rs \<Rightarrow> order cpu h = D @ r # rs \<and> order cpu h' = rs \<and> elems h = mset D + add_mset r (elems h')
             \<and> (\<exists>K'. claim_task cpu ens r ((tick ^^ Suc (length D)) K) = Some K' \<and> loop cpu ens h K = Inr (Some r, h', K')))"
  using assms
proof (induction "order cpu h" arbitrary: h K)
  case Nil
  then obtain h' where "loop cpu ens h K = Inr (None, h', K)" "inv h'" "order cpu h' = []" "elems h' = elems h"
    using empty by metis
  then show ?case using Nil(1) by (intro exI[of _ h'] exI[of _ "[]"]) (simp flip: Nil(1))
next
  case (Cons r rs)
  obtain h' where h': "inv h'" "order cpu h' = rs" "elems h = add_mset r (elems h')"
    "\<And>K. loop cpu ens h K = (case claim_task cpu ens r (tick K) of
             None \<Rightarrow> loop cpu ens h' (tick K) | Some K' \<Rightarrow> Inr (Some r, h', K'))"
    using step[OF Cons.prems Cons.hyps(2)[symmetric]] by metis
  have dead: "dead (tick K) = dead K" using dead_tick[of 1 K] by simp
  show ?case
  proof (cases "dead K r")
    case False
    then obtain K' where "claim_task cpu ens r (tick K) = Some K'"
      using dead claim_task_None[of cpu ens r "tick K"] by auto
    then show ?thesis
      using False h' by (intro exI[of _ h'] exI[of _ "[]"]) (simp flip: Cons.hyps(2))
  next
    case True
    then have loop: "loop cpu ens h K = loop cpu ens h' (tick K)"
      using h'(4) dead claim_task_None[of cpu ens r "tick K"] by simp
    obtain h'' D where IH: "inv h''" "\<forall>x \<in> set D. dead K x"
      "case dropWhile (dead K) rs of
         [] \<Rightarrow> loop cpu ens h' (tick K) = Inr (None, h'', (tick ^^ length D) (tick K)) \<and> D = rs
               \<and> order cpu h'' = [] \<and> elems h' = mset D + elems h''
       | y # ys \<Rightarrow> rs = D @ y # ys \<and> order cpu h'' = ys \<and> elems h' = mset D + add_mset y (elems h'')
               \<and> (\<exists>K'. claim_task cpu ens y ((tick ^^ Suc (length D)) (tick K)) = Some K'
                    \<and> loop cpu ens h' (tick K) = Inr (Some y, h'', K'))"
      using Cons.hyps(1)[OF h'(2)[symmetric] h'(1), of "tick K"] unfolding dead h'(2) by blast
    have dw: "dropWhile (dead K) (order cpu h) = dropWhile (dead K) rs" using True by (simp flip: Cons.hyps(2))
    show ?thesis
    proof (cases "dropWhile (dead K) rs")
      case Nil
      show ?thesis
        using True h'(3) loop IH(1,2) IH(3)[unfolded Nil list.case] unfolding dw Nil list.case
        by (intro exI[of _ h''] exI[of _ "r # D"]) (simp add: tick_pow_swap flip: Cons.hyps(2))
    next
      case (Cons y ys)
      show ?thesis
        using True h'(3) loop IH(1,2) IH(3)[unfolded Cons list.case] unfolding dw Cons list.case
        by (intro exI[of _ h''] exI[of _ "r # D"]) (auto simp: tick_pow_swap \<open>r # rs = order cpu h\<close> [symmetric])
    qed
  qed
qed

end

section \<open>Interpretations\<close>

lemma prio_loop_empty:
  assumes "pq_inv q" "pq_list q = []"
  shows "prio_get_next_loop cpu ens q K = Inr (None, q, K)"
  using pq_pop_refines_empty[OF assms] by (subst prio_get_next_loop.simps) simp

lemma pq_elems_list: "length (pq_queue q) = 32 \<Longrightarrow> pq_elems q = mset (map snd (pq_list q))"
proof -
  have "mset (map snd (pq_levels n qs)) = mset (concat (take n qs))" if "n \<le> length qs" for n and qs :: "'a list list"
    using that by (induction n) (simp_all add: take_Suc_conv_app_nth comp_def)
  then show "length (pq_queue q) = 32 \<Longrightarrow> pq_elems q = mset (map snd (pq_list q))"
    by (simp add: pq_elems_def pq_list_def)
qed

interpretation prio_rq: run_queue pq_inv "\<lambda>_ q. map (pt_task \<circ> snd) (pq_list q)"
  "\<lambda>q. image_mset pt_task (pq_elems q)" "\<lambda>K. K" prio_get_next_loop
proof unfold_locales
  fix h :: "prio_task priority_queue" and cpu ens and K :: "('m, 'q) kernel"
  assume "pq_inv h" "map (pt_task \<circ> snd) (pq_list h) = []"
  then show "\<exists>h'. prio_get_next_loop cpu ens h K = Inr (None, h', K) \<and> pq_inv h' \<and>
      map (pt_task \<circ> snd) (pq_list h') = [] \<and> image_mset pt_task (pq_elems h') = image_mset pt_task (pq_elems h)"
    using prio_loop_empty[of h cpu ens K] by auto
next
  fix h :: "prio_task priority_queue" and cpu ens r rs
  assume inv: "pq_inv h" and "map (pt_task \<circ> snd) (pq_list h) = r # rs"
  then obtain p x l where l: "pq_list h = (p, x) # l" "r = pt_task x" "rs = map (pt_task \<circ> snd) l" by auto
  obtain q' where q': "pq_pop h = Inr (Some x, q')" "pq_inv q'" "pq_list q' = l"
    using pq_pop_refines[OF inv l(1)] by auto
  show "\<exists>h'. pq_inv h' \<and> map (pt_task \<circ> snd) (pq_list h') = rs \<and>
      image_mset pt_task (pq_elems h) = add_mset r (image_mset pt_task (pq_elems h')) \<and>
      (\<forall>K. prio_get_next_loop cpu ens h K = (case claim_task cpu ens r K of
          None \<Rightarrow> prio_get_next_loop cpu ens h' K | Some K' \<Rightarrow> Inr (Some r, h', K')))"
    using q' l pq_pop_elems[OF q'(1)]
    by (intro exI[of _ q']) (simp add: prio_get_next_loop.simps[of cpu ens h] split: option.split)
qed simp

interpretation gedf_rq: run_queue "\<lambda>_. True" "\<lambda>_ h. map gt_task (bh_drain gedf_lt h)"
  "\<lambda>h. image_mset gt_task (mset h)" "\<lambda>K. K" "\<lambda>cpu ens h K. Inr (gedf_get_next_loop cpu ens h K)"
proof unfold_locales
  fix h :: "gedf_task list" and cpu ens and K :: "('m, 'q) kernel"
  assume "map gt_task (bh_drain gedf_lt h) = []"
  then have "h = []" using bh_drain_mset[of gedf_lt h] by simp
  then show "\<exists>h'. (Inr (gedf_get_next_loop cpu ens h K) :: _ rust) = Inr (None, h', K) \<and> True \<and>
      map gt_task (bh_drain gedf_lt h') = [] \<and> image_mset gt_task (mset h') = image_mset gt_task (mset h)"
    by (subst gedf_get_next_loop.simps) (simp add: bh_pop_def bh_peek_def)
next
  fix h :: "gedf_task list" and cpu ens r rs
  assume *: "map gt_task (bh_drain gedf_lt h) = r # rs"
  then obtain x h' where pop: "bh_pop gedf_lt h = (Some x, h')"
    by (cases "bh_pop gedf_lt h"; cases "fst (bh_pop gedf_lt h)") auto
  note * [unfolded bh_drain_pop[OF pop]]
  then show "\<exists>h'. True \<and> map gt_task (bh_drain gedf_lt h') = rs \<and>
      image_mset gt_task (mset h) = add_mset r (image_mset gt_task (mset h')) \<and>
      (\<forall>K. (Inr (gedf_get_next_loop cpu ens h K) :: _ rust) = (case claim_task cpu ens r K of
          None \<Rightarrow> Inr (gedf_get_next_loop cpu ens h' K) | Some K' \<Rightarrow> Inr (Some r, h', K')))"
    using pop bh_pop_Some(3)[OF pop]
    by (intro exI[of _ h']) (auto simp: gedf_get_next_loop.simps[of cpu ens h] split: option.split)
qed simp

interpretation panicked_rq: run_queue "\<lambda>_. True" "\<lambda>_ q. q" mset "\<lambda>K. K"
  "\<lambda>cpu ens q K. Inr (panicked_get_next_loop cpu ens q K)"
  by unfold_locales (auto split: option.split)

section \<open>The affinity queue\<close>

lemma take_first_none: "filter p xs = [] \<Longrightarrow> take_first p xs = (None, xs)"
  by (induction xs) (auto split: if_splits)

lemma take_first_some:
  "filter p xs = x # ys \<Longrightarrow>
     \<exists>xs'. take_first p xs = (Some x, xs') \<and> filter p xs' = ys \<and> mset xs = add_mset x (mset xs')"
  by (induction xs) (auto split: if_splits)

definition cedf_order ::
    "('m \<Rightarrow> nat set) \<Rightarrow> ('q \<Rightarrow> (edf_key \<times> 'm \<times> nat option) list) \<Rightarrow> usize \<Rightarrow> 'q \<Rightarrow> nat list" where
  "cedf_order mem els cpu q = map (the \<circ> snd \<circ> snd) (filter (\<lambda>e. cpu \<in> mem (fst (snd e))) (els q))"

definition cedf_entries_ok :: "('q \<Rightarrow> (edf_key \<times> 'm \<times> nat option) list) \<Rightarrow> ('q \<Rightarrow> usize) \<Rightarrow> usize \<Rightarrow> 'q \<Rightarrow> bool" where
  "cedf_entries_ok els cap n q \<longleftrightarrow> cap q = n \<and> (\<forall>e \<in> set (els q). snd (snd e) \<noteq> None)"

definition count_out :: "('m, 'q) kernel \<Rightarrow> ('m, 'q) kernel" where
  "count_out K = K\<lparr>k_num_clustered := k_num_clustered K - 1\<rparr>"

lemma cedf_run_queue:
  assumes "queue_ok P mem els cap"
  shows "run_queue (cedf_entries_ok els cap n) (cedf_order mem els) (\<lambda>q. cedf_queued els (Some q)) count_out
    (\<lambda>cpu ens q K. returns (cedf_get_next_loop P cpu ens q K))"
proof
  fix h cpu ens and K :: "('a, 'b) kernel"
  assume inv: "cedf_entries_ok els cap n h" and "cedf_order mem els cpu h = []"
  then have "filter (\<lambda>e. cpu \<in> mem (fst (snd e))) (els h) = []" by (simp add: cedf_order_def)
  then have pop: "fst (bq_pop_for_cpu P h cpu) = None" "els (snd (bq_pop_for_cpu P h cpu)) = els h"
    "cap (snd (bq_pop_for_cpu P h cpu)) = cap h"
    using bq_pop_law[OF assms, of h cpu] by (simp_all add: take_first_none)
  then show "\<exists>h'. returns (cedf_get_next_loop P cpu ens h K) = Inr (None, h', K) \<and> cedf_entries_ok els cap n h' \<and>
      cedf_order mem els cpu h' = [] \<and> cedf_queued els (Some h') = cedf_queued els (Some h)"
    using inv \<open>cedf_order mem els cpu h = []\<close>
    by (simp add: cedf_get_next_loop.simps[of P cpu ens h] Let_def cedf_entries_ok_def cedf_order_def cedf_queued_def)
next
  fix h cpu r rs ens
  assume inv: "cedf_entries_ok els cap n h" and ord: "cedf_order mem els cpu h = r # rs"
  then obtain e es where e: "filter (\<lambda>e. cpu \<in> mem (fst (snd e))) (els h) = e # es"
    "r = the (snd (snd e))" "rs = map (the \<circ> snd \<circ> snd) es"
    by (auto simp: cedf_order_def)
  obtain xs' where xs': "take_first (\<lambda>e. cpu \<in> mem (fst (snd e))) (els h) = (Some e, xs')"
    "filter (\<lambda>e. cpu \<in> mem (fst (snd e))) xs' = es" "mset (els h) = add_mset e (mset xs')"
    using take_first_some[OF e(1)] by blast
  define h' where "h' = snd (bq_pop_for_cpu P h cpu)"
  have h': "fst (bq_pop_for_cpu P h cpu) = Some e" "els h' = xs'" "cap h' = cap h"
    using bq_pop_law[OF assms, of h cpu] xs'(1) by (simp_all add: h'_def)
  have sub: "set (els h) = insert e (set xs')" using arg_cong[OF xs'(3), of set_mset] by simp
  have er: "snd (snd e) = Some r" using inv e(2) sub by (auto simp: cedf_entries_ok_def)
  have "cedf_entries_ok els cap n h'" using inv sub h' by (auto simp: cedf_entries_ok_def)
  moreover have "cedf_order mem els cpu h' = rs" by (simp add: cedf_order_def h' xs' e)
  moreover have "cedf_queued els (Some h) = add_mset r (cedf_queued els (Some h'))"
    by (simp add: cedf_queued_def mset_map_filter xs'(3) h' er)
  moreover have "returns (cedf_get_next_loop P cpu ens h K) =
      (case claim_task cpu ens r (count_out K) of None \<Rightarrow> returns (cedf_get_next_loop P cpu ens h' (count_out K))
       | Some K' \<Rightarrow> Inr (Some r, h', K'))" for K :: "('a, 'b) kernel"
    by (subst cedf_get_next_loop.simps)
      (simp add: Let_def h'(1) er clustered_take_def count_out_def flip: h'_def split: option.split)
  ultimately show "\<exists>h'. cedf_entries_ok els cap n h' \<and> cedf_order mem els cpu h' = rs \<and>
      cedf_queued els (Some h) = add_mset r (cedf_queued els (Some h')) \<and>
      (\<forall>K. returns (cedf_get_next_loop P cpu ens h K) = (case claim_task cpu ens r (count_out K) of
         None \<Rightarrow> returns (cedf_get_next_loop P cpu ens h' (count_out K)) | Some K' \<Rightarrow> Inr (Some r, h', K')))"
    by blast
qed (simp add: count_out_def)

section \<open>What a scheduler gives\<close>

fun slot_list :: "('m \<Rightarrow> nat set) \<Rightarrow> ('q \<Rightarrow> (edf_key \<times> 'm \<times> nat option) list) \<Rightarrow> scheduler_ref \<Rightarrow> usize \<Rightarrow>
    ('m, 'q) kernel \<Rightarrow> nat list" where
  "slot_list mem els S_ClusteredEDF cpu K = (case k_cedf K of None \<Rightarrow> [] | Some q \<Rightarrow> cedf_order mem els cpu q)"
| "slot_list mem els S_GEDF cpu K = (case k_gedf K of None \<Rightarrow> [] | Some h \<Rightarrow> map gt_task (bh_drain gedf_lt h))"
| "slot_list mem els S_PrioritizedFIFO cpu K = (case k_fifo K of None \<Rightarrow> [] | Some q \<Rightarrow> map (pt_task \<circ> snd) (pq_list q))"
| "slot_list mem els S_PrioritizedRR cpu K = (case k_rr K of None \<Rightarrow> [] | Some q \<Rightarrow> map (pt_task \<circ> snd) (pq_list q))"
| "slot_list mem els S_Panicked cpu K = (case k_panicked K of None \<Rightarrow> [] | Some q \<Rightarrow> q)"

definition opt_list :: "'a option \<Rightarrow> 'a list" where
  "opt_list x = (case x of None \<Rightarrow> [] | Some y \<Rightarrow> [y])"

lemma opt_list_simps [simp]: "opt_list None = []" "opt_list (Some y) = [y]"
  by (simp_all add: opt_list_def)

text \<open>What a successful \<open>get_next\<close> did to the task it returns, and to nothing else.\<close>

definition claimed :: "usize \<Rightarrow> bool \<Rightarrow> nat option \<Rightarrow> ('m, 'q) kernel \<Rightarrow> ('m, 'q) kernel \<Rightarrow> bool" where
  "claimed cpu ens res K K' \<longleftrightarrow>
     (case res of
        None \<Rightarrow> k_heap K' = k_heap K \<and> k_running K' = k_running K
      | Some r \<Rightarrow> \<not> dead K r \<and> (\<forall>x. x \<noteq> r \<longrightarrow> k_heap K' x = k_heap K x) \<and> task_id K' r = task_id K r
          \<and> ti_state (info K' r) = (if ens then Running else ti_state (info K r))
          \<and> ti_need_sched (info K' r) = ti_need_sched (info K r)
          \<and> k_running K' = (if ens then (k_running K)(cpu := task_id K r) else k_running K))"

definition took ::
    "('m \<Rightarrow> nat set) \<Rightarrow> ('q \<Rightarrow> (edf_key \<times> 'm \<times> nat option) list) \<Rightarrow> ('q \<Rightarrow> usize) \<Rightarrow> scheduler_ref set \<Rightarrow> usize \<Rightarrow> bool \<Rightarrow>
     nat list \<Rightarrow> nat option \<Rightarrow> ('m, 'q) kernel \<Rightarrow> ('m, 'q) kernel \<Rightarrow> bool" where
  "took mem els cap S cpu ens D res K K' \<longleftrightarrow>
     (\<forall>x \<in> set D. dead K x) \<and> kernel_ok els cap K' \<and> claimed cpu ens res K K'
     \<and> queued els K = mset D + mset (opt_list res) + queued els K'
     \<and> (\<forall>s. s \<notin> S \<longrightarrow> slot_list mem els s cpu K' = slot_list mem els s cpu K)"

lemma claim_claimed:
  assumes "claim_task cpu ens r K1 = Some K2" "k_heap K1 = k_heap K" "k_running K1 = k_running K"
    and "k_heap K' = k_heap K2" "k_running K' = k_running K2"
  shows "claimed cpu ens (Some r) K K'"
  using assms
  by (simp add: claimed_def dead_def claim_task_def Let_def upd_info_def set_current_task_def split: if_splits)
    (auto simp: assms)

lemma claim_shape:
  assumes "claim_task cpu ens r K = Some K'"
  obtains h c where "K' = K\<lparr>k_heap := h, k_running := c\<rparr>"
  using claim_task_Some(2)[OF assms] by blast

lemma heap_running_frame:
  "queued els (K\<lparr>k_heap := h, k_running := c\<rparr>) = queued els K"
  "kernel_ok els cap (K\<lparr>k_heap := h, k_running := c\<rparr>) = kernel_ok els cap K"
  "slot_list mem els s cpu (K\<lparr>k_heap := h, k_running := c\<rparr>) = slot_list mem els s cpu K"
  by (simp_all add: queued_def kernel_ok_def) (cases s; simp)

text \<open>
  A scheduler's queue inside the kernel: \<open>sel\<close> reads the queue and \<open>put\<close> writes it back. The laws say
  what writing back a queue from which the tasks \<open>M\<close> were taken does to the whole state.
\<close>

locale sched_queue = run_queue inv order elems tick loop
  for inv :: "'h \<Rightarrow> bool"
    and order :: "usize \<Rightarrow> 'h \<Rightarrow> nat list"
    and elems :: "'h \<Rightarrow> nat multiset"
    and tick :: "('m, 'q) kernel \<Rightarrow> ('m, 'q) kernel"
    and loop :: "usize \<Rightarrow> bool \<Rightarrow> 'h \<Rightarrow> ('m, 'q) kernel \<Rightarrow> (nat option \<times> 'h \<times> ('m, 'q) kernel) rust" +
  fixes mem :: "'m \<Rightarrow> nat set"
    and els :: "'q \<Rightarrow> (edf_key \<times> 'm \<times> nat option) list"
    and cap :: "'q \<Rightarrow> usize"
    and S :: scheduler_ref
    and sel :: "('m, 'q) kernel \<Rightarrow> 'h option"
    and put :: "'h \<Rightarrow> ('m, 'q) kernel \<Rightarrow> ('m, 'q) kernel"
  assumes put_frame: "put h (K\<lparr>k_heap := a, k_running := c\<rparr>) = (put h K)\<lparr>k_heap := a, k_running := c\<rparr>"
    and put_heap: "k_heap (put h K) = k_heap K" "k_running (put h K) = k_running K"
    and tick_running: "k_running (tick K) = k_running K"
    and put_slot: "slot_list mem els S cpu (put h K) = order cpu h"
    and put_other: "s \<noteq> S \<Longrightarrow> slot_list mem els s cpu (put h ((tick ^^ n) K)) = slot_list mem els s cpu K"
    and sel_slot: "sel K = Some h \<Longrightarrow> slot_list mem els S cpu K = order cpu h"
    and put_queued: "sel K = Some h \<Longrightarrow> elems h = M + elems h' \<Longrightarrow> queued els K = M + queued els (put h' ((tick ^^ n) K))"
    and put_ok: "kernel_ok els cap K \<Longrightarrow> sel K = Some h \<Longrightarrow> inv h' \<Longrightarrow> elems h = M + elems h' \<Longrightarrow>
      kernel_ok els cap (put h' ((tick ^^ size M) K))"
    and sel_inv: "kernel_ok els cap K \<Longrightarrow> sel K = Some h \<Longrightarrow> inv h"
begin

lemma tick_pow_running: "k_running ((tick ^^ n) K) = k_running K"
  by (induction n) (simp_all add: tick_running)

text \<open>The result of \<open>get_next\<close> up to the case of a queue that was never created.\<close>

lemma taken:
  assumes ok: "kernel_ok els cap K" and sel: "sel K = Some h"
  shows "\<exists>D res h' K1. loop cpu ens h K = Inr (res, h', K1) \<and> took mem els cap {S} cpu ens D res K (put h' K1)
    \<and> slot_list mem els S cpu K = D @ opt_list res @ slot_list mem els S cpu (put h' K1)
    \<and> (res = None \<longrightarrow> slot_list mem els S cpu (put h' K1) = [])"
proof -
  obtain h' D where h': "inv h'" "\<forall>x \<in> set D. dead K x"
    and res: "case dropWhile (dead K) (order cpu h) of
       [] \<Rightarrow> loop cpu ens h K = Inr (None, h', (tick ^^ length D) K) \<and> D = order cpu h
             \<and> order cpu h' = [] \<and> elems h = mset D + elems h'
     | r # rs \<Rightarrow> order cpu h = D @ r # rs \<and> order cpu h' = rs \<and> elems h = mset D + add_mset r (elems h')
             \<and> (\<exists>K'. claim_task cpu ens r ((tick ^^ Suc (length D)) K) = Some K' \<and> loop cpu ens h K = Inr (Some r, h', K'))"
    using loop_result[OF sel_inv[OF ok sel], of K cpu ens] by blast
  show ?thesis
  proof (cases "dropWhile (dead K) (order cpu h)")
    case Nil
    note res = res[unfolded Nil list.case]
    then show ?thesis
      using h' put_ok[OF ok sel h'(1), of "mset D"] put_queued[OF sel, of "mset D" h' "length D"]
      by (intro exI[of _ D] exI[of _ None] exI[of _ h'] exI[of _ "(tick ^^ length D) K"])
        (simp add: took_def claimed_def put_heap put_slot put_other sel_slot[OF sel] tick_pow_heap tick_pow_running)
  next
    case (Cons r rs)
    note res = res[unfolded Cons list.case]
    let ?n = "Suc (length D)"
    obtain K1 where K1: "claim_task cpu ens r ((tick ^^ ?n) K) = Some K1" "loop cpu ens h K = Inr (Some r, h', K1)"
      using res by blast
    obtain a c where ac: "K1 = ((tick ^^ ?n) K)\<lparr>k_heap := a, k_running := c\<rparr>" using claim_shape[OF K1(1)] by metis
    have put: "put h' K1 = (put h' ((tick ^^ ?n) K))\<lparr>k_heap := a, k_running := c\<rparr>" by (simp add: ac put_frame)
    have "elems h = add_mset r (mset D) + elems h'" using res by simp
    then have "kernel_ok els cap (put h' K1)" "queued els K = add_mset r (mset D) + queued els (put h' K1)"
      using put_ok[OF ok sel h'(1), of "add_mset r (mset D)"] put_queued[OF sel, of "add_mset r (mset D)" h' ?n]
      by (simp_all add: put heap_running_frame)
    moreover have "claimed cpu ens (Some r) K (put h' K1)"
      using tick_pow_heap[of ?n K] tick_pow_running[of ?n K]
      by (intro claim_claimed[OF K1(1)]) (simp_all add: put_heap)
    moreover have "slot_list mem els s cpu (put h' K1) = slot_list mem els s cpu K" if "s \<noteq> S" for s
      using put_other[OF that, of cpu h' ?n K] by (simp add: put heap_running_frame)
    ultimately show ?thesis
      using K1(2) res h'(2)
      by (intro exI[of _ D] exI[of _ "Some r"] exI[of _ h'] exI[of _ K1])
        (simp add: took_def put_slot sel_slot[OF sel])
  qed
qed

end

lemma id_pow: "((\<lambda>K. K) ^^ n) K = K"
  by (induction n) simp_all

lemma slot_put_other:
  "s \<noteq> S_PrioritizedFIFO \<Longrightarrow> slot_list mem els s cpu (K\<lparr>k_fifo := a\<rparr>) = slot_list mem els s cpu K"
  "s \<noteq> S_PrioritizedRR \<Longrightarrow> slot_list mem els s cpu (K\<lparr>k_rr := a\<rparr>) = slot_list mem els s cpu K"
  "s \<noteq> S_GEDF \<Longrightarrow> slot_list mem els s cpu (K\<lparr>k_gedf := b\<rparr>) = slot_list mem els s cpu K"
  "s \<noteq> S_Panicked \<Longrightarrow> slot_list mem els s cpu (K\<lparr>k_panicked := c\<rparr>) = slot_list mem els s cpu K"
  "s \<noteq> S_ClusteredEDF \<Longrightarrow> slot_list mem els s cpu (K\<lparr>k_num_clustered := n, k_cedf := d\<rparr>) = slot_list mem els s cpu K"
  by (cases s; simp)+

interpretation fifo_sq: sched_queue pq_inv "\<lambda>_ q. map (pt_task \<circ> snd) (pq_list q)"
  "\<lambda>q. image_mset pt_task (pq_elems q)" "\<lambda>K. K" prio_get_next_loop mem els cap S_PrioritizedFIFO
  k_fifo "\<lambda>q K. K\<lparr>k_fifo := Some q\<rparr>" for mem els cap
  by unfold_locales (auto simp: id_pow slot_put_other queued_def prio_queued_def kernel_ok_def)

interpretation rr_sq: sched_queue pq_inv "\<lambda>_ q. map (pt_task \<circ> snd) (pq_list q)"
  "\<lambda>q. image_mset pt_task (pq_elems q)" "\<lambda>K. K" prio_get_next_loop mem els cap S_PrioritizedRR
  k_rr "\<lambda>q K. K\<lparr>k_rr := Some q\<rparr>" for mem els cap
  by unfold_locales (auto simp: id_pow slot_put_other queued_def prio_queued_def kernel_ok_def)

interpretation gedf_sq: sched_queue "\<lambda>_. True" "\<lambda>_ h. map gt_task (bh_drain gedf_lt h)"
  "\<lambda>h. image_mset gt_task (mset h)" "\<lambda>K. K" "\<lambda>cpu ens h K. Inr (gedf_get_next_loop cpu ens h K)" mem els cap S_GEDF
  k_gedf "\<lambda>h K. K\<lparr>k_gedf := Some h\<rparr>" for mem els cap
  by unfold_locales (auto simp: id_pow slot_put_other queued_def gedf_queued_def kernel_ok_def)

interpretation panicked_sq: sched_queue "\<lambda>_. True" "\<lambda>_ q. q" mset "\<lambda>K. K"
  "\<lambda>cpu ens q K. Inr (panicked_get_next_loop cpu ens q K)" mem els cap S_Panicked
  k_panicked "\<lambda>q K. K\<lparr>k_panicked := Some q\<rparr>" for mem els cap
  by unfold_locales (auto simp: id_pow slot_put_other queued_def panicked_queued_def kernel_ok_def)

lemma count_out_pow: "(count_out ^^ n) K = K\<lparr>k_num_clustered := k_num_clustered K - word_of_nat n\<rparr>"
  by (induction n) (simp_all add: count_out_def algebra_simps)

lemma cedf_sched_queue:
  assumes "queue_ok P mem els cap"
  shows "sched_queue (cedf_entries_ok els cap n) (cedf_order mem els) (\<lambda>q. cedf_queued els (Some q)) count_out
    (\<lambda>cpu ens q K. returns (cedf_get_next_loop P cpu ens q K)) mem els cap S_ClusteredEDF
    (\<lambda>K. if k_num_cpu K = n then k_cedf K else None) (\<lambda>q K. K\<lparr>k_cedf := Some q\<rparr>)"
proof (intro sched_queue.intro cedf_run_queue[OF assms] sched_queue_axioms.intro, goal_cases)
  case (6 s cpu h m K)
  then show ?case by (simp add: count_out_pow slot_put_other)
next
  case (9 K h h' M)
  then have "k_cedf K = Some h" "k_num_cpu K = n" by (simp_all split: if_splits)
  moreover have "size (cedf_queued els (Some h)) = size M + size (cedf_queued els (Some h'))" using 9(4) by simp
  ultimately show ?case using 9(1,3) by (simp add: count_out_pow kernel_ok_def cedf_entries_ok_def)
qed (auto simp: count_out_pow count_out_def queued_def kernel_ok_def cedf_entries_ok_def split: if_splits)

section \<open>The order of dispatch\<close>

definition gave ::
    "('m \<Rightarrow> nat set) \<Rightarrow> ('q \<Rightarrow> (edf_key \<times> 'm \<times> nat option) list) \<Rightarrow> ('q \<Rightarrow> usize) \<Rightarrow> scheduler_ref list \<Rightarrow> usize \<Rightarrow> bool \<Rightarrow>
     nat list \<Rightarrow> nat option \<Rightarrow> ('m, 'q) kernel \<Rightarrow> ('m, 'q) kernel \<Rightarrow> bool" where
  "gave mem els cap ss cpu ens D res K K' \<longleftrightarrow>
     took mem els cap (set ss) cpu ens D res K K'
     \<and> concat (map (\<lambda>s. slot_list mem els s cpu K) ss) = D @ opt_list res @ concat (map (\<lambda>s. slot_list mem els s cpu K') ss)
     \<and> (res = None \<longrightarrow> concat (map (\<lambda>s. slot_list mem els s cpu K') ss) = [])"

lemma took_refl: "kernel_ok els cap K \<Longrightarrow> took mem els cap S cpu ens [] None K K"
  by (simp add: took_def claimed_def)

lemma sched_get_next_result:
  assumes "queue_ok P mem els cap" "kernel_ok els cap K"
  shows "\<exists>D res K'. sched_get_next P S cpu ens K = Inr (res, K') \<and> gave mem els cap [S] cpu ens D res K K'"
proof (cases S)
  case S_ClusteredEDF
  note taken = sched_queue.taken[OF cedf_sched_queue[OF assms(1), of "k_num_cpu K"] assms(2)]
  show ?thesis
    using taken[of _ cpu ens] took_refl[OF assms(2)]
    by (cases "k_cedf K") (fastforce simp: S_ClusteredEDF gave_def cedf_get_next_def)+
next
  case S_GEDF
  then show ?thesis
    using gedf_sq.taken[OF assms(2), of _ cpu ens mem] took_refl[OF assms(2)]
    by (cases "k_gedf K") (fastforce simp: gave_def gedf_get_next_def)+
next
  case S_PrioritizedFIFO
  then show ?thesis
    using fifo_sq.taken[OF assms(2), of _ cpu ens mem] took_refl[OF assms(2)]
    by (cases "k_fifo K") (fastforce simp: gave_def fifo_get_next_def)+
next
  case S_PrioritizedRR
  then show ?thesis
    using rr_sq.taken[OF assms(2), of _ cpu ens mem] took_refl[OF assms(2)]
    by (cases "k_rr K") (fastforce simp: gave_def rr_get_next_def)+
next
  case S_Panicked
  then show ?thesis
    using panicked_sq.taken[OF assms(2), of _ cpu ens mem] took_refl[OF assms(2)]
    by (cases "k_panicked K") (fastforce simp: gave_def panicked_get_next_def)+
qed

lemma took_trans:
  assumes "took mem els cap S cpu ens D None K K1" "took mem els cap S' cpu ens D' res K1 K2"
  shows "took mem els cap (S \<union> S') cpu ens (D @ D') res K K2"
proof -
  have "dead K1 = dead K" using assms(1) by (simp add: took_def claimed_def dead_def fun_eq_iff)
  moreover have "claimed cpu ens res K1 K2 = claimed cpu ens res K K2"
    using assms(1) \<open>dead K1 = dead K\<close> by (cases res) (simp_all add: took_def claimed_def)
  ultimately show ?thesis using assms by (auto simp: took_def)
qed

lemma gave_same:
  assumes "gave mem els cap [S] cpu ens D res K K1" "S \<notin> set gs"
  shows "map (\<lambda>s. slot_list mem els s cpu K1) gs = map (\<lambda>s. slot_list mem els s cpu K) gs"
  using assms by (auto simp: gave_def took_def)

lemma gave_some:
  assumes "gave mem els cap [S] cpu ens D (Some r) K K1" "S \<notin> set gs"
  shows "gave mem els cap (S # gs) cpu ens D (Some r) K K1"
proof -
  have "took mem els cap (set (S # gs)) cpu ens D (Some r) K K1" using assms(1) by (auto simp: gave_def took_def)
  then show ?thesis using assms(1) by (simp add: gave_def gave_same[OF assms])
qed

lemma gave_none:
  assumes "gave mem els cap [S] cpu ens D1 None K K1" "gave mem els cap gs cpu ens D2 res K1 K2" "S \<notin> set gs"
  shows "gave mem els cap (S # gs) cpu ens (D1 @ D2) res K K2"
proof -
  have "took mem els cap (set (S # gs)) cpu ens (D1 @ D2) res K K2"
    using took_trans[of mem els cap "{S}" cpu ens D1 K K1 "set gs"] assms(1,2) by (simp only: gave_def list.set) simp
  moreover have "slot_list mem els S cpu K2 = []" using assms by (simp add: gave_def took_def)
  ultimately show ?thesis using assms(1,2) by (simp add: gave_def gave_same[OF assms(1,3)])
qed

lemma gave_ok: "gave mem els cap ss cpu ens D res K K' \<Longrightarrow> kernel_ok els cap K'"
  by (simp add: gave_def took_def)

lemma find_next_result:
  assumes "queue_ok P mem els cap" "kernel_ok els cap K" "distinct (map get_scheduler ss)"
  shows "\<exists>D res K'. find_next P ss cpu ens K = Inr (res, K') \<and> gave mem els cap (map get_scheduler ss) cpu ens D res K K'"
  using assms(2,3)
proof (induction ss arbitrary: K)
  case Nil
  then show ?case using took_refl[OF Nil(1)] by (auto simp: gave_def)
next
  case (Cons s ss)
  define gs where "gs = map get_scheduler ss"
  let ?S = "get_scheduler s"
  have S: "?S \<notin> set gs" "map get_scheduler (s # ss) = ?S # gs" using Cons.prems(2) by (simp_all add: gs_def)
  obtain D1 res1 K1 where 1: "sched_get_next P ?S cpu ens K = Inr (res1, K1)" "gave mem els cap [?S] cpu ens D1 res1 K K1"
    using sched_get_next_result[OF assms(1) Cons.prems(1)] by blast
  show ?case
  proof (cases res1)
    case (Some r)
    then show ?thesis using 1(1) gave_some[OF 1(2)[unfolded Some] S(1)] unfolding S by auto
  next
    case None
    obtain D2 res2 K2 where 2: "find_next P ss cpu ens K1 = Inr (res2, K2)" "gave mem els cap gs cpu ens D2 res2 K1 K2"
      using Cons.IH[OF gave_ok[OF 1(2)]] Cons.prems(2) by (auto simp: gs_def)
    show ?thesis using 1(1) 2(1) None gave_none[OF 1(2)[unfolded None] 2(2) S(1)] unfolding S by auto
  qed
qed

text \<open>
  The tasks that \<open>get_next_task\<close> can give to a CPU, in the order in which it gives them: scheduler by
  scheduler in the order of \<open>PRIORITY_LIST\<close>.
\<close>

definition ready ::
    "('m \<Rightarrow> nat set) \<Rightarrow> ('q \<Rightarrow> (edf_key \<times> 'm \<times> nat option) list) \<Rightarrow> usize \<Rightarrow> ('m, 'q) kernel \<Rightarrow> nat list" where
  "ready mem els cpu K =
     concat (map (\<lambda>s. slot_list mem els s cpu K) [S_ClusteredEDF, S_GEDF, S_PrioritizedFIFO, S_PrioritizedRR, S_Panicked])"

lemma priority_list_split:
  "map get_scheduler (take (Suc 0) (PRIORITY_LIST P)) = [S_ClusteredEDF]"
  "map get_scheduler (drop (Suc 0) (PRIORITY_LIST P)) =
     [S_GEDF, S_PrioritizedFIFO, S_PrioritizedRR, S_Panicked]"
  by (simp_all add: PRIORITY_LIST_def)

lemma gave_uncount:
  "gave mem els cap ss cpu ens D res K (K'\<lparr>k_num_task_in_queue := n\<rparr>) = gave mem els cap ss cpu ens D res K K'"
proof -
  have "slot_list mem els s cpu (K'\<lparr>k_num_task_in_queue := n\<rparr>) = slot_list mem els s cpu K'" for s
    by (cases s) simp_all
  then show ?thesis by (cases res) (simp_all add: gave_def took_def claimed_def kernel_ok_def queued_def)
qed

lemma no_clustered:
  assumes "kernel_ok els cap K" "size (cedf_queued els (k_cedf K)) < 2 ^ 32" "\<not> k_num_clustered K > 0"
  shows "gave mem els cap [S_ClusteredEDF] cpu ens [] None K K"
proof -
  have "word_of_nat (size (cedf_queued els (k_cedf K))) = (0 :: u32)"
    using assms(1,3) by (simp add: kernel_ok_def word_gt_0)
  then have "unat (word_of_nat (size (cedf_queued els (k_cedf K))) :: u32) = 0" by simp
  then have "size (cedf_queued els (k_cedf K)) = 0" using assms(2) by (simp add: unat_of_nat)
  then have "slot_list mem els S_ClusteredEDF cpu K = []"
    using assms(1)
    by (auto simp: kernel_ok_def cedf_queued_def cedf_order_def map_filter_def filter_empty_conv split: option.splits)
  then show ?thesis using took_refl[OF assms(1)] by (simp add: gave_def)
qed

lemma get_next_task_gave:
  assumes "queue_ok P mem els cap" "kernel_ok els cap K" "size (cedf_queued els (k_cedf K)) < 2 ^ 32"
  shows "\<exists>D res K'. get_next_task P cpu ens K = Inr (res, K')
    \<and> gave mem els cap [S_ClusteredEDF, S_GEDF, S_PrioritizedFIFO, S_PrioritizedRR, S_Panicked] cpu ens D res K K'"
proof -
  let ?cl = "find_next P (take (get_num_clustered_schedulers P) (PRIORITY_LIST P)) cpu ens"
  let ?gl = "find_next P (drop (get_num_clustered_schedulers P) (PRIORITY_LIST P)) cpu ens"
  let ?G = "[S_GEDF, S_PrioritizedFIFO, S_PrioritizedRR, S_Panicked]"
  obtain D1 res1 K1 where 1: "(if k_num_clustered K > 0 then ?cl K else Inr (None, K)) = Inr (res1, K1)"
    "gave mem els cap [S_ClusteredEDF] cpu ens D1 res1 K K1"
  proof (cases "k_num_clustered K > 0")
    case True
    then show ?thesis
      using find_next_result[OF assms(1,2), of "take (Suc 0) (PRIORITY_LIST P)" cpu ens] that
      by (auto simp: priority_list_split)
  next
    case False
    then show ?thesis using no_clustered[OF assms(2,3) False] that by (simp; blast)
  qed
  show ?thesis
  proof (cases res1)
    case (Some r)
    then show ?thesis
      using 1(1) gave_some[OF 1(2)[unfolded Some], of ?G]
      by (intro exI[of _ D1] exI[of _ "Some r"] exI[of _ K1]) (simp add: get_next_task_def)
  next
    case None
    obtain D2 res2 K2 where 2: "?gl K1 = Inr (res2, K2)" "gave mem els cap ?G cpu ens D2 res2 K1 K2"
      using find_next_result[OF assms(1) gave_ok[OF 1(2)], of "drop (Suc 0) (PRIORITY_LIST P)" cpu ens]
      by (auto simp: priority_list_split)
    have "gave mem els cap (S_ClusteredEDF # ?G) cpu ens (D1 @ D2) res2 K K2"
      by (rule gave_none[OF 1(2)[unfolded None] 2(2)]) simp
    then show ?thesis using 1(1) 2(1) None by (cases res2) (auto simp: get_next_task_def gave_uncount)
  qed
qed

end
