(* ===== verification/Runtime_Wake.thy ===== *)
theory Runtime_Wake
  imports Executor Run_Queue
begin

text \<open>
  Waking a task. What the schedulers leave unchanged (\<open>wake_frame\<close>), when a wake returns without a
  panic (\<open>wakeable\<close>, \<open>running_known\<close>), and that the woken task is then queued exactly once. The state
  of the runtime at boot is \<open>boot_kernel\<close>, from which the examples start.
\<close>

section \<open>The state at boot\<close>

definition null_task :: "'m task" where
  "null_task = \<lparr>t_id = 0, t_name = [], t_future = \<lparr>f_locked = False, f_terminated = False\<rparr>,
     t_info = \<lparr>ti_state = Initialized, ti_scheduler_type = PrioritizedFIFO 0, ti_num_preempt = 0,
       ti_last_executed_time = 0, ti_absolute_deadline = None, ti_need_sched = False,
       ti_need_preemption = False, ti_panicked = False, ti_dag_info = None, ti_thread = None\<rparr>,
     t_scheduler = S_PrioritizedFIFO, t_priority = 0, t_cpu_set = None\<rparr>"

text \<open>The initial values of the statics. The heap has no live address yet.\<close>

definition boot_kernel :: "usize \<Rightarrow> bool \<Rightarrow> ('m, 'q) kernel" where
  "boot_kernel num_cpu preempt = \<lparr>
     k_num_cpu = num_cpu, k_preemption_enabled = preempt, k_now = 0, k_heap = (\<lambda>_. null_task), k_next_ref = 0,
     k_candidate_id = 0, k_id_to_task = [], k_tasks_locked = False, k_running = (\<lambda>_. 0), k_num_task_in_queue = 0,
     k_num_clustered = 0, k_preemption_request = (\<lambda>_. False), k_pending = [], k_fifo = None, k_rr = None,
     k_gedf = None, k_cedf = None, k_panicked = None, k_thread_pool = (\<lambda>_. []), k_preempted = (\<lambda>_. []),
     k_next_task = (\<lambda>_. []), k_num_preemption = 0, k_threads_pooled = [], k_threads_running = [],
     k_dags = empty_dag_store, k_ipis = [], k_wakes = []\<rparr>"

lemma boot_kernel_ok: "kernel_ok els cap (boot_kernel n p)"
  by (simp add: kernel_ok_def boot_kernel_def cedf_queued_def btm_inv_def)

section \<open>What a wake leaves unchanged\<close>

definition wake_frame :: "('m, 'q) kernel \<Rightarrow> ('m, 'q) kernel \<Rightarrow> bool" where
  "wake_frame K K' \<longleftrightarrow>
     k_running K' = k_running K \<and> k_id_to_task K' = k_id_to_task K \<and> k_num_cpu K' = k_num_cpu K
     \<and> k_preemption_enabled K' = k_preemption_enabled K \<and> k_now K' = k_now K
     \<and> k_preempted K' = k_preempted K \<and> k_next_task K' = k_next_task K \<and> k_thread_pool K' = k_thread_pool K
     \<and> k_threads_running K' = k_threads_running K \<and> k_threads_pooled K' = k_threads_pooled K
     \<and> (\<forall>x. t_id (k_heap K' x) = t_id (k_heap K x) \<and> t_scheduler (k_heap K' x) = t_scheduler (k_heap K x)
          \<and> t_cpu_set (k_heap K' x) = t_cpu_set (k_heap K x) \<and> t_future (k_heap K' x) = t_future (k_heap K x)
          \<and> ti_state (info K' x) = ti_state (info K x) \<and> ti_scheduler_type (info K' x) = ti_scheduler_type (info K x)
          \<and> ti_need_sched (info K' x) = ti_need_sched (info K x) \<and> ti_thread (info K' x) = ti_thread (info K x)
          \<and> ti_panicked (info K' x) = ti_panicked (info K x) \<and> ti_dag_info (info K' x) = ti_dag_info (info K x))"

lemma wake_frame_refl [simp]: "wake_frame K K"
  by (simp add: wake_frame_def)

lemma wake_frame_trans: "wake_frame K K1 \<Longrightarrow> wake_frame K1 K2 \<Longrightarrow> wake_frame K K2"
  by (simp add: wake_frame_def)

lemma wake_frame_queue:
  "wake_frame K (K'\<lparr>k_fifo := a\<rparr>) = wake_frame K K'" "wake_frame K (K'\<lparr>k_rr := a\<rparr>) = wake_frame K K'"
  "wake_frame K (K'\<lparr>k_gedf := b\<rparr>) = wake_frame K K'" "wake_frame K (K'\<lparr>k_panicked := c\<rparr>) = wake_frame K K'"
  "wake_frame K (K'\<lparr>k_num_clustered := n, k_cedf := d\<rparr>) = wake_frame K K'"
  by (simp_all add: wake_frame_def)

lemma request_frame: "request_preemption r t c K = Inr K' \<Longrightarrow> wake_frame K K'"
  by (auto simp: request_preemption_def set_need_preemption_def push_preemption_pending_def send_ipi_def
      upd_info_def Let_def wake_frame_def split: option.splits if_splits)

lemma invoke_frame:
  assumes "global_invoke_preemption r K = Inr (b, K') \<or> cedf_invoke_preemption P r K = Inr (b, K')"
  shows "wake_frame K K'"
  using assms by (elim disjE) (auto elim!: global_invoke_cases cedf_invoke_cases intro: request_frame)

lemma edf_deadline_frame:
  assumes "edf_deadline sp rd r K = Inr (w, d, K')"
  shows "wake_frame K K'"
proof -
  note e = edf_deadline_result[OF assms]
  define h where "h = k_heap K' r"
  obtain D where "K' = K\<lparr>k_dags := D, k_heap := (k_heap K)(r := h)\<rparr>" using e(1) h_def by blast
  then show ?thesis using e(4-7,9) by (simp add: wake_frame_def flip: h_def)
qed

lemma sched_wake_frame:
  assumes "sched_wake_task P s r K = Inr K'"
  shows "wake_frame K K'"
proof (cases s)
  case S_ClusteredEDF
  then have "cedf_wake_task P r K = Inr K'" using assms by simp
  then show ?thesis
  proof (cases rule: cedf_wake_cases)
    case (preempt rd m w d K1)
    then show ?thesis using wake_frame_trans[OF edf_deadline_frame invoke_frame] by blast
  next
    case (push rd m m' w d K1 q)
    then show ?thesis using edf_deadline_frame[OF push(2)] by (simp add: wake_frame_queue)
  qed
next
  case S_GEDF
  then have "gedf_wake_task P r K = Inr K'" using assms by simp
  then show ?thesis
  proof (cases rule: gedf_wake_cases)
    case (preempt rd w d K1)
    then show ?thesis using wake_frame_trans[OF edf_deadline_frame invoke_frame] by blast
  next
    case (push rd w d K1)
    then show ?thesis using edf_deadline_frame[OF push(2)] by (simp add: wake_frame_queue)
  qed
next
  case S_PrioritizedFIFO
  then have "fifo_wake_task r K = Inr K'" using assms by simp
  then show ?thesis by (cases rule: fifo_wake_cases) (auto simp: wake_frame_queue intro: invoke_frame[OF disjI1])
next
  case S_PrioritizedRR
  then have "rr_wake_task r K = Inr K'" using assms by simp
  then show ?thesis by (cases rule: rr_wake_cases) (auto simp: wake_frame_queue intro: invoke_frame[OF disjI1])
next
  case S_Panicked
  then show ?thesis using assms by (auto simp: panicked_wake_task_def wake_frame_queue)
qed

section \<open>Progress\<close>

text \<open>Every CPU that runs a task runs one of the task table.\<close>

definition running_known :: "('m, 'q) kernel \<Rightarrow> bool" where
  "running_known K \<longleftrightarrow> (\<forall>c. k_running K c \<noteq> 0 \<longrightarrow> btm_get (k_id_to_task K) (k_running K c) \<noteq> None)"

text \<open>
  The scheduler of the task is the one of its scheduler type, its absolute deadline fits in the 56
  bits of the task priority, and its CPU set is a nonempty set of workers.
\<close>

definition edf_ready :: "('m, 'q) kernel \<Rightarrow> nat \<Rightarrow> u64 \<Rightarrow> bool" where
  "edf_ready K r d \<longleftrightarrow> ti_dag_info (info K r) = None \<and> uptime K + d \<le> MAX_TASK_PRIORITY"

definition wakeable :: "('m \<Rightarrow> nat set) \<Rightarrow> ('m, 'q) kernel \<Rightarrow> nat \<Rightarrow> bool" where
  "wakeable mem K r \<longleftrightarrow>
     (case t_scheduler (k_heap K r) of
        S_PrioritizedFIFO \<Rightarrow> (case ti_scheduler_type (info K r) of PrioritizedFIFO p \<Rightarrow> True | _ \<Rightarrow> False)
      | S_PrioritizedRR \<Rightarrow> (case ti_scheduler_type (info K r) of PrioritizedRR p \<Rightarrow> True | _ \<Rightarrow> False)
      | S_GEDF \<Rightarrow> (case ti_scheduler_type (info K r) of GEDF d \<Rightarrow> edf_ready K r d | _ \<Rightarrow> False)
      | S_ClusteredEDF \<Rightarrow>
          (case (ti_scheduler_type (info K r), t_cpu_set (k_heap K r)) of
             (ClusteredEDF d _, Some m) \<Rightarrow> edf_ready K r d \<and> mem m \<noteq> {} \<and> mem m \<subseteq> {1..<k_num_cpu K}
           | _ \<Rightarrow> False)
      | S_Panicked \<Rightarrow> True)"

lemma iter_min_by_Some: "xs \<noteq> [] \<Longrightarrow> \<exists>m. iter_min_by lt xs = Some m"
  by (cases xs) (auto simp: iter_min_by_def)

lemma request_progress: "\<not> k_tasks_locked K \<Longrightarrow> \<exists>K'. request_preemption r t c K = Inr K'"
  by (auto simp: request_preemption_def set_need_preemption_def push_preemption_pending_def Let_def)

lemma map_rust_progress: "(\<And>x. x \<in> set xs \<Longrightarrow> \<exists>y. f x = Inr y) \<Longrightarrow> \<exists>ys. map_rust f xs = Inr ys"
proof (induction xs)
  case (Cons x xs)
  then have "\<exists>y. f x = Inr y" "\<exists>ys. map_rust f xs = Inr ys" by auto
  then show ?case by auto
qed simp

lemma cpu_target_progress:
  assumes "\<not> k_tasks_locked K" "running_known K" "rt \<in> set (get_tasks_running K)" "snd rt \<noteq> 0"
  shows "\<exists>t. cpu_target K rt = Inr (Some t)"
proof -
  have "snd rt = k_running K (fst rt)" using assms(3) by (auto simp: get_tasks_running_def)
  then obtain t where "btm_get (k_id_to_task K) (snd rt) = Some t" using assms(2,4) by (auto simp: running_known_def)
  then show ?thesis using assms(1) by (simp add: cpu_target_def get_task_def)
qed

lemma global_invoke_progress:
  assumes "\<not> k_tasks_locked K" "running_known K"
  shows "\<exists>b K'. global_invoke_preemption r K = Inr (b, K')"
proof -
  define rts where "rts = filter (\<lambda>rt. snd rt \<noteq> 0) (get_tasks_running K)"
  have tgt: "\<exists>t. cpu_target K rt = Inr (Some t)" if "rt \<in> set rts" for rt
    using that cpu_target_progress[OF assms] by (simp add: rts_def)
  have "\<exists>ts. map_rust (cpu_target K) rts = Inr ts" by (rule map_rust_progress) (drule tgt, elim exE, rule exI)
  then obtain ts where ts: "map_rust (cpu_target K) rts = Inr ts" by (elim exE)
  have "\<exists>tc. iter_min_by (target_lt K) (List.map_filter (\<lambda>t. t) ts) = Some tc" if "rts \<noteq> []"
  proof (rule iter_min_by_Some)
    obtain rt rest where rt: "rts = rt # rest" using \<open>rts \<noteq> []\<close> by (cases rts) simp_all
    obtain t where "cpu_target K rt = Inr (Some t)" using tgt[of rt] rt by auto
    then show "List.map_filter (\<lambda>t. t) ts \<noteq> []"
      using ts rt by (auto simp: and_then_Inr_iff List.map_filter_simps)
  qed
  then obtain t c where tc: "rts \<noteq> [] \<Longrightarrow> iter_min_by (target_lt K) (List.map_filter (\<lambda>t. t) ts) = Some (t, c)"
    by (metis surj_pair)
  obtain K' where K': "request_preemption r t c K = Inr K'" using request_progress[OF assms(1)] by blast
  have "global_invoke_preemption r K =
      (if \<not> k_preemption_enabled K \<or> rts = [] \<or> (\<exists>rt \<in> set rts. snd rt = task_id K r) then Inr (False, K)
       else if preempts K r t then Inr (True, K') else Inr (False, K))"
    using tc by (cases "rts = []") (simp_all add: global_invoke_preemption_def Let_def ts K' flip: rts_def)
  then show ?thesis by (simp split: if_split) blast
qed

lemma cedf_victim_progress:
  assumes "\<not> k_tasks_locked K"
  shows "\<exists>v'. cedf_victim K r cpus v = Inr v'"
proof (induction cpus arbitrary: v)
  case (Cons c cpus)
  then obtain g where "\<And>v. cedf_victim K r cpus v = Inr (g v)" by metis
  then show ?case using assms by (simp add: get_task_running_def get_task_def Let_def split: option.split)
qed simp

lemma cedf_invoke_progress:
  assumes "\<not> k_tasks_locked K" "t_cpu_set (k_heap K r) = Some m"
  shows "\<exists>b K'. cedf_invoke_preemption P r K = Inr (b, K')"
proof -
  obtain v where "cedf_victim K r (cm_iter P m) None = Inr v" using cedf_victim_progress[OF assms(1)] by blast
  moreover have "\<exists>b K'. (if preempts K r t then and_then (request_preemption r t c K) (\<lambda>K. Inr (True, K)) else Inr (False, K)) = Inr (b, K')"
    for t c using request_progress[OF assms(1), of r t c] by auto
  ultimately show ?thesis using assms(2) by (cases "k_preemption_enabled K") (simp add: cedf_invoke_preemption_def split: option.split prod.split; blast)+
qed

lemma edf_deadline_progress:
  assumes "edf_ready K r d"
  shows "\<exists>w a K'. edf_deadline sp d r K = Inr (w, a, K')"
proof -
  have "MAX_TASK_PRIORITY - (uptime K + d) \<le> MAX_TASK_PRIORITY"
    using assms by (simp add: edf_ready_def word_le_nat_alt unat_sub)
  then obtain p where "combine_priority sp (MAX_TASK_PRIORITY - (uptime K + d)) = Inr p"
    using combine_priority_some by blast
  then show ?thesis using assms by (simp add: edf_deadline_def edf_ready_def update_priority_info_def Let_def)
qed

lemma prio_push_progress:
  assumes "\<And>q. oq = Some q \<Longrightarrow> pq_inv q"
  shows "\<exists>q'. pq_push (case oq of Some q \<Rightarrow> q | None \<Rightarrow> pq_new) p x = Inr q'"
proof -
  have "pq_inv (case oq of Some q \<Rightarrow> q | None \<Rightarrow> pq_new)"
    using assms by (auto simp: pq_inv_new split: option.splits)
  then show ?thesis using pq_push_refines[of _ p x] by metis
qed

lemma frame_known: "wake_frame K K' \<Longrightarrow> running_known K' = running_known K"
  by (simp add: wake_frame_def running_known_def)

lemma kernel_ok_unlocked: "kernel_ok els cap K \<Longrightarrow> \<not> k_tasks_locked K"
  by (simp add: kernel_ok_def)

lemma fifo_wake_progress:
  assumes "kernel_ok els cap K" "running_known K" "ti_scheduler_type (info K r) = PrioritizedFIFO p"
  shows "\<exists>K'. fifo_wake_task r K = Inr K'"
proof -
  obtain b K1 where inv: "global_invoke_preemption r K = Inr (b, K1)"
    using global_invoke_progress[OF kernel_ok_unlocked[OF assms(1)] assms(2), of r] by (elim exE)
  then have "\<not> b \<Longrightarrow> K1 = K" using global_invoke_False[of r K K1] by simp
  then show ?thesis
    using prio_push_progress[of "k_fifo K" p "\<lparr>pt_task = r, pt_priority = p\<rparr>"] assms(1,3) inv
    by (cases b) (auto simp: fifo_wake_task_def fifo_invoke_preemption_def Let_def kernel_ok_def)
qed

lemma rr_wake_progress:
  assumes "kernel_ok els cap K" "running_known K" "ti_scheduler_type (info K r) = PrioritizedRR p"
  shows "\<exists>K'. rr_wake_task r K = Inr K'"
proof -
  obtain b K1 where inv: "global_invoke_preemption r K = Inr (b, K1)"
    using global_invoke_progress[OF kernel_ok_unlocked[OF assms(1)] assms(2), of r] by (elim exE)
  then have "\<not> b \<Longrightarrow> K1 = K" using global_invoke_False[of r K K1] by simp
  then show ?thesis
    using prio_push_progress[of "k_rr K" p "\<lparr>pt_task = r, pt_priority = p\<rparr>"] assms(1,3) inv
    by (cases b) (auto simp: rr_wake_task_def rr_invoke_preemption_wake_def Let_def kernel_ok_def)
qed

lemma gedf_wake_progress:
  assumes "kernel_ok els cap K" "running_known K" "ti_scheduler_type (info K r) = GEDF d" "edf_ready K r d"
  shows "\<exists>K'. gedf_wake_task P r K = Inr K'"
proof -
  obtain w a K1 where e: "edf_deadline 3 d r K = Inr (w, a, K1)" using edf_deadline_progress[OF assms(4), of 3] by (elim exE)
  have "running_known K1" "kernel_ok els cap K1"
    using assms(1,2) frame_known[OF edf_deadline_frame[OF e]] edf_deadline_keeps(2)[OF e] by simp_all
  then obtain b K2 where "global_invoke_preemption r K1 = Inr (b, K2)"
    using global_invoke_progress[of K1 r] kernel_ok_unlocked by blast
  then show ?thesis using e assms(3) by (simp add: gedf_wake_task_def gedf_invoke_preemption_def Let_def)
qed

lemma cedf_wake_progress:
  assumes "ext_ok P mem els cap" "kernel_ok els cap K" "ti_scheduler_type (info K r) = ClusteredEDF d m'" "edf_ready K r d"
    and m: "t_cpu_set (k_heap K r) = Some m" "mem m \<noteq> {}" "mem m \<subseteq> {1..<k_num_cpu K}"
  shows "\<exists>K'. cedf_wake_task P r K = Inr K'"
proof -
  have mask: "mask_ok P mem" and queue: "queue_ok P mem els cap" using assms(1) by (simp_all add: ext_ok_def)
  obtain w a K1 where e: "edf_deadline 4 d r K = Inr (w, a, K1)" using edf_deadline_progress[OF assms(4), of 4] by (elim exE)
  have K1: "kernel_ok els cap K1" "t_cpu_set (k_heap K1 r) = Some m" "k_num_cpu K1 = k_num_cpu K"
    using assms(2) m(1) edf_deadline_keeps(2,3)[OF e] edf_deadline_result(5)[OF e] by simp_all
  have ok: "\<not> cm_is_empty P m" "masked_workers P m (k_num_cpu K1) = m"
    using mask m(2,3) masked_workers_fixpoint[OF mask] by (simp_all add: mask_ok_def K1(3))
  obtain b K2 where inv: "cedf_invoke_preemption P r K1 = Inr (b, K2)"
    using cedf_invoke_progress[OF kernel_ok_unlocked[OF K1(1)] K1(2), of P] by (elim exE)
  show ?thesis
  proof (cases b)
    case True
    then show ?thesis using e assms(3) K1(2) ok inv by (simp add: cedf_wake_task_def)
  next
    case False
    then have "K2 = K1" using inv cedf_invoke_False[of P r K1 K2] by simp
    define q0 where "q0 = (case k_cedf K1 of Some q \<Rightarrow> q | None \<Rightarrow> bq_new P (k_num_cpu K1))"
    have "cap q0 = k_num_cpu K"
      using K1(1,3) bq_new_law[OF queue, of "k_num_cpu K1"] by (cases "k_cedf K1") (simp_all add: q0_def kernel_ok_def)
    then have "mem m \<subseteq> {..<cap q0}" using m(3) by auto
    then obtain q where "bq_push P q0 (a, w) m (Some r) = Some q"
      using bq_push_accepts[OF queue m(2), of q0 "(a, w)" "Some r"] by auto
    then show ?thesis using e assms(3) K1(2) ok inv False
      by (simp add: cedf_wake_task_def Let_def clustered_new_def \<open>K2 = K1\<close> flip: q0_def)
  qed
qed

lemma sched_wake_progress:
  assumes "ext_ok P mem els cap" "kernel_ok els cap K" "running_known K" "wakeable mem K r"
  shows "\<exists>K'. sched_wake_task P (t_scheduler (k_heap K r)) r K = Inr K'"
proof (cases "t_scheduler (k_heap K r)")
  case S_ClusteredEDF
  then obtain d m' m where "ti_scheduler_type (info K r) = ClusteredEDF d m'" "t_cpu_set (k_heap K r) = Some m"
    "edf_ready K r d" "mem m \<noteq> {}" "mem m \<subseteq> {1..<k_num_cpu K}"
    using assms(4) by (auto simp: wakeable_def split: scheduler_type.splits option.splits)
  then show ?thesis using cedf_wake_progress[OF assms(1,2)] S_ClusteredEDF by simp
next
  case S_GEDF
  then obtain d where "ti_scheduler_type (info K r) = GEDF d" "edf_ready K r d"
    using assms(4) by (auto simp: wakeable_def split: scheduler_type.splits)
  then show ?thesis using gedf_wake_progress[OF assms(2,3)] S_GEDF by simp
next
  case S_PrioritizedFIFO
  then obtain p where "ti_scheduler_type (info K r) = PrioritizedFIFO p"
    using assms(4) by (auto simp: wakeable_def split: scheduler_type.splits)
  then show ?thesis using fifo_wake_progress[OF assms(2,3)] S_PrioritizedFIFO by simp
next
  case S_PrioritizedRR
  then obtain p where "ti_scheduler_type (info K r) = PrioritizedRR p"
    using assms(4) by (auto simp: wakeable_def split: scheduler_type.splits)
  then show ?thesis using rr_wake_progress[OF assms(2,3)] S_PrioritizedRR by simp
next
  case S_Panicked
  then show ?thesis by (simp add: panicked_wake_task_def)
qed

lemma wake_result:
  assumes "ext_ok P mem els cap" "kernel_ok els cap K" "running_known K" "wakeable mem K r"
  shows "\<exists>K'. sched_wake_task P (t_scheduler (k_heap K r)) r K = Inr K' \<and> kernel_ok els cap K'
    \<and> queued els K' = add_mset r (queued els K) \<and> wake_frame K K'"
proof -
  obtain K' where K': "sched_wake_task P (t_scheduler (k_heap K r)) r K = Inr K'"
    using sched_wake_progress[OF assms] by (elim exE)
  then show ?thesis using sched_wake_conserves[OF assms(1) K' assms(2)] sched_wake_frame[OF K'] by auto
qed

lemma wakeable_cong:
  assumes "t_scheduler (k_heap K' r) = t_scheduler (k_heap K r)" "ti_scheduler_type (info K' r) = ti_scheduler_type (info K r)"
    "ti_dag_info (info K' r) = ti_dag_info (info K r)" "t_cpu_set (k_heap K' r) = t_cpu_set (k_heap K r)"
    "k_num_cpu K' = k_num_cpu K" "k_now K' = k_now K"
  shows "wakeable mem K' r = wakeable mem K r"
  unfolding wakeable_def edf_ready_def uptime_def assms ..

lemma upd_info_frame [simp]:
  "kernel_ok els cap (upd_info r f K) = kernel_ok els cap K" "queued els (upd_info r f K) = queued els K"
  "running_known (upd_info r f K) = running_known K"
  by (simp_all add: upd_info_def kernel_ok_def queued_def running_known_def)

lemma task_wake_result:
  assumes "ext_ok P mem els cap" "kernel_ok els cap K" "running_known K" "wakeable mem K r"
    and st: "ti_state (info K r) = Waiting \<or> ti_state (info K r) = Initialized" "\<not> ti_panicked (info K r)"
  shows "\<exists>K'. task_wake P r K = Inr K' \<and> kernel_ok els cap K' \<and> queued els K' = add_mset r (queued els K)
    \<and> ti_state (info K' r) = Runnable \<and> ti_need_sched (info K' r) = ti_need_sched (info K r)
    \<and> k_running K' = k_running K \<and> k_id_to_task K' = k_id_to_task K \<and> hd (k_wakes K') = 0
    \<and> (\<forall>x. t_id (k_heap K' x) = t_id (k_heap K x) \<and> t_cpu_set (k_heap K' x) = t_cpu_set (k_heap K x)
         \<and> ti_scheduler_type (info K' x) = ti_scheduler_type (info K x))"
proof -
  define K1 where "K1 = upd_info r (\<lambda>i. i\<lparr>ti_state := Runnable\<rparr>) K"
  define K2 where "K2 = (if is_none (t_cpu_set (k_heap K1 r)) then K1\<lparr>k_num_task_in_queue := k_num_task_in_queue K1 + 1\<rparr> else K1)"
  have "kernel_ok els cap K2 = kernel_ok els cap K1" "queued els K2 = queued els K1" "running_known K2 = running_known K1"
    by (simp_all add: K2_def kernel_ok_def queued_def running_known_def)
  then have K2: "kernel_ok els cap K2" "queued els K2 = queued els K" "running_known K2"
    using assms(2,3) by (simp_all add: K1_def)
  have heap: "k_heap K2 = (k_heap K)(r := (k_heap K r)\<lparr>t_info := (info K r)\<lparr>ti_state := Runnable\<rparr>\<rparr>)"
    "k_num_cpu K2 = k_num_cpu K" "k_now K2 = k_now K" "k_running K2 = k_running K" "k_id_to_task K2 = k_id_to_task K"
    by (simp_all add: K2_def K1_def upd_info_def)
  have "wakeable mem K2 r" using assms(4) wakeable_cong[of K2 r K] by (simp add: heap)
  then obtain K3 where K3: "sched_wake_task P (t_scheduler (k_heap K2 r)) r K2 = Inr K3" "kernel_ok els cap K3"
    "queued els K3 = add_mset r (queued els K2)" "wake_frame K2 K3"
    using wake_result[OF assms(1) K2(1,3)] by blast
  have "task_wake P r K = and_then (sched_wake_task P (t_scheduler (k_heap K2 r)) r K2) (\<lambda>K. Inr (wake_cpu 0 K))"
    using st by (auto simp: task_wake_def Let_def K2_def K1_def upd_info_def split: state.split)
  then have "task_wake P r K = Inr (wake_cpu 0 K3)" using K3(1) by simp
  then show ?thesis
    using K3 K2(2) by (auto simp: wake_cpu_def wake_frame_def heap kernel_ok_def queued_def)
qed

text \<open>A wake of a task that runs, is queued or is preempted only sets its flag.\<close>

lemma task_wake_flag:
  assumes "ti_state (info K r) \<in> {Running, Runnable, Preempted}"
  shows "task_wake P r K = Inr (upd_info r (\<lambda>i. i\<lparr>ti_need_sched := True\<rparr>) K)"
  using assms by (auto simp: task_wake_def)

text \<open>The end of a poll that returns \<open>Pending\<close>, when a wake has set the flag meanwhile.\<close>

lemma complete_pending:
  assumes "ext_ok P mem els cap" "kernel_ok els cap K" "running_known K" "wakeable mem K r" "\<not> ti_panicked (info K r)"
    and "k_running K cpu = task_id K r" "ti_need_sched (info K r)"
  shows "\<exists>K'. exec_complete P cpu r Poll_Pending K = Inr K' \<and> kernel_ok els cap K' \<and> queued els K' = add_mset r (queued els K)
    \<and> ti_state (info K' r) = Runnable \<and> \<not> ti_need_sched (info K' r) \<and> k_running K' cpu = 0"
proof -
  let ?t = "k_heap K r"
  define K1 where "K1 = set_current_task cpu 0
    (K\<lparr>k_heap := (k_heap K)(r := ?t\<lparr>t_future := \<lparr>f_locked = False, f_terminated = f_terminated (t_future ?t)\<rparr>\<rparr>)\<rparr>)"
  define K2 where "K2 = upd_info r (\<lambda>i. i\<lparr>ti_need_sched := False\<rparr>) (upd_info r (\<lambda>i. i\<lparr>ti_state := Waiting\<rparr>) K1)"
  have "kernel_ok els cap K1 = kernel_ok els cap K" "queued els K1 = queued els K"
    by (simp_all add: K1_def set_current_task_def kernel_ok_def queued_def)
  moreover have "running_known K1" using assms(3) by (simp add: K1_def set_current_task_def running_known_def)
  ultimately have K2: "kernel_ok els cap K2" "queued els K2 = queued els K" "running_known K2"
    using assms(2) by (simp_all add: K2_def)
  have "wakeable mem K2 r"
    using assms(4) wakeable_cong[of K2 r K] by (simp add: K2_def K1_def upd_info_def set_current_task_def)
  moreover have "ti_state (info K2 r) = Waiting" "\<not> ti_panicked (info K2 r)" "\<not> ti_need_sched (info K2 r)" "k_running K2 cpu = 0"
    using assms(5) by (simp_all add: K2_def K1_def upd_info_def set_current_task_def)
  ultimately have "\<exists>K'. task_wake P r K2 = Inr K' \<and> kernel_ok els cap K' \<and> queued els K' = add_mset r (queued els K2)
      \<and> ti_state (info K' r) = Runnable \<and> \<not> ti_need_sched (info K' r) \<and> k_running K' cpu = 0"
    using task_wake_result[OF assms(1) K2(1,3), of r] by fastforce
  moreover have "exec_complete P cpu r Poll_Pending K = task_wake P r K2"
    using assms(6,7) by (simp add: exec_complete_def Let_def K2_def K1_def set_current_task_def upd_info_def)
  ultimately show ?thesis using K2(2) by simp
qed

section \<open>Properties\<close>

definition sample_task :: "nat \<Rightarrow> nat fset task" where
  "sample_task r = null_task\<lparr>t_id := word_of_nat (r + 1), t_priority := word_of_nat (r + 1)\<rparr>"

text \<open>Two tasks; the first one runs on CPU 1.\<close>

definition sample_kernel :: "(nat fset, (edf_key \<times> nat fset \<times> nat option) list \<times> nat) kernel" where
  "sample_kernel = (boot_kernel 3 True)
     \<lparr>k_heap := sample_task, k_next_ref := 2, k_id_to_task := [(1, 0), (2, 1)], k_running := (\<lambda>c. if c = 1 then 1 else 0)\<rparr>"

lemma sample_kernel_ok: "kernel_ok fst snd sample_kernel"
  by (simp add: sample_kernel_def kernel_ok_def boot_kernel_def cedf_queued_def btm_inv_def)

lemma sample_running_known: "running_known sample_kernel"
  by (simp add: running_known_def sample_kernel_def btm_get_def)

lemma sample_wakeable: "wakeable fset sample_kernel r"
  by (simp add: wakeable_def sample_kernel_def sample_task_def null_task_def)



text \<open>
  C3. A wakeup that arrives while the task is being polled is not lost. If the task runs on the CPU
  and \<open>wake\<close> is called, nothing is queued at that moment; but when the poll then returns \<open>Pending\<close>, the
  end of the round queues the task exactly once, in the state \<open>Runnable\<close> and with the flag cleared.
\<close>

theorem wakeup_during_poll_not_lost:
  assumes "ext_ok P mem els cap" "kernel_ok els cap K" "running_known K" "wakeable mem K r"
    and "ti_state (info K r) = Running" "\<not> ti_panicked (info K r)" "k_running K cpu = task_id K r"
  shows "\<exists>K1 K2. task_wake P r K = Inr K1 \<and> queued els K1 = queued els K
    \<and> exec_complete P cpu r Poll_Pending K1 = Inr K2 \<and> kernel_ok els cap K2 \<and> queued els K2 = add_mset r (queued els K)
    \<and> ti_state (info K2 r) = Runnable \<and> \<not> ti_need_sched (info K2 r) \<and> k_running K2 cpu = 0"
proof -
  define K1 where "K1 = upd_info r (\<lambda>i. i\<lparr>ti_need_sched := True\<rparr>) K"
  have "wakeable mem K1 r" using assms(4) wakeable_cong[of K1 r K] by (simp add: K1_def upd_info_def)
  moreover have "k_running K1 cpu = task_id K1 r" "ti_need_sched (info K1 r)" "\<not> ti_panicked (info K1 r)"
    using assms(6,7) by (simp_all add: K1_def upd_info_def)
  ultimately show ?thesis
    using complete_pending[OF assms(1), of K1 r cpu] assms(2,3) task_wake_flag[of K r P] assms(5)
    by (auto simp: K1_def)
qed

theorem wakeup_during_poll_not_lost_witness:
  "\<exists>K1 K2. task_wake list_ops 0 (upd_info 0 (\<lambda>i. i\<lparr>ti_state := Running\<rparr>) sample_kernel) = Inr K1
    \<and> exec_complete list_ops 1 0 Poll_Pending K1 = Inr K2 \<and> 0 \<in># queued fst K2"
proof -
  let ?K = "upd_info 0 (\<lambda>i. i\<lparr>ti_state := Running\<rparr>) sample_kernel"
  have "wakeable fset ?K 0" using sample_wakeable wakeable_cong[of ?K 0 sample_kernel] by (simp add: upd_info_def)
  moreover have "ti_state (info ?K 0) = Running" "\<not> ti_panicked (info ?K 0)" "k_running ?K 1 = task_id ?K 0"
    by (simp_all add: upd_info_def sample_kernel_def sample_task_def null_task_def)
  ultimately show ?thesis
    using wakeup_during_poll_not_lost[OF list_ops_ok, of ?K 0 1] sample_kernel_ok sample_running_known by auto
qed

end
