(* ===== verification/Runtime_Spawn.thy ===== *)
theory Runtime_Spawn
  imports Runtime_Wake
begin

text \<open>
  Spawning a task: the identifier is fresh, the CPU set is normalized to worker CPUs, and the new task
  is queued exactly once. The function \<open>wake\<close> of \<open>task.rs\<close>, which holds the task table across the wake,
  is shown not to return when the wake has to look at a running task.
\<close>

text \<open>What the scheduler type of a new task must satisfy.\<close>

definition spawnable :: "('m, 'q) kernel \<Rightarrow> 'm scheduler_type \<Rightarrow> bool" where
  "spawnable K st \<longleftrightarrow>
     (case st of
        ClusteredEDF d _ \<Rightarrow> uptime K + d \<le> MAX_TASK_PRIORITY \<and> 2 \<le> k_num_cpu K
      | GEDF d \<Rightarrow> uptime K + d \<le> MAX_TASK_PRIORITY
      | _ \<Rightarrow> True)"

text \<open>The CPUs that a task of the scheduler type may use; \<open>None\<close> if it has no CPU set.\<close>

definition cpus_of :: "('m \<Rightarrow> nat set) \<Rightarrow> usize \<Rightarrow> 'm scheduler_type \<Rightarrow> nat set option" where
  "cpus_of mem n st =
     (case st of
        ClusteredEDF _ m \<Rightarrow> Some (if mem m \<inter> {1..<n} = {} then {1..<min n NUM_MAX_CPU} else mem m \<inter> {1..<n})
      | _ \<Rightarrow> None)"

lemma normalize_cpus:
  assumes "mask_ok P mem"
  shows "map_option mem (snd (normalize_cpu_set P n st)) = cpus_of mem n st"
  using mem_masked_workers[OF assms] mem_all_workers[OF assms] assms
  by (cases st) (auto simp: normalize_cpu_set_def cpus_of_def Let_def mask_ok_def)

lemma normalize_type:
  "get_scheduler (fst (normalize_cpu_set P n st)) = get_scheduler st"
  "initial_task_priority (fst (normalize_cpu_set P n st)) = initial_task_priority st"
  by (cases st; simp add: normalize_cpu_set_def initial_task_priority_def Let_def)+

lemma initial_priority_fits: "initial_task_priority st \<le> MAX_TASK_PRIORITY"
proof -
  have "ucast p \<le> MAX_TASK_PRIORITY" for p :: u8
  proof -
    have "unat p < 2 ^ LENGTH(8)" by (rule unsigned_less)
    then show ?thesis by (simp add: MAX_TASK_PRIORITY_def word_le_nat_alt unsigned_ucast_eq take_bit_nat_eq_self)
  qed
  then show ?thesis by (cases st) (simp_all add: initial_task_priority_def)
qed

lemma sched_priority_some: "\<exists>sp. sched_priority P s = Inr sp"
  by (cases s) simp_all

lemma find_task_id_fresh:
  assumes "card {i. used i} < 2 ^ 32 - 1"
  shows "\<exists>i. find_task_id used cid = Some i \<and> \<not> used i \<and> i \<noteq> 0"
proof -
  obtain f where f: "\<not> used f" "f \<noteq> 0" using free_id_exists[OF assms] by auto
  have "max cid 1 \<noteq> 0" by (rule max_one_nonzero)
  then show ?thesis using find_dag_id_returns[of used f "max cid 1"] find_task_id_eq[of used f cid] f by auto
qed

lemma tasks_spawn_result:
  assumes "kernel_ok els cap K" "card {i. btm_contains_key (k_id_to_task K) i} < 2 ^ 32 - 1"
  obtains tid K' t where "tasks_spawn P name s st di K = Inr (tid, K')" "tid \<noteq> 0" "btm_get (k_id_to_task K) tid = None"
    "K' = K\<lparr>k_heap := (k_heap K)(k_next_ref K := t), k_next_ref := Suc (k_next_ref K), k_candidate_id := tid,
            k_id_to_task := btm_insert (k_id_to_task K) tid (k_next_ref K)\<rparr>"
    "t_id t = tid" "t_scheduler t = s" "ti_scheduler_type (t_info t) = fst (normalize_cpu_set P (k_num_cpu K) st)"
    "t_cpu_set t = snd (normalize_cpu_set P (k_num_cpu K) st)" "ti_state (t_info t) = Initialized"
    "\<not> ti_panicked (t_info t)" "ti_dag_info (t_info t) = di" "\<not> ti_need_sched (t_info t)"
proof -
  obtain tid where tid: "find_task_id (btm_contains_key (k_id_to_task K)) (k_candidate_id K) = Some tid"
    "\<not> btm_contains_key (k_id_to_task K) tid" "tid \<noteq> 0" using find_task_id_fresh[OF assms(2)] by blast
  obtain sp where sp: "sched_priority P s = Inr sp" using sched_priority_some by blast
  obtain p where p: "combine_priority sp (initial_task_priority (fst (normalize_cpu_set P (k_num_cpu K) st))) = Inr p"
    using combine_priority_some[OF initial_priority_fits] by blast
  define t where "t = \<lparr>t_id = tid, t_name = name, t_future = \<lparr>f_locked = False, f_terminated = False\<rparr>,
    t_info = \<lparr>ti_state = Initialized, ti_scheduler_type = fst (normalize_cpu_set P (k_num_cpu K) st), ti_num_preempt = 0,
      ti_last_executed_time = k_now K, ti_absolute_deadline = None, ti_need_sched = False, ti_need_preemption = False,
      ti_panicked = False, ti_dag_info = di, ti_thread = None\<rparr>,
    t_scheduler = s, t_priority = p, t_cpu_set = snd (normalize_cpu_set P (k_num_cpu K) st)\<rparr>"
  have "tasks_spawn P name s st di K = Inr (tid, K\<lparr>k_heap := (k_heap K)(k_next_ref K := t),
      k_next_ref := Suc (k_next_ref K), k_candidate_id := tid,
      k_id_to_task := btm_insert (k_id_to_task K) tid (k_next_ref K)\<rparr>)"
    by (simp add: tasks_spawn_def Let_def case_prod_beta tid(1) sp p t_def)
  moreover have "btm_get (k_id_to_task K) tid = None" using tid(2) by (simp add: btm_contains_key_def)
  ultimately show ?thesis using tid(3) by (intro that[of tid _ t]) (simp_all add: t_def)
qed

lemma spawned_wakeable:
  assumes "mask_ok P mem" "spawnable K st"
    and "t_scheduler (k_heap K' r) = get_scheduler st" "ti_dag_info (info K' r) = None"
      "ti_scheduler_type (info K' r) = fst (normalize_cpu_set P (k_num_cpu K) st)"
      "t_cpu_set (k_heap K' r) = snd (normalize_cpu_set P (k_num_cpu K) st)" "k_num_cpu K' = k_num_cpu K" "k_now K' = k_now K"
  shows "wakeable mem K' r"
proof (cases st)
  case (ClusteredEDF d m)
  have "mem (all_workers P (k_num_cpu K)) \<noteq> {}" if "2 \<le> k_num_cpu K"
    using that mem_all_workers[OF assms(1)] by (simp add: NUM_MAX_CPU_def)
  then show ?thesis
    using assms ClusteredEDF mem_masked_workers[OF assms(1)] mem_all_workers[OF assms(1)]
    by (auto simp: wakeable_def edf_ready_def spawnable_def uptime_def normalize_cpu_set_def Let_def mask_ok_def)
qed (use assms in \<open>simp_all add: wakeable_def edf_ready_def spawnable_def uptime_def normalize_cpu_set_def\<close>)

text \<open>
  C18. Spawning a task. As long as an identifier is free, \<open>spawn\<close> ends, gives the task an unused nonzero
  identifier, adds exactly that entry to the task table, restricts the CPU set of a clustered task to
  worker CPUs (all of them if none is left), and queues the task exactly once in the state
  \<open>Runnable\<close>.
\<close>

theorem spawn_registers_and_queues:
  assumes "ext_ok P mem els cap" "kernel_ok els cap K" "running_known K" "spawnable K st"
    and "card {i. btm_contains_key (k_id_to_task K) i} < 2 ^ 32 - 1"
  shows "\<exists>tid K'. spawn P name st K = Inr (tid, K') \<and> tid \<noteq> 0 \<and> btm_get (k_id_to_task K) tid = None
    \<and> (\<forall>i. btm_get (k_id_to_task K') i = (if i = tid then Some (k_next_ref K) else btm_get (k_id_to_task K) i))
    \<and> map_option mem (t_cpu_set (k_heap K' (k_next_ref K))) = cpus_of mem (k_num_cpu K) st
    \<and> kernel_ok els cap K' \<and> queued els K' = add_mset (k_next_ref K) (queued els K)
    \<and> ti_state (info K' (k_next_ref K)) = Runnable"
proof -
  have mask: "mask_ok P mem" using assms(1) by (simp add: ext_ok_def)
  have unlocked: "\<not> k_tasks_locked K" and inv: "btm_inv (k_id_to_task K)" using assms(2) by (simp_all add: kernel_ok_def)
  obtain tid K1 t where sp: "tasks_spawn P name (get_scheduler st) st None K = Inr (tid, K1)" "tid \<noteq> 0"
    "btm_get (k_id_to_task K) tid = None"
    "K1 = K\<lparr>k_heap := (k_heap K)(k_next_ref K := t), k_next_ref := Suc (k_next_ref K), k_candidate_id := tid,
            k_id_to_task := btm_insert (k_id_to_task K) tid (k_next_ref K)\<rparr>"
    "t_id t = tid" "t_scheduler t = get_scheduler st" "ti_scheduler_type (t_info t) = fst (normalize_cpu_set P (k_num_cpu K) st)"
    "t_cpu_set t = snd (normalize_cpu_set P (k_num_cpu K) st)" "ti_state (t_info t) = Initialized"
    "\<not> ti_panicked (t_info t)" "ti_dag_info (t_info t) = None" "\<not> ti_need_sched (t_info t)"
    by (rule tasks_spawn_result[OF assms(2,5)])
  let ?r = "k_next_ref K"
  have get: "btm_get (k_id_to_task K1) i = (if i = tid then Some ?r else btm_get (k_id_to_task K) i)" for i
    by (simp add: sp(4) btm_get_insert inv)
  have K1: "kernel_ok els cap K1" "queued els K1 = queued els K"
    using assms(2) by (simp_all add: sp(4) kernel_ok_def queued_def btm_insert_inv)
  have known: "running_known K1" using assms(3) get by (simp add: running_known_def sp(4))
  have "wakeable mem K1 ?r" by (rule spawned_wakeable[OF mask assms(4)]) (simp_all add: sp(4,6-8,11))
  from task_wake_result[OF assms(1) K1(1) known this]
  obtain K2 where K2: "task_wake P ?r K1 = Inr K2" "kernel_ok els cap K2" "queued els K2 = add_mset ?r (queued els K1)"
    "ti_state (info K2 ?r) = Runnable" "k_id_to_task K2 = k_id_to_task K1" "t_cpu_set (k_heap K2 ?r) = t_cpu_set (k_heap K1 ?r)"
    by (auto simp: sp(4,9,10))
  have "spawn P name st K = Inr (tid, K2)"
    using unlocked sp(1) get[of tid] K2(1) by (simp add: spawn_def inner_spawn_def)
  moreover have "map_option mem (t_cpu_set (k_heap K2 ?r)) = cpus_of mem (k_num_cpu K) st"
    using K2(6) normalize_cpus[OF mask] by (simp add: sp(4,8))
  ultimately show ?thesis using sp(2,3) K1(2) K2(2-5) get by auto
qed

theorem spawn_registers_and_queues_witness:
  "\<exists>tid K'. spawn list_ops ''a'' (ClusteredEDF 10 {|0, 2, 9|}) sample_kernel = Inr (tid, K') \<and> tid \<notin> {0, 1, 2}
    \<and> map_option fset (t_cpu_set (k_heap K' 2)) = Some {2} \<and> 2 \<in># queued fst K'"
proof -
  let ?st = "ClusteredEDF 10 {|0, 2, 9|} :: nat fset scheduler_type"
  have sp: "spawnable sample_kernel ?st"
    by (simp add: spawnable_def sample_kernel_def boot_kernel_def uptime_def MAX_TASK_PRIORITY_def)
  have "{i. btm_contains_key (k_id_to_task sample_kernel) i} = {1, 2}"
    by (auto simp: btm_contains_iff sample_kernel_def)
  then have card: "card {i. btm_contains_key (k_id_to_task sample_kernel) i} < 2 ^ 32 - 1" by simp
  have [simp]: "k_next_ref sample_kernel = 2" "k_num_cpu sample_kernel = 3"
    "k_id_to_task sample_kernel = [(1, 0), (2, 1)]" by (simp_all add: sample_kernel_def boot_kernel_def)
  obtain tid K' where "spawn list_ops ''a'' ?st sample_kernel = Inr (tid, K')" "tid \<noteq> 0"
    "btm_get [(1, 0), (2, 1 :: nat)] tid = None" "map_option fset (t_cpu_set (k_heap K' 2)) = cpus_of fset 3 ?st"
    "queued fst K' = add_mset 2 (queued fst sample_kernel)"
    using spawn_registers_and_queues[OF list_ops_ok sample_kernel_ok sample_running_known sp card, of "''a''"] by auto
  moreover have "cpus_of fset 3 ?st = Some {2}" by (auto simp: cpus_of_def)
  ultimately show ?thesis by (auto simp: btm_get_def split: if_splits)
qed

section \<open>Waking by identifier\<close>

lemma global_invoke_locked:
  assumes "k_tasks_locked K" "k_preemption_enabled K" "c < min NUM_MAX_CPU (k_num_cpu K)" "k_running K c \<noteq> 0"
    and "\<forall>c. k_running K c \<noteq> task_id K r"
  shows "global_invoke_preemption r K = Inl Diverges"
proof -
  define rts where "rts = filter (\<lambda>rt. snd rt \<noteq> 0) (get_tasks_running K)"
  have "(c, k_running K c) \<in> set rts" using assms(3,4) by (auto simp: rts_def get_tasks_running_def)
  then obtain rt rest where rts: "rts = rt # rest" by (cases rts) auto
  have "map_rust (cpu_target K) rts = Inl Diverges" using assms(1) by (simp add: rts cpu_target_def get_task_def)
  moreover have "\<forall>rt \<in> set rts. snd rt \<noteq> task_id K r" using assms(5) by (auto simp: rts_def get_tasks_running_def)
  ultimately show ?thesis using assms(2) rts
    by (simp add: global_invoke_preemption_def Let_def flip: rts_def)
qed

text \<open>
  C36. The function \<open>wake\<close> of \<open>task.rs\<close> locks the task table for the whole call. Waking a waiting
  FIFO task while another CPU runs a task then never returns: \<open>invoke_preemption\<close> looks the running
  task up and locks the same table again.
\<close>

theorem wake_by_id_deadlocks:
  assumes "\<not> k_tasks_locked K" "btm_get (k_id_to_task K) tid = Some r"
    and "ti_state (info K r) = Waiting" "\<not> ti_panicked (info K r)" "t_scheduler (k_heap K r) = S_PrioritizedFIFO"
      "ti_scheduler_type (info K r) = PrioritizedFIFO p"
    and "k_preemption_enabled K" "c < min NUM_MAX_CPU (k_num_cpu K)" "k_running K c \<noteq> 0" "\<forall>c. k_running K c \<noteq> task_id K r"
  shows "wake P tid K = Inl Diverges"
proof -
  define K1 where "K1 = upd_info r (\<lambda>i. i\<lparr>ti_state := Runnable\<rparr>) (K\<lparr>k_tasks_locked := True\<rparr>)"
  define K2 where "K2 = (if is_none (t_cpu_set (k_heap K1 r)) then K1\<lparr>k_num_task_in_queue := k_num_task_in_queue K1 + 1\<rparr> else K1)"
  have K2: "k_tasks_locked K2" "k_preemption_enabled K2" "k_num_cpu K2 = k_num_cpu K" "k_running K2 = k_running K"
    "task_id K2 r = task_id K r" "ti_scheduler_type (info K2 r) = PrioritizedFIFO p" "t_scheduler (k_heap K2 r) = S_PrioritizedFIFO"
    using assms(5-7) by (simp_all add: K2_def K1_def upd_info_def)
  then have "global_invoke_preemption r K2 = Inl Diverges"
    using assms(8-10) by (intro global_invoke_locked) simp_all
  then have "sched_wake_task P (t_scheduler (k_heap K2 r)) r K2 = Inl Diverges"
    using K2(6,7) by (simp add: fifo_wake_task_def fifo_invoke_preemption_def)
  moreover have "wake P tid K = and_then (sched_wake_task P (t_scheduler (k_heap K2 r)) r K2)
      (\<lambda>K. Inr ((wake_cpu 0 K)\<lparr>k_tasks_locked := False\<rparr>))"
    using assms(1-4) by (simp add: wake_def tasks_wake_def task_wake_def Let_def K2_def K1_def upd_info_def and_then_assoc)
  ultimately show ?thesis by simp
qed

theorem wake_by_id_deadlocks_witness:
  "wake list_ops 2 (upd_info 1 (\<lambda>i. i\<lparr>ti_state := Waiting\<rparr>) sample_kernel) = Inl Diverges"
  by (rule wake_by_id_deadlocks[where r = 1 and p = 0 and c = 1])
    (simp_all add: sample_kernel_def boot_kernel_def upd_info_def sample_task_def null_task_def btm_get_def NUM_MAX_CPU_def)

end
