(* ===== verification/Runtime_Preempt.thy ===== *)
theory Runtime_Preempt
  imports Runtime_Wake
begin

text \<open>
  Dispatch and preemption: which task \<open>get_next_task\<close> gives to a CPU, which CPU a woken task preempts,
  the re-wake of the tasks pending on an idle CPU, and the switch of \<open>do_preemption\<close>.
\<close>

section \<open>The next task\<close>

text \<open>
  C5. \<open>get_next_task\<close> gives a CPU the first live task of the run queues: scheduler by scheduler in the
  order of \<open>PRIORITY_LIST\<close>, inside a scheduler in the order of its queue (earliest deadline first, or
  highest priority first and then first in, first out). Only terminated or panicked tasks are skipped,
  and only those are dropped from the queues; every other queued task stays queued. The task becomes
  the running task of the CPU if the execution is ensured. There is no task only if all candidates
  are terminated or panicked.
\<close>

theorem get_next_task_first_live:
  assumes "ext_ok P mem els cap" "kernel_ok els cap K" "size (cedf_queued els (k_cedf K)) < 2 ^ 32"
  shows "\<exists>D res K'. get_next_task P cpu ens K = Inr (res, K') \<and> (\<forall>x \<in> set D. dead K x)
    \<and> ready mem els cpu K = D @ opt_list res @ ready mem els cpu K'
    \<and> queued els K = mset D + mset (opt_list res) + queued els K' \<and> kernel_ok els cap K'
    \<and> (case res of
         None \<Rightarrow> ready mem els cpu K' = []
       | Some r \<Rightarrow> \<not> dead K r \<and> (ens \<longrightarrow> ti_state (info K' r) = Running \<and> k_running K' cpu = task_id K r))"
proof -
  have "queue_ok P mem els cap" using assms(1) by (simp add: ext_ok_def)
  from get_next_task_gave[OF this assms(2,3), of cpu ens] obtain D res K' where *: "get_next_task P cpu ens K = Inr (res, K')"
    "gave mem els cap [S_ClusteredEDF, S_GEDF, S_PrioritizedFIFO, S_PrioritizedRR, S_Panicked] cpu ens D res K K'"
    by (elim exE conjE)
  then show ?thesis
    by (intro exI[of _ D] exI[of _ res] exI[of _ K'])
      (cases res; simp only: gave_def took_def claimed_def ready_def; simp)
qed

definition sample_queues :: "(nat fset, (edf_key \<times> nat fset \<times> nat option) list \<times> nat) kernel" where
  "sample_queues = sample_kernel\<lparr>k_panicked := Some [0, 1],
     k_gedf := Some [\<lparr>gt_task = 0, gt_absolute_deadline = 9, gt_wake_time = 1\<rparr>, \<lparr>gt_task = 1, gt_absolute_deadline = 7, gt_wake_time = 2\<rparr>]\<rparr>"

lemma sample_queues_ok: "kernel_ok fst snd sample_queues" "size (cedf_queued fst (k_cedf sample_queues)) < 2 ^ 32"
  using sample_kernel_ok
  by (simp_all add: sample_queues_def kernel_ok_def cedf_queued_def sample_kernel_def boot_kernel_def)

lemma sample_queues_ready: "ready fset fst 1 sample_queues = [1, 0, 0, 1]"
proof -
  let ?a = "\<lparr>gt_task = 0, gt_absolute_deadline = 9, gt_wake_time = 1\<rparr>"
  let ?b = "\<lparr>gt_task = 1, gt_absolute_deadline = 7, gt_wake_time = 2\<rparr>"
  have "bh_pop gedf_lt [?a, ?b] = (Some ?b, [?a])" "bh_pop gedf_lt [?a] = (Some ?a, [])"
    by (simp_all add: bh_pop_def bh_peek_def bh_greatest_def gedf_lt_def)
  then have "bh_drain gedf_lt [?a, ?b] = [?b, ?a]" by (simp add: bh_drain_pop)
  then show ?thesis by (simp add: ready_def sample_queues_def sample_kernel_def boot_kernel_def)
qed

theorem get_next_task_first_live_witness:
  "\<exists>K'. get_next_task list_ops 1 True sample_queues = Inr (Some 1, K') \<and> k_running K' 1 = 2
     \<and> ready fset fst 1 K' = [0, 0, 1]"
proof -
  have live: "\<not> dead sample_queues x" for x
    by (simp add: dead_def sample_queues_def sample_kernel_def sample_task_def null_task_def)
  let ?K = sample_queues
  obtain D res K' where *: "get_next_task list_ops 1 True ?K = Inr (res, K')" "\<forall>x \<in> set D. dead ?K x"
    "ready fset fst 1 ?K = D @ opt_list res @ ready fset fst 1 K'"
    "case res of None \<Rightarrow> ready fset fst 1 K' = []
     | Some r \<Rightarrow> \<not> dead ?K r \<and> (True \<longrightarrow> ti_state (info K' r) = Running \<and> k_running K' 1 = task_id ?K r)"
    by (rule get_next_task_first_live[OF list_ops_ok sample_queues_ok, of 1 True, THEN exE]) (elim exE conjE, assumption)
  have "D = []" using *(2) live by (cases D) auto
  then have *: "get_next_task list_ops 1 True ?K = Inr (res, K')" "[1, 0, 0, 1] = opt_list res @ ready fset fst 1 K'"
    "case res of None \<Rightarrow> ready fset fst 1 K' = [] | Some r \<Rightarrow> k_running K' 1 = task_id ?K r"
    using * sample_queues_ready by (auto split: option.splits)
  then have "res = Some 1" "ready fset fst 1 K' = [0, 0, 1]" by (cases res; simp)+
  moreover have "task_id ?K 1 = 2" by (simp add: sample_queues_def sample_kernel_def sample_task_def)
  ultimately show ?thesis using *(1,3) by simp
qed

lemma gedf_not_lt: "\<not> gedf_lt e e' \<longleftrightarrow> gt_absolute_deadline e < gt_absolute_deadline e'
    \<or> gt_absolute_deadline e = gt_absolute_deadline e' \<and> gt_wake_time e \<le> gt_wake_time e'"
  by (auto simp: gedf_lt_def)

text \<open>
  C4. The GEDF scheduler is earliest deadline first: of the live tasks in its queue it gives one with
  the earliest absolute deadline and, among those, the earliest wake time. It gives none only if no
  task in the queue is live.
\<close>

theorem gedf_earliest_deadline_first:
  assumes "k_gedf K = Some h" "gedf_get_next cpu ens K = Inr (res, K')"
  shows "case res of
      None \<Rightarrow> \<forall>e \<in> set h. dead K (gt_task e)
    | Some r \<Rightarrow> \<exists>e \<in> set h. gt_task e = r \<and> \<not> dead K r
        \<and> (\<forall>e' \<in> set h. \<not> dead K (gt_task e') \<longrightarrow>
             gt_absolute_deadline e < gt_absolute_deadline e'
             \<or> gt_absolute_deadline e = gt_absolute_deadline e' \<and> gt_wake_time e \<le> gt_wake_time e')"
proof -
  have set: "set (bh_drain gedf_lt h) = set h" by (metis bh_drain_mset set_mset_mset)
  have sorted: "sorted_wrt (\<lambda>x y. \<not> gedf_lt x y) (bh_drain gedf_lt h)" by (rule gedf_order.drain_sorted)
  let ?o = "map gt_task (bh_drain gedf_lt h)"
  obtain h' D where D: "\<forall>x \<in> set D. dead K x" and res: "case dropWhile (dead K) ?o of
       [] \<Rightarrow> Inr (gedf_get_next_loop cpu ens h K) = (Inr (None, h', ((\<lambda>K. K) ^^ length D) K) :: (nat option \<times> gedf_task list \<times> _) rust)
             \<and> D = ?o \<and> map gt_task (bh_drain gedf_lt h') = [] \<and> image_mset gt_task (mset h) = mset D + image_mset gt_task (mset h')
     | r # rs \<Rightarrow> ?o = D @ r # rs \<and> map gt_task (bh_drain gedf_lt h') = rs
             \<and> image_mset gt_task (mset h) = mset D + add_mset r (image_mset gt_task (mset h'))
             \<and> (\<exists>K'. claim_task cpu ens r (((\<lambda>K. K) ^^ Suc (length D)) K) = Some K'
                  \<and> Inr (gedf_get_next_loop cpu ens h K) = (Inr (Some r, h', K') :: (nat option \<times> gedf_task list \<times> _) rust))"
    using gedf_rq.loop_result[OF TrueI, where h = h and K = K and cpu = cpu and ens = ens] by blast
  show ?thesis
  proof (cases "dropWhile (dead K) ?o")
    case Nil
    have loop: "gedf_get_next_loop cpu ens h K = (None, h', ((\<lambda>K. K) ^^ length D) K)" and "D = ?o"
      using res[unfolded Nil list.case] by (simp_all only: sum.inject)
    have "res = None" using assms by (simp add: gedf_get_next_def loop)
    moreover have "\<forall>x \<in> set ?o. dead K x" using D by (simp only: \<open>D = ?o\<close>)
    ultimately show ?thesis by (simp add: set)
  next
    case (Cons r rs)
    have o: "?o = D @ r # rs" and "\<exists>K1. gedf_get_next_loop cpu ens h K = (Some r, h', K1)"
      using res[unfolded Cons list.case] by (simp_all only: sum.inject) blast
    then obtain K1 where "gedf_get_next_loop cpu ens h K = (Some r, h', K1)" by (elim exE)
    then have r: "res = Some r" using assms by (simp add: gedf_get_next_def)
    have live: "\<not> dead K r" using hd_dropWhile[of "dead K" ?o] Cons by simp
    from o obtain xs e ys where e: "bh_drain gedf_lt h = xs @ e # ys" "map gt_task xs = D" "gt_task e = r"
      by (auto simp: map_eq_append_conv map_eq_Cons_conv)
    have "\<not> gedf_lt e e'" if "e' \<in> set h" "\<not> dead K (gt_task e')" for e'
    proof -
      have "e' \<in> set (xs @ e # ys)" using that(1) unfolding set[symmetric] e(1) .
      moreover have "e' \<notin> set xs" using that(2) D e(2) by auto
      ultimately show ?thesis using sorted e(1) gedf_order.irrefl by (auto simp: sorted_wrt_append)
    qed
    moreover have "e \<in> set h" unfolding set[symmetric] e(1) by simp
    ultimately show ?thesis using e(3) live by (simp only: r option.case gedf_not_lt) blast
  qed
qed

theorem gedf_earliest_deadline_first_witness:
  "\<exists>K'. gedf_get_next 1 True sample_queues = Inr (Some 1, K')"
proof -
  let ?h = "[\<lparr>gt_task = 0, gt_absolute_deadline = 9, gt_wake_time = 1\<rparr>, \<lparr>gt_task = 1, gt_absolute_deadline = 7, gt_wake_time = 2\<rparr>]"
  have h: "k_gedf sample_queues = Some ?h" by (simp add: sample_queues_def)
  have live: "\<not> dead sample_queues x" for x
    by (simp add: dead_def sample_queues_def sample_kernel_def sample_task_def null_task_def)
  obtain res K' where res: "gedf_get_next 1 True sample_queues = Inr (res, K')"
    by (cases "gedf_get_next_loop 1 True ?h sample_queues") (simp add: gedf_get_next_def h Let_def)
  from gedf_earliest_deadline_first[OF h res] have "res = Some 1" by (auto simp: live split: option.splits)
  then show ?thesis using res by simp
qed

section \<open>Whom a woken task preempts\<close>

text \<open>The task that a CPU runs or has pending, whichever is greater; \<open>None\<close> if the CPU is idle.\<close>

definition preempt_target :: "('m, 'q) kernel \<Rightarrow> usize \<Rightarrow> nat option" where
  "preempt_target K c =
     (if k_running K c = 0 then None
      else map_option (\<lambda>t. case peek_preemption_pending K c of
                             None \<Rightarrow> t
                           | Some p \<Rightarrow> if task_lt K p t then t else p) (btm_get (k_id_to_task K) (k_running K c)))"

lemma iter_min_by_peek: "iter_min_by lt xs = bh_peek (\<lambda>a b. lt b a) xs"
  by (cases xs) (simp_all add: iter_min_by_def bh_peek_def bh_greatest_def)

interpretation target_order: strict_weak_order "\<lambda>a b. target_lt K b a" for K :: "('m, 'q) kernel"
  by unfold_locales (auto simp: target_lt_def task_lt_def Let_def split: if_splits)

lemma in_map_filter: "x \<in> set (List.map_filter (\<lambda>t. t) ts) \<longleftrightarrow> Some x \<in> set ts"
  by (induction ts) (auto simp: List.map_filter_simps split: option.splits)

lemma targets_list:
  assumes "\<not> k_tasks_locked K" "map_rust (cpu_target K) (filter (\<lambda>rt. snd rt \<noteq> 0) (get_tasks_running K)) = Inr ts"
  shows "set (List.map_filter (\<lambda>t. t) ts) = {(t, c). c < min NUM_MAX_CPU (k_num_cpu K) \<and> preempt_target K c = Some t}"
proof -
  let ?rts = "filter (\<lambda>rt. snd rt \<noteq> 0) (get_tasks_running K)"
  let ?tgt = "\<lambda>rt. map_option (\<lambda>t. (t, fst rt)) (preempt_target K (fst rt))"
  have "cpu_target K rt = Inr (?tgt rt)" if "rt \<in> set ?rts" for rt
  proof -
    have "snd rt = k_running K (fst rt)" "k_running K (fst rt) \<noteq> 0"
      using that by (auto simp: get_tasks_running_def)
    then show ?thesis
      using assms(1)
      by (cases "btm_get (k_id_to_task K) (k_running K (fst rt))"; cases "peek_preemption_pending K (fst rt)")
        (simp_all add: cpu_target_def get_task_def preempt_target_def Let_def task_order.irrefl)
  qed
  then have "map_rust (cpu_target K) ?rts = Inr (map ?tgt ?rts)" by (rule map_rust_Inr)
  then have ts: "set ts = ?tgt ` set ?rts" using assms(2) by simp
  have "(t, c) \<in> set (List.map_filter (\<lambda>t. t) ts) \<longleftrightarrow> c < min NUM_MAX_CPU (k_num_cpu K) \<and> preempt_target K c = Some t" for t c
  proof
    assume "(t, c) \<in> set (List.map_filter (\<lambda>t. t) ts)"
    then have "Some (t, c) \<in> ?tgt ` set ?rts" unfolding in_map_filter ts .
    then obtain rt where rt: "Some (t, c) = ?tgt rt" "rt \<in> set ?rts" by (rule imageE)
    from rt(1)[symmetric] rt(2) show "c < min NUM_MAX_CPU (k_num_cpu K) \<and> preempt_target K c = Some t" by (auto simp: get_tasks_running_def)
  next
    assume "c < min NUM_MAX_CPU (k_num_cpu K) \<and> preempt_target K c = Some t"
    then have "(c, k_running K c) \<in> set ?rts" "?tgt (c, k_running K c) = Some (t, c)"
      by (auto simp: get_tasks_running_def preempt_target_def split: if_splits)
    then show "(t, c) \<in> set (List.map_filter (\<lambda>t. t) ts)" unfolding in_map_filter ts by (intro image_eqI[of _ _ "(c, k_running K c)"]) simp_all
  qed
  then show ?thesis by auto
qed

lemma target_lt_priority: "\<not> target_lt K x y \<Longrightarrow> t_priority (k_heap K (fst y)) \<le> t_priority (k_heap K (fst x))"
  by (auto simp: target_lt_def task_lt_def Let_def split: if_splits)

lemma global_invoke_victim:
  assumes "global_invoke_preemption r K = Inr (b, K')" "kernel_ok els cap K" "k_preemption_enabled K"
    and "\<forall>c < min NUM_MAX_CPU (k_num_cpu K). k_running K c \<noteq> task_id K r"
  shows "b \<longleftrightarrow> (\<exists>c t. c < min NUM_MAX_CPU (k_num_cpu K) \<and> preempt_target K c = Some t \<and> preempts K r t)" (is "b \<longleftrightarrow> ?lower")
    and "b \<Longrightarrow> \<exists>c t. c < min NUM_MAX_CPU (k_num_cpu K) \<and> preempt_target K c = Some t \<and> preempts K r t
      \<and> request_preemption r t c K = Inr K'
      \<and> (\<forall>c' t'. c' < min NUM_MAX_CPU (k_num_cpu K) \<and> preempt_target K c' = Some t' \<longrightarrow>
           t_priority (k_heap K t) \<le> t_priority (k_heap K t'))"
proof -
  define rts where "rts = filter (\<lambda>rt. snd rt \<noteq> 0) (get_tasks_running K)"
  have unlocked: "\<not> k_tasks_locked K" using assms(2) by (simp add: kernel_ok_def)
  have nr: "\<not> (\<exists>rt \<in> set rts. snd rt = task_id K r)" using assms(4) by (auto simp: rts_def get_tasks_running_def)
  let ?n = "min NUM_MAX_CPU (k_num_cpu K)"
  have "(b \<longleftrightarrow> ?lower) \<and> (b \<longrightarrow> (\<exists>c t. c < ?n \<and> preempt_target K c = Some t \<and> preempts K r t \<and> request_preemption r t c K = Inr K'
      \<and> (\<forall>c' t'. c' < ?n \<and> preempt_target K c' = Some t' \<longrightarrow> t_priority (k_heap K t) \<le> t_priority (k_heap K t'))))"
  proof (cases "rts = []")
    case True
    then have "k_running K c = 0" if "c < ?n" for c
      using that by (auto simp: rts_def get_tasks_running_def filter_empty_conv)
    then have "preempt_target K c = None" if "c < ?n" for c using that by (simp add: preempt_target_def)
    moreover have "\<not> b" using assms(1,3) True by (simp add: global_invoke_preemption_def Let_def flip: rts_def)
    ultimately show ?thesis by auto
  next
    case False
    obtain ts t c where ts: "map_rust (cpu_target K) rts = Inr ts"
      and tc: "iter_min_by (target_lt K) (List.map_filter (\<lambda>t. t) ts) = Some (t, c)"
      and b: "(if preempts K r t then and_then (request_preemption r t c K) (\<lambda>K. Inr (True, K)) else Inr (False, K)) = Inr (b, K')"
      using assms(1,3) False nr
      by (simp add: global_invoke_preemption_def Let_def and_then_Inr_iff[of "map_rust _ _"] and_then_Inr_iff[of "unwrap _"] flip: rts_def)
        blast
    then have b: "if preempts K r t then b \<and> request_preemption r t c K = Inr K' else \<not> b"
      by (auto simp: and_then_Inr_iff split: if_splits)
    note set = targets_list[OF unlocked ts[unfolded rts_def]]
    have "(t, c) \<in> set (List.map_filter (\<lambda>t. t) ts)" using tc bh_peek_in by (fastforce simp: iter_min_by_peek)
    then have mem: "c < ?n" "preempt_target K c = Some t" using set by auto
    have min: "t_priority (k_heap K t) \<le> t_priority (k_heap K t')" if "c' < ?n" "preempt_target K c' = Some t'" for c' t'
    proof -
      have "(t', c') \<in> set (List.map_filter (\<lambda>t. t) ts)" using set that by auto
      then have "\<not> target_lt K (t', c') (t, c)" using target_order.peek_greatest tc by (fastforce simp: iter_min_by_peek)
      then show ?thesis using target_lt_priority by fastforce
    qed
    then have "preempts K r t" if ?lower using that by (fastforce simp: preempts_def)
    then show ?thesis using b mem min by (auto split: if_splits)
  qed
  then show "b \<longleftrightarrow> ?lower" "b \<Longrightarrow> \<exists>c t. c < ?n \<and> preempt_target K c = Some t \<and> preempts K r t \<and> request_preemption r t c K = Inr K'
      \<and> (\<forall>c' t'. c' < ?n \<and> preempt_target K c' = Some t' \<longrightarrow> t_priority (k_heap K t) \<le> t_priority (k_heap K t'))" by blast+
qed

text \<open>
  C6. The preemption decision of the global schedulers. A woken task that no CPU runs preempts if and
  only if some CPU runs (or already has pending) only tasks of strictly lower priority. The victim is
  then a CPU whose target has the lowest priority of all, so that the running tasks stay the ones of
  highest priority; the task is pending on exactly that CPU, which is asked to preempt and gets the
  interrupt.
\<close>

theorem preemption_picks_lowest_victim:
  assumes "global_invoke_preemption r K = Inr (b, K')" "kernel_ok els cap K" "k_preemption_enabled K"
    and "\<forall>c < min NUM_MAX_CPU (k_num_cpu K). k_running K c \<noteq> task_id K r"
  shows "(b \<longleftrightarrow> (\<exists>c t. c < min NUM_MAX_CPU (k_num_cpu K) \<and> preempt_target K c = Some t \<and> preempts K r t))
    \<and> (\<not> b \<longrightarrow> K' = K)
    \<and> (b \<longrightarrow> (\<exists>c t. c < min NUM_MAX_CPU (k_num_cpu K) \<and> preempt_target K c = Some t \<and> preempts K r t
        \<and> (\<forall>c' t'. c' < min NUM_MAX_CPU (k_num_cpu K) \<and> preempt_target K c' = Some t' \<longrightarrow>
             t_priority (k_heap K t) \<le> t_priority (k_heap K t'))
        \<and> btm_get_vec (k_pending K') c = btm_get_vec (k_pending K) c @ [r] \<and> k_preemption_request K' c \<and> hd (k_ipis K') = c))"
proof -
  note v = global_invoke_victim[OF assms]
  have "\<not> b \<longrightarrow> K' = K" using assms(1) global_invoke_False[of r K K'] by auto
  moreover have "\<exists>c t. c < min NUM_MAX_CPU (k_num_cpu K) \<and> preempt_target K c = Some t \<and> preempts K r t
        \<and> (\<forall>c' t'. c' < min NUM_MAX_CPU (k_num_cpu K) \<and> preempt_target K c' = Some t' \<longrightarrow>
             t_priority (k_heap K t) \<le> t_priority (k_heap K t'))
        \<and> btm_get_vec (k_pending K') c = btm_get_vec (k_pending K) c @ [r] \<and> k_preemption_request K' c \<and> hd (k_ipis K') = c" if b
  proof -
    have pend: "btm_inv (k_pending K)" using assms(2) by (simp add: kernel_ok_def)
    from v(2)[OF that] obtain c t where ct: "c < min NUM_MAX_CPU (k_num_cpu K)" "preempt_target K c = Some t" "preempts K r t"
      "request_preemption r t c K = Inr K'"
      "\<forall>c' t'. c' < min NUM_MAX_CPU (k_num_cpu K) \<and> preempt_target K c' = Some t' \<longrightarrow>
             t_priority (k_heap K t) \<le> t_priority (k_heap K t')" by (elim exE conjE)
    with request_preemption_result[OF ct(4) assms(2)] show ?thesis
      by (intro exI[of _ c] exI[of _ t]) (simp add: btm_get_vec_push[OF pend])
  qed
  ultimately show ?thesis using v(1) by simp
qed

theorem preemption_picks_lowest_victim_witness:
  "\<exists>K'. global_invoke_preemption 1 sample_kernel = Inr (True, K') \<and> k_preemption_request K' 1"
proof -
  have t: "preempt_target sample_kernel c = (if c = 1 then Some 0 else None)" for c
    by (simp add: preempt_target_def peek_preemption_pending_def sample_kernel_def boot_kernel_def btm_get_def)
  have n: "min NUM_MAX_CPU (k_num_cpu sample_kernel) = 3" "k_preemption_enabled sample_kernel"
    by (simp_all add: NUM_MAX_CPU_def sample_kernel_def boot_kernel_def)
  have run: "\<forall>c < min NUM_MAX_CPU (k_num_cpu sample_kernel). k_running sample_kernel c \<noteq> task_id sample_kernel 1"
    by (simp add: sample_kernel_def sample_task_def)
  have pre: "preempts sample_kernel 1 0" by (simp add: preempts_def sample_kernel_def sample_task_def)
  obtain b K' where inv: "global_invoke_preemption 1 sample_kernel = Inr (b, K')"
    using global_invoke_progress[OF kernel_ok_unlocked[OF sample_kernel_ok] sample_running_known, of 1] by (elim exE)
  show ?thesis
    using preemption_picks_lowest_victim[OF inv sample_kernel_ok n(2) run] inv pre by (auto simp: t n split: if_splits)
qed

end
