(* ===== verification/Runtime_Switch.thy ===== *)
theory Runtime_Switch
  imports Runtime_Preempt
begin

text \<open>
  The tasks pending on a CPU: an idle CPU re-wakes them all and the loop ends; a busy CPU switches to
  the greatest of them when it has a strictly higher priority than the running task.
\<close>

section \<open>A wake never targets an idle CPU\<close>

lemma cedf_victim_busy:
  "cedf_victim K r cpus v = Inr (Some (Some (c, t))) \<Longrightarrow> v = Some (c, t) \<or> k_running K c \<noteq> 0"
proof (induction cpus arbitrary: v)
  case (Cons c' cpus)
  define target where "target = (\<lambda>tr. case (tr, peek_preemption_pending K c') of
      (Some running, Some pending) \<Rightarrow> Some (if task_lt K pending running then running else pending)
    | (Some running, None) \<Rightarrow> Some running | (None, Some pending) \<Rightarrow> Some pending | (None, None) \<Rightarrow> None)"
  define nxt where "nxt = (\<lambda>tt. case v of
      Some (c, lowest) \<Rightarrow> if \<not> task_lt K tt lowest then v else Some (c', tt) | None \<Rightarrow> Some (c', tt))"
  have "cedf_victim K r (c' # cpus) v =
     (if k_running K c' = task_id K r then Inr None else if k_running K c' = 0 then Inr None
      else and_then (get_task K (k_running K c')) (\<lambda>tr. case target tr of None \<Rightarrow> Inr None
        | Some tt \<Rightarrow> cedf_victim K r cpus (nxt tt)))"
    unfolding nxt_def target_def by (simp add: get_task_running_def Let_def)
  with Cons.prems obtain tt where tt: "k_running K c' \<noteq> 0" "cedf_victim K r cpus (nxt tt) = Inr (Some (Some (c, t)))"
    by (simp only:) (auto simp: and_then_Inr_iff simp del: cedf_victim.simps split: if_splits option.splits)
  from Cons.IH[OF tt(2)] tt(1) show ?case by (auto simp: nxt_def split: option.splits prod.splits if_splits)
qed simp

lemma invoke_busy:
  assumes "global_invoke_preemption r K = Inr (True, K') \<or> cedf_invoke_preemption P r K = Inr (True, K')"
  shows "\<exists>c t. k_running K c \<noteq> 0 \<and> request_preemption r t c K = Inr K'"
  using assms
proof
  assume "global_invoke_preemption r K = Inr (True, K')"
  then show ?thesis
  proof (cases rule: global_invoke_cases)
    case (yes ts t c)
    have "\<not> k_tasks_locked K"
      using yes(5) by (auto simp: request_preemption_def set_need_preemption_def push_preemption_pending_def split: if_splits)
    from targets_list[OF this yes(2)] have "preempt_target K c = Some t"
      using yes(3) bh_peek_in by (fastforce simp: iter_min_by_peek)
    then show ?thesis using yes(5) by (auto simp: preempt_target_def split: if_splits)
  qed simp
next
  assume "cedf_invoke_preemption P r K = Inr (True, K')"
  then show ?thesis
  proof (cases rule: cedf_invoke_cases)
    case (yes m c t)
    then show ?thesis using cedf_victim_busy[OF yes(3)] by auto
  qed simp
qed

lemma request_idle_pending:
  assumes "request_preemption r t c K = Inr K'" "kernel_ok els cap K" "c \<noteq> cpu"
  shows "btm_get_vec (k_pending K') cpu = btm_get_vec (k_pending K) cpu"
  using request_preemption_result[OF assms(1,2)] assms(2,3) by (simp add: btm_get_vec_push kernel_ok_def)

lemma sched_wake_idle_pending:
  assumes "sched_wake_task P s r K = Inr K'" "kernel_ok els cap K" "k_running K cpu = 0"
  shows "btm_get_vec (k_pending K') cpu = btm_get_vec (k_pending K) cpu"
proof -
  have inv: "btm_get_vec (k_pending K2) cpu = btm_get_vec (k_pending K1) cpu"
    if "global_invoke_preemption r K1 = Inr (True, K2) \<or> cedf_invoke_preemption P r K1 = Inr (True, K2)"
      "kernel_ok els cap K1" "k_running K1 cpu = 0" for K1 K2
    using invoke_busy[OF that(1)] that(2,3) request_idle_pending by metis
  have edf: "kernel_ok els cap K1" "k_running K1 cpu = 0" "k_pending K1 = k_pending K"
    if "edf_deadline sp rd r K = Inr (w, d, K1)" for sp rd w d K1
  proof -
    show "kernel_ok els cap K1" using edf_deadline_keeps(2)[OF that] assms(2) by simp
    show "k_running K1 cpu = 0" "k_pending K1 = k_pending K"
      using assms(3) by (subst edf_deadline_result(1)[OF that], simp)+
  qed
  show ?thesis
  proof (cases s)
    case S_ClusteredEDF
    then have "cedf_wake_task P r K = Inr K'" using assms(1) by simp
    then show ?thesis
    proof (cases rule: cedf_wake_cases)
      case (preempt rd m w d K1)
      then show ?thesis using inv[of K1 K'] edf[OF preempt(2)] by simp
    next
      case (push rd m m' w d K1 q)
      then show ?thesis using edf[OF push(2)] by simp
    qed
  next
    case S_GEDF
    then have "gedf_wake_task P r K = Inr K'" using assms(1) by simp
    then show ?thesis
    proof (cases rule: gedf_wake_cases)
      case (preempt rd w d K1)
      then show ?thesis using inv[of K1 K'] edf[OF preempt(2)] by simp
    next
      case (push rd w d K1)
      then show ?thesis using edf[OF push(2)] by simp
    qed
  next
    case S_PrioritizedFIFO
    then have "fifo_wake_task r K = Inr K'" using assms(1) by simp
    then show ?thesis using inv[of K K'] assms(2,3) by (cases rule: fifo_wake_cases) simp_all
  next
    case S_PrioritizedRR
    then have "rr_wake_task r K = Inr K'" using assms(1) by simp
    then show ?thesis using inv[of K K'] assms(2,3) by (cases rule: rr_wake_cases) simp_all
  next
    case S_Panicked
    then show ?thesis using assms(1) by (auto simp: panicked_wake_task_def)
  qed
qed

section \<open>Popping and moving the pending tasks\<close>

lemma frame_wakeable: "wake_frame K K' \<Longrightarrow> wakeable mem K' r = wakeable mem K r"
  by (rule wakeable_cong) (simp_all add: wake_frame_def)

lemma pop_pending_result:
  assumes "kernel_ok els cap K" "pop_preemption_pending cpu K = (res, K')"
  shows "kernel_ok els cap K' \<and> wake_frame K K' \<and>
    (case res of
       None \<Rightarrow> btm_get_vec (k_pending K') cpu = [] \<and> queued els K' = queued els K
     | Some r \<Rightarrow> mset (btm_get_vec (k_pending K) cpu) = add_mset r (mset (btm_get_vec (k_pending K') cpu))
         \<and> queued els K = add_mset r (queued els K'))"
proof (cases "btm_get (k_pending K) cpu")
  case None
  then have "K' = K" "res = None" using assms(2) by (simp_all add: pop_preemption_pending_def)
  then show ?thesis using assms(1) None by (simp add: btm_get_vec_def)
next
  case (Some heap)
  have inv: "btm_inv (k_pending K)" using assms(1) by (simp add: kernel_ok_def)
  obtain heap' where pop: "bh_pop (task_lt K) heap = (res, heap')"
    and K': "K' = K\<lparr>k_pending := btm_insert (k_pending K) cpu heap'\<rparr>"
    using assms(2) Some by (auto simp: pop_preemption_pending_def Let_def split: prod.splits)
  have vec: "btm_get_vec (k_pending K) cpu = heap" "btm_get_vec (k_pending K') cpu = heap'"
    using Some by (simp_all add: btm_get_vec_def K' btm_get_insert inv)
  have ins: "pending_queued (k_pending K') + mset heap = pending_queued (k_pending K) + mset heap'"
    using pending_insert[OF inv, of cpu heap'] by (simp add: vec(1) K')
  have "kernel_ok els cap K'" "wake_frame K K'"
    using assms(1) by (simp_all add: K' kernel_ok_def wake_frame_def btm_insert_inv)
  moreover have q: "queued els K + pending_queued (k_pending K') = queued els K' + pending_queued (k_pending K)"
    by (simp add: queued_def K')
  ultimately show ?thesis
  proof (cases res)
    case None
    then have "heap = []" "heap' = []" using pop by simp_all
    then show ?thesis using \<open>kernel_ok els cap K'\<close> \<open>wake_frame K K'\<close> None vec ins q by simp
  next
    case (Some r)
    have "mset heap = add_mset r (mset heap')" using bh_pop_Some(3)[OF pop[unfolded Some]] .
    then have "pending_queued (k_pending K) = add_mset r (pending_queued (k_pending K'))" using ins by simp
    then show ?thesis
      using \<open>kernel_ok els cap K'\<close> \<open>wake_frame K K'\<close> Some vec q \<open>mset heap = _\<close> by simp
  qed
qed

lemma re_wake_pending_result:
  assumes "ext_ok P mem els cap"
  shows "kernel_ok els cap K \<Longrightarrow> running_known K \<Longrightarrow> k_running K cpu = 0 \<Longrightarrow>
    \<forall>r \<in> set (btm_get_vec (k_pending K) cpu). wakeable mem K r \<Longrightarrow>
    \<exists>K'. re_wake_pending P cpu K = Some (Inr K') \<and> kernel_ok els cap K' \<and> btm_get_vec (k_pending K') cpu = []
      \<and> queued els K' = queued els K \<and> wake_frame K K'"
proof (induction "length (btm_get_vec (k_pending K) cpu)" arbitrary: K rule: less_induct)
  case less
  obtain res K1 where pop: "pop_preemption_pending cpu K = (res, K1)" by (cases "pop_preemption_pending cpu K")
  note 1 = pop_pending_result[OF less.prems(1) pop]
  show ?case
  proof (cases res)
    case None
    then show ?thesis using 1 by (subst re_wake_pending.simps) (simp add: pop Let_def)
  next
    case (Some r)
    have vec: "mset (btm_get_vec (k_pending K) cpu) = add_mset r (mset (btm_get_vec (k_pending K1) cpu))"
      and ok: "kernel_ok els cap K1" and fr: "wake_frame K K1" and q: "queued els K = add_mset r (queued els K1)"
      using 1 Some by simp_all
    have "set (btm_get_vec (k_pending K) cpu) = insert r (set (btm_get_vec (k_pending K1) cpu))"
      using arg_cong[OF vec, of set_mset] by simp
    then have wk: "wakeable mem K1 r" "\<forall>x \<in> set (btm_get_vec (k_pending K1) cpu). wakeable mem K1 x"
      using less.prems(4) frame_wakeable[OF fr] by auto
    have known: "running_known K1" and idle: "k_running K1 cpu = 0"
      using less.prems(2,3) frame_known[OF fr] fr by (simp_all add: wake_frame_def)
    obtain K2 where K2: "sched_wake_task P (t_scheduler (k_heap K1 r)) r K1 = Inr K2" "kernel_ok els cap K2"
      "queued els K2 = add_mset r (queued els K1)" "wake_frame K1 K2"
      using wake_result[OF assms ok known wk(1)] by blast
    have same: "btm_get_vec (k_pending K2) cpu = btm_get_vec (k_pending K1) cpu"
      by (rule sched_wake_idle_pending[OF K2(1) ok idle])
    have "length (btm_get_vec (k_pending K2) cpu) < length (btm_get_vec (k_pending K) cpu)"
      using arg_cong[OF vec, of size] by (simp add: same)
    from less.hyps[OF this K2(2)] obtain K3 where "re_wake_pending P cpu K2 = Some (Inr K3)" "kernel_ok els cap K3"
      "btm_get_vec (k_pending K3) cpu = []" "queued els K3 = queued els K2" "wake_frame K2 K3"
      using known idle wk(2) same frame_known[OF K2(4)] frame_wakeable[OF K2(4)] K2(4) by (auto simp: wake_frame_def)
    then show ?thesis
      using Some K2(1,3) q wake_frame_trans[OF fr wake_frame_trans[OF K2(4)]]
      by (subst re_wake_pending.simps) (simp add: pop Let_def)
  qed
qed

text \<open>
  C19. An idle worker re-wakes all tasks that are pending on it, and the loop ends: a wake never makes a
  task pending on an idle CPU, so every round shrinks the heap. Afterwards no task is pending on
  the CPU, and every queued task is still queued.
\<close>

theorem rewake_pending_terminates:
  assumes "ext_ok P mem els cap" "kernel_ok els cap K" "running_known K" "k_running K cpu = 0"
    and "\<forall>r \<in> set (btm_get_vec (k_pending K) cpu). wakeable mem K r"
  shows "\<exists>K'. re_wake_pending P cpu K = Some (Inr K') \<and> btm_get_vec (k_pending K') cpu = []
    \<and> queued els K' = queued els K \<and> kernel_ok els cap K'"
  using re_wake_pending_result[OF assms] by blast

definition sample_pending :: "(nat fset, (edf_key \<times> nat fset \<times> nat option) list \<times> nat) kernel" where
  "sample_pending = sample_kernel\<lparr>k_pending := [(1, [1]), (2, [0, 1])], k_threads_running := [(1, 5)]\<rparr>"

lemma sample_pending_ok: "kernel_ok fst snd sample_pending" "running_known sample_pending" "wakeable fset sample_pending r"
proof -
  show "kernel_ok fst snd sample_pending"
    using sample_kernel_ok by (simp add: kernel_ok_def sample_pending_def sample_kernel_def boot_kernel_def btm_inv_def)
  show "running_known sample_pending" using sample_running_known by (simp add: running_known_def sample_pending_def)
  show "wakeable fset sample_pending r"
    using sample_wakeable[of r] wakeable_cong[of sample_pending r sample_kernel fset] by (simp add: sample_pending_def)
qed

theorem rewake_pending_terminates_witness:
  "\<exists>K'. re_wake_pending list_ops 2 sample_pending = Some (Inr K') \<and> btm_get_vec (k_pending K') 2 = []"
  using rewake_pending_terminates[OF list_ops_ok sample_pending_ok(1,2), of 2] sample_pending_ok(3)
  by (auto simp: sample_pending_def sample_kernel_def)

section \<open>The switch\<close>

lemma re_wake_heap_result:
  assumes "ext_ok P mem els cap"
  shows "kernel_ok els cap K \<Longrightarrow> running_known K \<Longrightarrow> \<forall>r \<in> set h. wakeable mem K r \<Longrightarrow>
    \<exists>K'. re_wake_heap P h K = Inr K' \<and> kernel_ok els cap K' \<and> queued els K' = mset h + queued els K \<and> wake_frame K K'"
proof (induction "length h" arbitrary: h K rule: less_induct)
  case less
  obtain res h' where pop: "bh_pop (task_lt K) h = (res, h')" by (cases "bh_pop (task_lt K) h")
  show ?case
  proof (cases res)
    case None
    then have "h = []" using pop by simp
    then show ?thesis using less.prems(1) by (subst re_wake_heap.simps) (simp add: bh_pop_def bh_peek_def)
  next
    case (Some p)
    note pp = bh_pop_Some[OF pop[unfolded Some]]
    have set: "set h = insert p (set h')" using arg_cong[OF pp(3), of set_mset] by simp
    obtain K1 where K1: "sched_wake_task P (t_scheduler (k_heap K p)) p K = Inr K1" "kernel_ok els cap K1"
      "queued els K1 = add_mset p (queued els K)" "wake_frame K K1"
      using wake_result[OF assms less.prems(1,2)] less.prems(3) set by blast
    obtain K2 where "re_wake_heap P h' K1 = Inr K2" "kernel_ok els cap K2" "queued els K2 = mset h' + queued els K1" "wake_frame K1 K2"
      using less.hyps[OF pp(4) K1(2)] less.prems(2,3) set frame_known[OF K1(4)] frame_wakeable[OF K1(4)] by auto
    then show ?thesis
      using Some pop K1 pp(3) wake_frame_trans[OF K1(4)] by (subst re_wake_heap.simps) simp
  qed
qed

lemma move_pending:
  assumes "kernel_ok els cap K" "move_preemption_pending cpu K = (h, K')"
  shows "kernel_ok els cap K'" "wake_frame K K'" "h = btm_get (k_pending K) cpu"
    "queued els K = mset (btm_get_vec (k_pending K) cpu) + queued els K'" "k_heap K' = k_heap K"
  using assms pending_remove[of "k_pending K" cpu]
  by (auto simp: move_preemption_pending_def kernel_ok_def wake_frame_def btm_remove_inv queued_def)

lemma set_current_frame:
  "kernel_ok els cap (set_current_task c t K) = kernel_ok els cap K" "queued els (set_current_task c t K) = queued els K"
  "wakeable mem (set_current_task c t K) r = wakeable mem K r"
  using wakeable_cong[of "set_current_task c t K" r K mem] by (simp_all add: set_current_task_def kernel_ok_def queued_def)

text \<open>The state of a CPU whose running task \<open>cur\<close> is to be preempted by the pending task \<open>nx\<close>.\<close>

definition preemptable ::
    "('m \<Rightarrow> nat set) \<Rightarrow> usize \<Rightarrow> nat \<Rightarrow> nat \<Rightarrow> ('m, 'q) kernel \<Rightarrow> bool" where
  "preemptable mem cpu cur nx K \<longleftrightarrow>
     running_known K \<and> (\<forall>r \<in> set (btm_get_vec (k_pending K) cpu). wakeable mem K r)
     \<and> peek_preemption_pending K cpu = Some nx \<and> preempts K nx cur
     \<and> k_running K cpu \<noteq> 0 \<and> k_running K cpu = task_id K cur
     \<and> btm_get (k_id_to_task K) (task_id K cur) = Some cur \<and> btm_get (k_id_to_task K) (task_id K nx) = Some nx"

lemma do_preemption_switches:
  assumes "ext_ok P mem els cap" "kernel_ok els cap K" "preemptable mem cpu cur nx K"
  shows "\<exists>K3. do_preemption P new_thread cpu K = switch_to_next P new_thread cpu cur nx K3 \<and> kernel_ok els cap K3
    \<and> queued els K = add_mset nx (queued els K3) \<and> wake_frame (set_current_task cpu (task_id K nx) K) K3"
proof -
  note p = assms(3)[unfolded preemptable_def]
  let ?h = "btm_get_vec (k_pending K) cpu"
  obtain heap where heap: "btm_get (k_pending K) cpu = Some heap" "bh_peek (task_lt K) heap = Some nx"
    using p by (auto simp: peek_preemption_pending_def bind_eq_Some_conv)
  then have h: "?h = heap" by (simp add: btm_get_vec_def)
  obtain K1 where mv: "move_preemption_pending cpu K = (Some heap, K1)"
    using heap(1) by (simp add: move_preemption_pending_def)
  note m = move_pending[OF assms(2) mv]
  have lt: "task_lt K1 = task_lt K" by (simp add: fun_eq_iff task_lt_def m(5))
  obtain heap' where pop: "bh_pop (task_lt K1) heap = (Some nx, heap')"
    using heap(2) by (simp add: bh_pop_def lt)
  note pp = bh_pop_Some[OF pop]
  have set: "set heap = insert nx (set heap')" using arg_cong[OF pp(3), of set_mset] by simp
  define K2 where "K2 = set_current_task cpu (task_id K nx) K1"
  have ok2: "kernel_ok els cap K2" "queued els K2 = queued els K1" using m(1) by (simp_all add: K2_def set_current_frame)
  have known: "running_known K2"
    using p m(2) by (auto simp: K2_def running_known_def set_current_task_def wake_frame_def)
  have wk: "\<forall>r \<in> set heap'. wakeable mem K2 r"
    using p h set frame_wakeable[OF m(2)] by (auto simp: K2_def set_current_frame)
  obtain K3 where K3: "re_wake_heap P heap' K2 = Inr K3" "kernel_ok els cap K3" "queued els K3 = mset heap' + queued els K2" "wake_frame K2 K3"
    using re_wake_heap_result[OF assms(1) ok2(1) known wk] by blast
  have cur: "get_task K3 (k_running K cpu) = Inr (Some cur)" "get_task K (k_running K cpu) = Inr (Some cur)"
    using p K3(2,4) m(2) assms(2) by (auto simp: get_task_def kernel_ok_def wake_frame_def K2_def set_current_task_def)
  have nz: "task_id K cur \<noteq> 0" using p by auto
  have "do_preemption P new_thread cpu K = switch_to_next P new_thread cpu cur nx K3"
    using p nz cur mv pop K3(1) m(5)
    by (simp add: do_preemption_def get_current_task_def Let_def K2_def)
  moreover have "queued els K = add_mset nx (queued els K3)"
    using m(4) K3(3) ok2(2) pp(3) by (simp add: h ac_simps)
  moreover have "wake_frame (set_current_task cpu (task_id K nx) K) K2"
    using m(2) by (simp add: K2_def wake_frame_def set_current_task_def)
  ultimately show ?thesis using K3(2,4) wake_frame_trans by blast
qed

lemma take_pooled_frame:
  "kernel_ok els cap (snd (take_pooled_thread K)) = kernel_ok els cap K"
  "queued els (snd (take_pooled_thread K)) = queued els K"
  "k_threads_running (snd (take_pooled_thread K)) = k_threads_running K" "k_heap (snd (take_pooled_thread K)) = k_heap K"
  "k_running (snd (take_pooled_thread K)) = k_running K" "k_preempted (snd (take_pooled_thread K)) = k_preempted K"
  "k_next_task (snd (take_pooled_thread K)) = k_next_task K"
  "fst (take_pooled_thread K) = None \<longleftrightarrow> k_threads_pooled K = []"
  by (simp_all add: take_pooled_thread_def kernel_ok_def queued_def split: list.split)

text \<open>What \<open>yield_preempted_and_wake_task\<close> leaves behind when the CPU has a context.\<close>

definition yielded :: "usize \<Rightarrow> nat \<Rightarrow> nat \<Rightarrow> ('m, 'q) kernel \<Rightarrow> ('m, 'q) kernel \<Rightarrow> bool" where
  "yielded cpu cur ctx K K' \<longleftrightarrow> k_running K' = k_running K \<and> ti_state (info K' cur) = Preempted \<and> ti_thread (info K' cur) = Some ctx
     \<and> k_preempted K' cpu = cur # k_preempted K cpu"

lemma yield_result:
  assumes "btm_get (k_threads_running K) cpu = Some ctx" "ti_thread (info K cur) = None"
  shows "\<exists>K'. yield_preempted_and_wake_task cpu cur th K = Inr (Switch_To th, K') \<and> kernel_ok els cap K' = kernel_ok els cap K
    \<and> queued els K' = queued els K \<and> yielded cpu cur ctx K K' \<and> k_next_task K' = k_next_task K"
  using assms
  by (simp add: yield_preempted_and_wake_task_def take_current_context_def set_preempt_context_def upd_info_def Let_def
      kernel_ok_def queued_def yielded_def)

lemma switch_with_thread:
  assumes "ti_thread (info K nx) \<noteq> None \<or> k_threads_pooled K \<noteq> [] \<or> new_thread \<noteq> None"
    and "btm_get (k_threads_running K) cpu = Some ctx" "ti_thread (info K cur) = None" "cur \<noteq> nx"
  shows "\<exists>th K'. switch_to_next P new_thread cpu cur nx K = Inr (Switch_To th, K')
    \<and> kernel_ok els cap K' = kernel_ok els cap K \<and> queued els K' = queued els K \<and> yielded cpu cur ctx K K'
    \<and> (case ti_thread (info K nx) of Some t \<Rightarrow> th = t | None \<Rightarrow> k_next_task K' cpu = k_next_task K cpu @ [nx])"
proof -
  define K1 where "K1 = upd_info nx (\<lambda>i. i\<lparr>ti_thread := None\<rparr>) K"
  have K1: "kernel_ok els cap K1 = kernel_ok els cap K" "queued els K1 = queued els K" "k_threads_running K1 = k_threads_running K"
    "ti_thread (info K1 cur) = None" "k_threads_pooled K1 = k_threads_pooled K" "k_next_task K1 = k_next_task K"
    "\<And>K'. yielded cpu cur ctx K1 K' = yielded cpu cur ctx K K'"
    using assms(3,4) by (simp_all add: K1_def upd_info_def kernel_ok_def queued_def yielded_def)
  show ?thesis
  proof (cases "ti_thread (info K nx)")
    case (Some t)
    have "switch_to_next P new_thread cpu cur nx K = yield_preempted_and_wake_task cpu cur t K1"
      using Some by (simp add: switch_to_next_def take_preempt_context_def K1_def)
    then show ?thesis
      using yield_result[of K1 cpu ctx cur t els cap] assms(2) K1 Some by (elim meta_impE exE conjE) simp_all
  next
    case None
    define K2 where "K2 = snd (take_pooled_thread K1)"
    obtain t where t: "(case fst (take_pooled_thread K1) of Some t \<Rightarrow> Some t | None \<Rightarrow> new_thread) = Some t"
      using assms(1) None take_pooled_frame(8)[of K1] K1(5) by (cases "fst (take_pooled_thread K1)") auto
    let ?K3 = "K2\<lparr>k_next_task := (k_next_task K2)(cpu := k_next_task K2 cpu @ [nx])\<rparr>"
    have "switch_to_next P new_thread cpu cur nx K = yield_preempted_and_wake_task cpu cur t ?K3"
      using None t by (simp add: switch_to_next_def take_preempt_context_def case_prod_beta K2_def K1_def Let_def)
    moreover have "kernel_ok els cap ?K3 = kernel_ok els cap K2" "queued els ?K3 = queued els K2"
      "\<And>K'. yielded cpu cur ctx ?K3 K' = yielded cpu cur ctx K2 K'"
      by (simp_all add: kernel_ok_def queued_def yielded_def)
    moreover have "yielded cpu cur ctx K2 K' = yielded cpu cur ctx K1 K'" for K'
      by (simp add: yielded_def K2_def take_pooled_frame)
    moreover have "btm_get (k_threads_running ?K3) cpu = Some ctx" "ti_thread (info ?K3 cur) = None"
      using assms(2) K1 by (simp_all add: K2_def take_pooled_frame)
    ultimately show ?thesis
      using yield_result[of ?K3 cpu ctx cur t els cap] K1 None
      by (simp add: K2_def take_pooled_frame) (elim exE conjE, simp)
  qed
qed

text \<open>
  C7. The preemption switch. When a pending task \<open>nx\<close>, the greatest one of the CPU, has a strictly higher
  priority than the running task \<open>cur\<close> and a thread is available, \<open>do_preemption\<close> switches: \<open>nx\<close> becomes the
  running task and leaves the queues, through its saved context or as the next task of a pooled
  or new thread; \<open>cur\<close> is preempted with its context saved and waits to be woken again; and every other
  queued or pending task is still queued.
\<close>

theorem preemption_switches_to_greatest:
  assumes "ext_ok P mem els cap" "kernel_ok els cap K" "preemptable mem cpu cur nx K"
    and "btm_get (k_threads_running K) cpu = Some ctx" "ti_thread (info K cur) = None"
    and "ti_thread (info K nx) \<noteq> None \<or> k_threads_pooled K \<noteq> [] \<or> new_thread \<noteq> None"
  shows "\<exists>th K'. do_preemption P new_thread cpu K = Inr (Switch_To th, K') \<and> kernel_ok els cap K'
    \<and> k_running K' cpu = task_id K nx \<and> (\<forall>y \<in> set (btm_get_vec (k_pending K) cpu). \<not> task_lt K nx y)
    \<and> queued els K = add_mset nx (queued els K')
    \<and> ti_state (info K' cur) = Preempted \<and> ti_thread (info K' cur) = Some ctx \<and> k_preempted K' cpu = cur # k_preempted K cpu
    \<and> (case ti_thread (info K nx) of Some t \<Rightarrow> th = t | None \<Rightarrow> k_next_task K' cpu = k_next_task K cpu @ [nx])"
proof -
  note p = assms(3)[unfolded preemptable_def]
  obtain K3 where K3: "do_preemption P new_thread cpu K = switch_to_next P new_thread cpu cur nx K3" "kernel_ok els cap K3"
    "queued els K = add_mset nx (queued els K3)" "wake_frame (set_current_task cpu (task_id K nx) K) K3"
    using do_preemption_switches[OF assms(1-3), of new_thread] by (elim exE conjE)
  have f: "k_threads_running K3 = k_threads_running K" "k_threads_pooled K3 = k_threads_pooled K" "k_next_task K3 = k_next_task K"
    "k_preempted K3 = k_preempted K" "k_running K3 cpu = task_id K nx" "\<And>x. ti_thread (info K3 x) = ti_thread (info K x)"
    using K3(4) by (simp_all add: wake_frame_def set_current_task_def)
  have "cur \<noteq> nx" using p by (auto simp: preempts_def)
  then obtain th K' where "switch_to_next P new_thread cpu cur nx K3 = Inr (Switch_To th, K')" "kernel_ok els cap K'"
    "queued els K' = queued els K3" "yielded cpu cur ctx K3 K'"
    "case ti_thread (info K3 nx) of Some t \<Rightarrow> th = t | None \<Rightarrow> k_next_task K' cpu = k_next_task K3 cpu @ [nx]"
    using switch_with_thread[of K3 nx new_thread cpu ctx cur P els cap] assms(4-6) f K3(2) by auto
  moreover have "\<forall>y \<in> set (btm_get_vec (k_pending K) cpu). \<not> task_lt K nx y"
    using p task_order.peek_greatest[of K]
    by (auto simp: peek_preemption_pending_def btm_get_vec_def bind_eq_Some_conv split: option.splits)
  ultimately show ?thesis using K3 f by (cases "ti_thread (info K nx)") (auto simp: yielded_def)
qed

lemma sample_preemptable: "preemptable fset 1 0 1 sample_pending"
proof -
  have "peek_preemption_pending sample_pending 1 = Some 1"
    by (simp add: peek_preemption_pending_def sample_pending_def btm_get_def bh_peek_def bh_greatest_def)
  then show ?thesis
    using sample_pending_ok
    by (simp add: preemptable_def preempts_def sample_pending_def sample_kernel_def sample_task_def btm_get_def)
qed

theorem preemption_switches_to_greatest_witness:
  "\<exists>th K'. do_preemption list_ops (Some 7) 1 sample_pending = Inr (Switch_To th, K')
    \<and> k_running K' 1 = 2 \<and> ti_state (info K' 0) = Preempted"
proof -
  have *: "btm_get (k_threads_running sample_pending) 1 = Some 5" "ti_thread (info sample_pending 0) = None"
    "ti_thread (info sample_pending 1) \<noteq> None \<or> k_threads_pooled sample_pending \<noteq> [] \<or> Some (7 :: nat) \<noteq> None"
    "task_id sample_pending 1 = 2"
    by (simp_all add: sample_pending_def sample_kernel_def sample_task_def null_task_def btm_get_def)
  from preemption_switches_to_greatest[OF list_ops_ok sample_pending_ok(1) sample_preemptable *(1-3)] *(4)
  show ?thesis by (elim exE conjE) simp
qed

text \<open>
  C37. When no thread can be created, \<open>do_preemption\<close> puts the pending task back into the queues and returns
  to the running task, but the CPU is already marked as running the pending one. The task that goes on
  running is not preempted, and when its poll ends, whatever it returns, the assertion of \<open>run_main\<close>
  that compares the two fails: the worker panics.
\<close>

theorem failed_thread_creation_panics:
  assumes "ext_ok P mem els cap" "kernel_ok els cap K" "preemptable mem cpu cur nx K" "wakeable mem K nx"
    and "ti_thread (info K nx) = None" "k_threads_pooled K = []" "task_id K nx \<noteq> task_id K cur"
  shows "\<exists>K'. do_preemption P None cpu K = Inr (Returned, K') \<and> queued els K' = queued els K
    \<and> ti_state (info K' cur) = ti_state (info K cur) \<and> k_running K' cpu = task_id K nx
    \<and> (\<forall>res. exec_complete P cpu cur res K' = Inl Assertion_Failed)"
proof -
  obtain K3 where K3: "do_preemption P None cpu K = switch_to_next P None cpu cur nx K3" "kernel_ok els cap K3"
    "queued els K = add_mset nx (queued els K3)" "wake_frame (set_current_task cpu (task_id K nx) K) K3"
    using do_preemption_switches[OF assms(1-3), of None] by (elim exE conjE)
  define K4 where "K4 = upd_info nx (\<lambda>i. i\<lparr>ti_thread := None\<rparr>) K3"
  have fr: "wake_frame (set_current_task cpu (task_id K nx) K) K4"
    using K3(4) assms(5) by (auto simp: K4_def upd_info_def wake_frame_def set_current_task_def)
  have ok: "kernel_ok els cap K4" "queued els K4 = queued els K3" using K3(2) by (simp_all add: K4_def)
  have "running_known K4"
    using assms(3) frame_known[OF fr] by (auto simp: preemptable_def running_known_def set_current_task_def)
  moreover have "wakeable mem K4 nx" using assms(4) frame_wakeable[OF fr] by (simp add: set_current_frame)
  ultimately obtain K' where K': "sched_wake_task P (t_scheduler (k_heap K4 nx)) nx K4 = Inr K'"
    "queued els K' = add_mset nx (queued els K4)" "wake_frame K4 K'"
    using wake_result[OF assms(1) ok(1)] by blast
  have f: "wake_frame (set_current_task cpu (task_id K nx) K) K'" using wake_frame_trans[OF fr K'(3)] .
  have "take_pooled_thread K4 = (None, K4)" using fr assms(6) by (simp add: take_pooled_thread_def wake_frame_def set_current_task_def)
  then have "switch_to_next P None cpu cur nx K3 = Inr (Returned, K')"
    using K3(4) K'(1) assms(5)
    by (simp add: switch_to_next_def take_preempt_context_def wake_frame_def set_current_task_def flip: K4_def)
  moreover have "exec_complete P cpu cur res K' = Inl Assertion_Failed" for res
    using f assms(7) by (simp add: exec_complete_def Let_def wake_frame_def set_current_task_def)
  ultimately show ?thesis using K3(1,3) K'(2) ok(2) f by (simp add: wake_frame_def set_current_task_def)
qed

theorem failed_thread_creation_panics_witness:
  "\<exists>K'. do_preemption list_ops None 1 sample_pending = Inr (Returned, K')
    \<and> exec_complete list_ops 1 0 Poll_Pending K' = Inl Assertion_Failed"
proof -
  have *: "ti_thread (info sample_pending 1) = None" "k_threads_pooled sample_pending = []"
    "task_id sample_pending 1 \<noteq> task_id sample_pending 0"
    by (simp_all add: sample_pending_def sample_kernel_def boot_kernel_def sample_task_def null_task_def)
  show ?thesis
    using failed_thread_creation_panics[OF list_ops_ok sample_pending_ok(1) sample_preemptable sample_pending_ok(3) *] by blast
qed

end
