(* ===== verification/Union_Find.thy ===== *)
theory Union_Find
  imports Aw_Prelude
begin

text \<open>
  The disjoint-set forest of \<open>awkernel_async_lib/src/dag/unionfind.rs\<close> with path halving and union by rank,
  at the index type \<open>usize\<close>. Reading outside a vector through \<open>get_unchecked\<close> is undefined behaviour in
  Rust and a panic here. The rank is a \<open>u8\<close>; the invariant shows that it never overflows.
\<close>

section \<open>Model\<close>

record union_find =
  uf_parent :: "usize list"
  uf_rank :: "u8 list"

definition uf_new :: "usize \<Rightarrow> union_find" where
  "uf_new n = \<lparr>uf_parent = [0..<n], uf_rank = replicate n 0\<rparr>"

definition uf_len :: "union_find \<Rightarrow> usize" where
  "uf_len u = length (uf_parent u)"

text \<open>The loop of \<open>find_mut_recursive\<close>; \<open>None\<close> if it does not end.\<close>

partial_function (option) find_loop :: "usize list \<Rightarrow> usize \<Rightarrow> usize \<Rightarrow> (usize \<times> usize list) rust option" where
  "find_loop ps x parent =
     (if parent \<noteq> x
      then (case vec_get ps parent of
              Inl e \<Rightarrow> Some (Inl e)
            | Inr grandparent \<Rightarrow> find_loop (ps[x := grandparent]) parent grandparent)
      else Some (Inr (x, ps)))"

definition find_mut_recursive :: "union_find \<Rightarrow> usize \<Rightarrow> (usize \<times> union_find) rust" where
  "find_mut_recursive u x =
     and_then (vec_get (uf_parent u) x) (\<lambda>parent.
     and_then (and_then (returns (find_loop (uf_parent u) x parent)) (\<lambda>r. r)) (\<lambda>(x, ps).
     Inr (x, u\<lparr>uf_parent := ps\<rparr>)))"

definition try_find_mut :: "union_find \<Rightarrow> usize \<Rightarrow> (usize option \<times> union_find) rust" where
  "try_find_mut u x =
     (if x \<ge> uf_len u then Inr (None, u)
      else and_then (find_mut_recursive u x) (\<lambda>(r, u). Inr (Some r, u)))"

definition try_union :: "union_find \<Rightarrow> usize \<Rightarrow> usize \<Rightarrow> ((bool, usize) result \<times> union_find) rust" where
  "try_union u x y =
     (if x = y then Inr (Ok False, u)
      else
        and_then (try_find_mut u x) (\<lambda>(xr, u).
        case xr of
          None \<Rightarrow> Inr (Err x, u)
        | Some xrep \<Rightarrow>
            and_then (try_find_mut u y) (\<lambda>(yr, u).
            case yr of
              None \<Rightarrow> Inr (Err y, u)
            | Some yrep \<Rightarrow>
                if xrep = yrep then Inr (Ok False, u)
                else
                  and_then (vec_get (uf_rank u) xrep) (\<lambda>xrank.
                  and_then (vec_get (uf_rank u) yrep) (\<lambda>yrank.
                  if xrank < yrank
                  then and_then (vec_set (uf_parent u) xrep yrep) (\<lambda>ps. Inr (Ok True, u\<lparr>uf_parent := ps\<rparr>))
                  else if xrank > yrank
                  then and_then (vec_set (uf_parent u) yrep xrep) (\<lambda>ps. Inr (Ok True, u\<lparr>uf_parent := ps\<rparr>))
                  else and_then (vec_set (uf_parent u) yrep xrep) (\<lambda>ps.
                       and_then (vec_set (uf_rank u) xrep (xrank + 1)) (\<lambda>rs.
                       Inr (Ok True, u\<lparr>uf_parent := ps, uf_rank := rs\<rparr>))))))))"

definition uf_union :: "union_find \<Rightarrow> usize \<Rightarrow> usize \<Rightarrow> (bool \<times> union_find) rust" where
  "uf_union u x y =
     and_then (try_union u x y) (\<lambda>(r, u). case r of Ok b \<Rightarrow> Inr (b, u) | Err _ \<Rightarrow> Inl Unwrap_None)"

text \<open>The loop of \<open>into_labeling\<close> over the indices.\<close>

fun labeling_loop :: "usize list \<Rightarrow> union_find \<Rightarrow> union_find rust" where
  "labeling_loop [] u = Inr u"
| "labeling_loop (ix # ixs) u =
     and_then (vec_get (uf_parent u) ix) (\<lambda>k.
     and_then (find_mut_recursive u k) (\<lambda>(xrep, u).
     and_then (vec_set (uf_parent u) ix xrep) (\<lambda>ps.
     labeling_loop ixs (u\<lparr>uf_parent := ps\<rparr>))))"

definition into_labeling :: "union_find \<Rightarrow> usize list rust" where
  "into_labeling u = and_then (labeling_loop [0..<uf_len u] u) (\<lambda>u. Inr (uf_parent u))"

section \<open>The forest\<close>

text \<open>
  The parent of a node that is no root has a strictly greater rank. A rank is below 256, so 256 steps
  along the parents reach the root.
\<close>

definition forest :: "usize list \<Rightarrow> u8 list \<Rightarrow> bool" where
  "forest ps rs \<longleftrightarrow>
     length rs = length ps \<and> (\<forall>i < length ps. ps ! i < length ps \<and> (ps ! i \<noteq> i \<longrightarrow> unat (rs ! i) < unat (rs ! (ps ! i))))"

definition root :: "usize list \<Rightarrow> usize \<Rightarrow> usize" where
  "root ps i = ((\<lambda>i. ps ! i) ^^ 256) i"

lemma forest_steps:
  assumes "forest ps rs" "i < length ps"
  shows "((\<lambda>i. ps ! i) ^^ k) i < length ps
    \<and> (ps ! (((\<lambda>i. ps ! i) ^^ k) i) = ((\<lambda>i. ps ! i) ^^ k) i \<or> k \<le> unat (rs ! (((\<lambda>i. ps ! i) ^^ k) i)))"
proof (induction k)
  case (Suc k)
  let ?j = "((\<lambda>i. ps ! i) ^^ k) i"
  have j: "?j < length ps" "ps ! ?j < length ps" "ps ! ?j \<noteq> ?j \<Longrightarrow> unat (rs ! ?j) < unat (rs ! (ps ! ?j))"
    using Suc assms(1) by (auto simp: forest_def)
  then show ?case using Suc by fastforce
qed (use assms in \<open>simp add: forest_def\<close>)

lemma root_fixpoint:
  assumes "forest ps rs" "i < length ps"
  shows "root ps i < length ps" "ps ! root ps i = root ps i"
proof -
  have "unat (rs ! root ps i) < 2 ^ LENGTH(8)" by (rule unsigned_less)
  then show "root ps i < length ps" "ps ! root ps i = root ps i"
    using forest_steps[OF assms, of 256] unfolding root_def by auto
qed

text \<open>The root is the only function that is constant along the parents and fixes the roots.\<close>

lemma root_unique:
  assumes "forest ps rs" "\<And>i. i < length ps \<Longrightarrow> f (ps ! i) = f i" "\<And>r. r < length ps \<Longrightarrow> ps ! r = r \<Longrightarrow> f r = r"
    and "i < length ps"
  shows "root ps i = f i"
proof -
  have "f (((\<lambda>i. ps ! i) ^^ k) i) = f i" for k
  proof (induction k)
    case (Suc k)
    then show ?case using forest_steps[OF assms(1,4), of k] assms(2)[of "((\<lambda>i. ps ! i) ^^ k) i"] by simp
  qed simp
  then show ?thesis using root_fixpoint[OF assms(1,4)] assms(3)[of "root ps i"] unfolding root_def by metis
qed

lemma root_parent:
  assumes "forest ps rs" "i < length ps"
  shows "root ps (ps ! i) = root ps i"
proof -
  have "root ps (ps ! i) = ps ! root ps i" unfolding root_def by (simp flip: funpow_swap1)
  then show ?thesis using root_fixpoint(2)[OF assms] by simp
qed

lemma root_of_root: "ps ! r = r \<Longrightarrow> root ps r = r"
proof -
  assume "ps ! r = r"
  then have "((\<lambda>i. ps ! i) ^^ k) r = r" for k by (induction k) simp_all
  then show ?thesis by (simp add: root_def)
qed

lemma rank_of_root:
  assumes "forest ps rs" "i < length ps" "root ps i \<noteq> i"
  shows "unat (rs ! i) < unat (rs ! root ps i)"
proof -
  have "((\<lambda>i. ps ! i) ^^ k) i = i \<or> unat (rs ! i) < unat (rs ! (((\<lambda>i. ps ! i) ^^ k) i))" for k
  proof (induction k)
    case (Suc k)
    let ?j = "((\<lambda>i. ps ! i) ^^ k) i"
    have "?j < length ps" using forest_steps[OF assms(1,2)] by blast
    then have "ps ! ?j \<noteq> ?j \<Longrightarrow> unat (rs ! ?j) < unat (rs ! (ps ! ?j))" using assms(1) by (simp add: forest_def)
    then show ?case using Suc by (cases "ps ! ?j = ?j") auto
  qed simp
  from this[of 256] show ?thesis using assms(3) by (simp add: root_def)
qed

section \<open>Find\<close>

definition same_roots :: "usize list \<Rightarrow> usize list \<Rightarrow> bool" where
  "same_roots ps qs \<longleftrightarrow> length qs = length ps \<and> (\<forall>i < length ps. root qs i = root ps i)"

lemma same_roots_trans: "same_roots ps qs \<Longrightarrow> same_roots qs ts \<Longrightarrow> same_roots ps ts"
  by (simp add: same_roots_def)

lemma redirect:
  assumes "forest ps rs" "x < length ps" "y < length ps" "root ps y = root ps x"
    and "y \<noteq> x \<Longrightarrow> unat (rs ! x) < unat (rs ! y)" "y = x \<Longrightarrow> ps ! x = x"
  shows "forest (ps[x := y]) rs" "same_roots ps (ps[x := y])"
proof -
  show f: "forest (ps[x := y]) rs" using assms(1-3,5) by (auto simp: forest_def nth_list_update)
  have "root (ps[x := y]) i = root ps i" if "i < length ps" for i
  proof (rule root_unique[OF f])
    show "root ps (ps[x := y] ! i) = root ps i" if "i < length (ps[x := y])" for i
      using that assms(4) root_parent[OF assms(1), of i] by (cases "i = x") simp_all
    show "root ps r = r" if "r < length (ps[x := y])" "ps[x := y] ! r = r" for r
      using that assms(6) root_of_root[of ps r] by (cases "r = x") simp_all
  qed (use that in simp)
  then show "same_roots ps (ps[x := y])" by (simp add: same_roots_def)
qed

lemma find_loop_result:
  assumes "forest ps rs" "x < length ps"
  shows "\<exists>qs. find_loop ps x (ps ! x) = Some (Inr (root ps x, qs)) \<and> forest qs rs \<and> same_roots ps qs
    \<and> (\<forall>i < length ps. ps ! i = root ps i \<longrightarrow> qs ! i = root ps i)"
  using assms
proof (induction "256 - unat (rs ! x)" arbitrary: ps x rule: less_induct)
  case less
  let ?p = "ps ! x" let ?g = "ps ! ?p"
  have p: "?p < length ps" "?g < length ps" "?p \<noteq> x \<Longrightarrow> unat (rs ! x) < unat (rs ! ?p)"
    "?g \<noteq> ?p \<Longrightarrow> unat (rs ! ?p) < unat (rs ! ?g)" using less.prems by (auto simp: forest_def)
  show ?case
  proof (cases "?p = x")
    case True
    then show ?thesis using less.prems root_of_root[of ps x]
      by (subst find_loop.simps) (simp add: same_roots_def)
  next
    case False
    have "root ps ?g = root ps x" using root_parent[OF less.prems(1)] less.prems(2) p(1) by simp
    moreover have "unat (rs ! x) < unat (rs ! ?g)" using p(3)[OF False] p(4) by (cases "?g = ?p") auto
    moreover have "?g \<noteq> x" using calculation(2) by auto
    ultimately have r: "forest (ps[x := ?g]) rs" "same_roots ps (ps[x := ?g])"
      using redirect[OF less.prems p(2)] by simp_all
    have nxt: "(ps[x := ?g]) ! ?p = ?g" using False by simp
    have "256 - unat (rs ! ?p) < 256 - unat (rs ! x)"
    proof -
      have "unat (rs ! ?p) < 2 ^ LENGTH(8)" by (rule unsigned_less)
      then show ?thesis using p(3)[OF False] by simp
    qed
    from less.hyps[OF this r(1)] obtain qs where
      qs: "find_loop (ps[x := ?g]) ?p ?g = Some (Inr (root (ps[x := ?g]) ?p, qs))" "forest qs rs" "same_roots (ps[x := ?g]) qs"
      "\<forall>i < length ps. ps[x := ?g] ! i = root (ps[x := ?g]) i \<longrightarrow> qs ! i = root (ps[x := ?g]) i"
      using p(1) by (auto simp: nxt)
    have "ps[x := ?g] ! i = root ps i" if "i < length ps" "ps ! i = root ps i" for i
      using that root_fixpoint(2)[OF less.prems] by (cases "i = x") simp_all
    then have direct: "\<forall>i < length ps. ps ! i = root ps i \<longrightarrow> qs ! i = root ps i"
      using qs(4) r(2) by (simp add: same_roots_def)
    have "root (ps[x := ?g]) ?p = root ps x"
      using r(2) p(1) root_parent[OF less.prems] by (simp add: same_roots_def)
    then show ?thesis
      using False p(1) same_roots_trans[OF r(2) qs(3)] qs(1,2) direct by (subst find_loop.simps) simp
  qed
qed

lemma find_result:
  assumes "forest (uf_parent u) (uf_rank u)" "x < uf_len u"
  shows "\<exists>qs. find_mut_recursive u x = Inr (root (uf_parent u) x, u\<lparr>uf_parent := qs\<rparr>)
    \<and> forest qs (uf_rank u) \<and> same_roots (uf_parent u) qs
    \<and> (\<forall>i < uf_len u. uf_parent u ! i = root (uf_parent u) i \<longrightarrow> qs ! i = root (uf_parent u) i)"
  using find_loop_result[OF assms(1), of x] assms(2)
  by (auto simp: find_mut_recursive_def uf_len_def)

section \<open>Union\<close>

definition members :: "usize list \<Rightarrow> usize \<Rightarrow> usize set" where
  "members ps r = {i. i < length ps \<and> root ps i = r}"

text \<open>A root of rank \<open>k\<close> has at least \<open>2 ^ k\<close> members; this bounds the rank.\<close>

definition uf_inv :: "union_find \<Rightarrow> bool" where
  "uf_inv u \<longleftrightarrow> forest (uf_parent u) (uf_rank u) \<and> uf_len u < 2 ^ 64 \<and>
     (\<forall>r < uf_len u. root (uf_parent u) r = r \<longrightarrow> 2 ^ unat (uf_rank u ! r) \<le> card (members (uf_parent u) r))"

lemma uf_inv_same_roots:
  assumes "uf_inv u" "forest qs (uf_rank u)" "same_roots (uf_parent u) qs"
  shows "uf_inv (u\<lparr>uf_parent := qs\<rparr>)"
proof -
  have "members qs r = members (uf_parent u) r" for r using assms(3) by (auto simp: members_def same_roots_def)
  then show ?thesis using assms by (auto simp: uf_inv_def uf_len_def same_roots_def)
qed

lemma root_iff: "forest ps rs \<Longrightarrow> r < length ps \<Longrightarrow> root ps r = r \<longleftrightarrow> ps ! r = r"
  using root_fixpoint(2)[of ps rs r] root_of_root[of ps r] by auto

lemma link:
  assumes "forest ps rs" "c < length ps" "t < length ps" "root ps c = c" "root ps t = t" "c \<noteq> t"
    and "unat (rs ! t) \<le> unat k" "unat (rs ! c) < unat k"
  shows "forest (ps[c := t]) (rs[t := k])"
    and "\<And>i. i < length ps \<Longrightarrow> root (ps[c := t]) i = (if root ps i = c then t else root ps i)"
proof -
  have r: "ps ! c = c" "ps ! t = t" "length rs = length ps" using assms(1-5) by (auto simp: root_iff[OF assms(1)] forest_def)
  have "unat (rs[t := k] ! i) < unat (rs[t := k] ! (ps[c := t] ! i))"
    if "i < length ps" "ps[c := t] ! i \<noteq> i" for i
  proof (cases "i = c")
    case True
    then show ?thesis using assms(2,3,6,8) r(3) by simp
  next
    case False
    then have i: "i \<noteq> t" "ps ! i \<noteq> i" "unat (rs ! i) < unat (rs ! (ps ! i))" "ps ! i < length ps"
      using that assms(1) r(2) by (auto simp: forest_def)
    then show ?thesis using False assms(7) r(3) by (cases "ps ! i = t") simp_all
  qed
  moreover have "ps[c := t] ! i < length ps" if "i < length ps" for i
    using that assms(1,3) by (cases "i = c") (simp_all add: forest_def)
  ultimately show f: "forest (ps[c := t]) (rs[t := k])" using r(3) by (simp add: forest_def)
  show "root (ps[c := t]) i = (if root ps i = c then t else root ps i)" if "i < length ps" for i
  proof (rule root_unique[OF f])
    show "(if root ps (ps[c := t] ! i) = c then t else root ps (ps[c := t] ! i)) = (if root ps i = c then t else root ps i)"
      if "i < length (ps[c := t])" for i
      using that assms(4,5,6) root_parent[OF assms(1), of i] by (cases "i = c") simp_all
    show "(if root ps r = c then t else root ps r) = r" if "r < length (ps[c := t])" "ps[c := t] ! r = r" for r
      using that assms(5,6) r root_of_root[of ps r] by (cases "r = c") auto
  qed (use that in simp)
qed

lemma link_inv:
  assumes "uf_inv u" "c < uf_len u" "t < uf_len u" "root (uf_parent u) c = c" "root (uf_parent u) t = t" "c \<noteq> t"
    and "unat (uf_rank u ! t) \<le> unat k" "unat (uf_rank u ! c) < unat k"
    and "2 ^ unat k \<le> card (members (uf_parent u) c) + card (members (uf_parent u) t)"
  shows "uf_inv (u\<lparr>uf_parent := (uf_parent u)[c := t], uf_rank := (uf_rank u)[t := k]\<rparr>)"
proof -
  let ?ps = "uf_parent u" let ?qs = "?ps[c := t]"
  have f: "forest ?ps (uf_rank u)" and n: "c < length ?ps" "t < length ?ps" using assms(1-3) by (simp_all add: uf_inv_def uf_len_def)
  note l = link[OF f n assms(4-8)]
  have ms: "members ?qs r = (if r = t then members ?ps c \<union> members ?ps t else if r = c then {} else members ?ps r)" for r
    using l(2) assms(5,6) by (auto simp: members_def split: if_splits)
  have "card (members ?ps c \<union> members ?ps t) = card (members ?ps c) + card (members ?ps t)"
    using assms(6) by (intro card_Un_disjoint) (auto simp: members_def)
  then have "2 ^ unat ((uf_rank u)[t := k] ! r) \<le> card (members ?qs r)" if "r < length ?ps" "root ?qs r = r" for r
    using that assms(1,3,4,6,9) l(2)[of r] f by (auto simp: ms uf_inv_def uf_len_def forest_def split: if_splits)
  then show ?thesis using l(1) assms(1) by (simp add: uf_inv_def uf_len_def)
qed

lemma try_find_result:
  assumes "uf_inv u" "x < uf_len u"
  obtains qs where "try_find_mut u x = Inr (Some (root (uf_parent u) x), u\<lparr>uf_parent := qs\<rparr>)"
    "uf_inv (u\<lparr>uf_parent := qs\<rparr>)" "same_roots (uf_parent u) qs"
proof -
  have "forest (uf_parent u) (uf_rank u)" using assms(1) by (simp add: uf_inv_def)
  from find_result[OF this assms(2)] obtain qs where
    "find_mut_recursive u x = Inr (root (uf_parent u) x, u\<lparr>uf_parent := qs\<rparr>)" "forest qs (uf_rank u)" "same_roots (uf_parent u) qs"
    by blast
  then show ?thesis using that[of qs] uf_inv_same_roots[OF assms(1)] assms(2) by (simp add: try_find_mut_def)
qed

lemma rank_no_overflow:
  assumes "uf_inv u" "r < uf_len u" "root (uf_parent u) r = r"
  shows "unat (uf_rank u ! r + 1) = unat (uf_rank u ! r) + 1"
proof -
  have "2 ^ unat (uf_rank u ! r) \<le> card (members (uf_parent u) r)" using assms by (simp add: uf_inv_def)
  also have "\<dots> \<le> card {..<uf_len u}" by (intro card_mono) (auto simp: members_def uf_len_def)
  also have "\<dots> < 2 ^ 64" using assms(1) by (simp add: uf_inv_def)
  finally have "(2 :: nat) ^ unat (uf_rank u ! r) < 2 ^ 64" .
  then have "unat (uf_rank u ! r) < 64" by (rule power_less_imp_less_exp[rotated]) simp
  then show ?thesis by (simp add: unat_word_ariths)
qed

text \<open>The effect of a union on the roots: one root is replaced by the other.\<close>

definition joined :: "usize list \<Rightarrow> usize list \<Rightarrow> usize \<Rightarrow> usize \<Rightarrow> bool" where
  "joined ps qs x y \<longleftrightarrow> length qs = length ps \<and>
     (\<forall>i < length ps. \<forall>j < length ps. root qs i = root qs j \<longleftrightarrow>
        root ps i = root ps j \<or> {root ps i, root ps j} = {root ps x, root ps y})"

lemma replace_eq: "c \<noteq> t \<Longrightarrow> (if a = c then t else a) = (if b = c then t else b) \<longleftrightarrow> a = b \<or> {a, b} = {c, t}"
  by (auto simp: doubleton_eq_iff)

lemma joined_link:
  assumes "same_roots ps qs" "x < length ps" "y < length ps" "{c, t} = {root ps x, root ps y}" "c \<noteq> t" "length ts = length ps"
    and "\<And>i. i < length ps \<Longrightarrow> root ts i = (if root qs i = c then t else root qs i)"
  shows "joined ps ts x y"
proof -
  have "root ts i = (if root ps i = c then t else root ps i)" if "i < length ps" for i
    using assms(1,7) that by (simp add: same_roots_def)
  then show ?thesis using replace_eq[OF assms(5)] assms(6) by (simp add: joined_def assms(4))
qed

lemma joined_same:
  assumes "same_roots ps qs" "root ps x = root ps y"
  shows "joined ps qs x y"
proof -
  have "{a, b} = {root ps x, root ps y} \<Longrightarrow> a = b" for a b using assms(2) by (simp add: doubleton_eq_iff)
  then show ?thesis using assms(1) by (simp add: joined_def same_roots_def) blast
qed

lemma union_result:
  assumes "uf_inv u" "x < uf_len u" "y < uf_len u"
  shows "\<exists>b v. uf_union u x y = Inr (b, v) \<and> uf_inv v \<and> joined (uf_parent u) (uf_parent v) x y
    \<and> (b \<longleftrightarrow> root (uf_parent u) x \<noteq> root (uf_parent u) y)"
proof (cases "x = y")
  case True
  then show ?thesis using assms(1) joined_same[of "uf_parent u" "uf_parent u" x x]
    by (simp add: uf_union_def try_union_def same_roots_def) blast
next
  case False
  let ?ps = "uf_parent u" let ?x = "root ?ps x" let ?y = "root ?ps y"
  obtain qs where q: "try_find_mut u x = Inr (Some ?x, u\<lparr>uf_parent := qs\<rparr>)" "uf_inv (u\<lparr>uf_parent := qs\<rparr>)" "same_roots ?ps qs"
    using try_find_result[OF assms(1,2)] .
  have y: "y < uf_len (u\<lparr>uf_parent := qs\<rparr>)" "root qs y = ?y" using assms(3) q(3) by (simp_all add: uf_len_def same_roots_def)
  obtain ts where t: "try_find_mut (u\<lparr>uf_parent := qs\<rparr>) y = Inr (Some ?y, u\<lparr>uf_parent := ts\<rparr>)" "uf_inv (u\<lparr>uf_parent := ts\<rparr>)" "same_roots qs ts"
    using try_find_result[OF q(2) y(1)] y(2) by auto
  define w where "w = u\<lparr>uf_parent := ts\<rparr>"
  have inv: "uf_inv w" "uf_parent w = ts" "uf_rank w = uf_rank u" using t(2) by (simp_all add: w_def)
  have same: "same_roots ?ps ts" using same_roots_trans[OF q(3) t(3)] .
  have f: "forest ?ps (uf_rank u)" using assms(1) by (simp add: uf_inv_def)
  have xy: "?x < uf_len w" "?y < uf_len w" "root ts ?x = ?x" "root ts ?y = ?y" "length ts = length ?ps" "length (uf_rank u) = length ?ps"
    using same root_fixpoint[OF f] assms(2,3) f by (auto simp: w_def uf_len_def same_roots_def root_of_root forest_def)
  show ?thesis
  proof (cases "?x = ?y")
    case True
    then have "uf_union u x y = Inr (False, w)" using False q(1) t(1) by (simp add: uf_union_def try_union_def w_def)
    then show ?thesis using True inv joined_same[OF same True] by simp blast
  next
    case ne: False
    have size: "2 ^ unat (uf_rank u ! r) \<le> card (members ts r)" if "r < uf_len w" "root ts r = r" for r
      using inv that by (simp add: uf_inv_def)
    have join: "\<exists>b v. uf_union u x y = Inr (b, v) \<and> uf_inv v \<and> joined ?ps (uf_parent v) x y \<and> (b \<longleftrightarrow> ?x \<noteq> ?y)"
      if c: "uf_union u x y = Inr (True, w\<lparr>uf_parent := ts[c := d], uf_rank := (uf_rank u)[d := k]\<rparr>)"
        "{c, d} = {?x, ?y}" "unat (uf_rank u ! d) \<le> unat k" "unat (uf_rank u ! c) < unat k"
        "2 ^ unat k \<le> card (members ts c) + card (members ts d)" for c d k
    proof -
      have cd: "c \<noteq> d" "c < uf_len w" "d < uf_len w" "root ts c = c" "root ts d = d"
        using c(2) ne xy by (auto simp: doubleton_eq_iff)
      have "uf_inv (w\<lparr>uf_parent := ts[c := d], uf_rank := (uf_rank u)[d := k]\<rparr>)"
        using link_inv[of w c d k] inv cd c(3-5) by simp
      moreover have "joined ?ps (ts[c := d]) x y"
        using link(2)[of ts "uf_rank u" c d k] inv(1,2) cd c(3,4) xy(5) assms(2,3) c(2)
        by (intro joined_link[OF same]) (auto simp: uf_inv_def w_def uf_len_def)
      ultimately show ?thesis using c(1) ne by auto
    qed
    have un: "uf_union u x y = (let xr = uf_rank u ! ?x; yr = uf_rank u ! ?y in
        if xr < yr then Inr (True, w\<lparr>uf_parent := ts[?x := ?y]\<rparr>)
        else if yr < xr then Inr (True, w\<lparr>uf_parent := ts[?y := ?x]\<rparr>)
        else Inr (True, w\<lparr>uf_parent := ts[?y := ?x], uf_rank := (uf_rank u)[?x := xr + 1]\<rparr>))"
      using False ne q(1) t(1) xy by (simp add: uf_union_def try_union_def Let_def uf_len_def w_def)
    consider "uf_rank u ! ?x < uf_rank u ! ?y" | "uf_rank u ! ?y < uf_rank u ! ?x" | "uf_rank u ! ?x = uf_rank u ! ?y"
      by fastforce
    then show ?thesis
    proof cases
      case 1
      show ?thesis
        by (rule join[where c = ?x and d = ?y and k = "uf_rank u ! ?y"])
          (use 1 size[OF xy(2,4)] un in \<open>simp_all add: word_less_nat_alt w_def\<close>)
    next
      case 2
      show ?thesis
        by (rule join[where c = ?y and d = ?x and k = "uf_rank u ! ?x"])
          (use 2 size[OF xy(1,3)] un in \<open>simp_all add: word_less_nat_alt w_def insert_commute Let_def\<close>)
    next
      case 3
      have "unat (uf_rank u ! ?x + 1) = unat (uf_rank u ! ?x) + 1"
        using rank_no_overflow[OF inv(1) xy(1)] xy(3) inv by simp
      then show ?thesis
        by (intro join[where c = ?y and d = ?x and k = "uf_rank u ! ?x + 1"])
          (use 3 size[OF xy(1,3)] size[OF xy(2,4)] un in \<open>simp_all add: insert_commute Let_def\<close>)
    qed
  qed
qed

section \<open>Labels and connectivity\<close>

lemma labeling_loop_result:
  assumes "uf_inv u" "set ixs \<subseteq> {..<uf_len u}"
  shows "\<exists>v. labeling_loop ixs u = Inr v \<and> uf_inv v \<and> same_roots (uf_parent u) (uf_parent v)
    \<and> (\<forall>i < uf_len u. (i \<in> set ixs \<or> uf_parent u ! i = root (uf_parent u) i) \<longrightarrow> uf_parent v ! i = root (uf_parent u) i)"
  using assms
proof (induction ixs arbitrary: u)
  case Nil
  then show ?case by (simp add: same_roots_def)
next
  case (Cons ix ixs)
  let ?ps = "uf_parent u" let ?r = "root ?ps ix"
  have f: "forest ?ps (uf_rank u)" and ix: "ix < length ?ps" using Cons.prems by (simp_all add: uf_inv_def uf_len_def)
  have k: "?ps ! ix < length ?ps" using f ix by (simp add: forest_def)
  obtain qs where q: "find_mut_recursive u (?ps ! ix) = Inr (?r, u\<lparr>uf_parent := qs\<rparr>)" "forest qs (uf_rank u)" "same_roots ?ps qs"
    "\<forall>i < uf_len u. ?ps ! i = root ?ps i \<longrightarrow> qs ! i = root ?ps i"
    using find_result[OF f, of "?ps ! ix"] k root_parent[OF f ix] by (auto simp: uf_len_def)
  have r: "?r < length qs" "qs ! ?r = ?r" "root qs ix = ?r" "root qs ?r = ?r" "ix < length qs"
    using q(2,3) root_fixpoint[OF q(2), of ix] ix root_of_root[of qs] by (auto simp: same_roots_def)
  have rank: "ix \<noteq> ?r \<Longrightarrow> unat (uf_rank u ! ix) < unat (uf_rank u ! ?r)"
    using rank_of_root[OF q(2) r(5)] r(3) by auto
  have l: "forest (qs[ix := ?r]) (uf_rank u)" "same_roots qs (qs[ix := ?r])"
    by (rule redirect[OF q(2) r(5,1)]; use r(2,3,4) rank in force)+
  define w where "w = u\<lparr>uf_parent := qs[ix := ?r]\<rparr>"
  have w: "uf_inv w" "same_roots ?ps (uf_parent w)"
    using uf_inv_same_roots[OF Cons.prems(1) l(1)] same_roots_trans[OF q(3) l(2)] by (simp_all add: w_def)
  have "labeling_loop (ix # ixs) u = labeling_loop ixs w" using ix q(1) r(5) by (simp add: w_def)
  moreover obtain v where v: "labeling_loop ixs w = Inr v" "uf_inv v" "same_roots (uf_parent w) (uf_parent v)"
    "\<forall>i < uf_len w. (i \<in> set ixs \<or> uf_parent w ! i = root (uf_parent w) i) \<longrightarrow> uf_parent v ! i = root (uf_parent w) i"
    using Cons.IH[OF w(1)] Cons.prems(2) w(2) by (auto simp: uf_len_def same_roots_def)
  moreover have "uf_parent w ! i = root ?ps i" if "i < length ?ps" "i = ix \<or> ?ps ! i = root ?ps i" for i
    using that q(4) r(5) by (cases "i = ix") (auto simp: w_def uf_len_def)
  ultimately show ?case using w(2) same_roots_trans[OF w(2) v(3)] by (auto simp: uf_len_def same_roots_def)
qed

text \<open>Connectivity by undirected edges.\<close>

definition conn :: "(usize \<times> usize) set \<Rightarrow> (usize \<times> usize) set" where
  "conn E = (E \<union> E\<inverse>)\<^sup>*"

lemma conn_refl [simp]: "(i, i) \<in> conn E"
  by (simp add: conn_def)

lemma conn_sym: "(i, j) \<in> conn E \<Longrightarrow> (j, i) \<in> conn E"
proof -
  have "sym (conn E)" unfolding conn_def by (intro sym_rtrancl) (auto simp: sym_def)
  then show "(i, j) \<in> conn E \<Longrightarrow> (j, i) \<in> conn E" by (rule symD)
qed

lemma conn_trans: "(i, j) \<in> conn E \<Longrightarrow> (j, k) \<in> conn E \<Longrightarrow> (i, k) \<in> conn E"
  unfolding conn_def by (rule rtrancl_trans)

lemma conn_insert:
  "(i, j) \<in> conn (insert (x, y) E) \<longleftrightarrow>
     (i, j) \<in> conn E \<or> (i, x) \<in> conn E \<and> (y, j) \<in> conn E \<or> (i, y) \<in> conn E \<and> (x, j) \<in> conn E" (is "_ \<longleftrightarrow> ?R i j")
proof
  assume "(i, j) \<in> conn (insert (x, y) E)"
  then show "?R i j" unfolding conn_def
  proof (induction rule: rtrancl_induct)
    case (step j k)
    note IH = step.IH[folded conn_def]
    have "(j, k) \<in> E \<union> E\<inverse> \<or> (j, k) = (x, y) \<or> (j, k) = (y, x)" using step.hyps(2) by auto
    then consider "(j, k) \<in> conn E" | "j = x" "k = y" | "j = y" "k = x" by (auto simp: conn_def)
    then have "?R i k"
    proof cases
      case 1
      show ?thesis using IH conn_trans[OF _ 1, of i] conn_trans[OF _ 1, of y] conn_trans[OF _ 1, of x] by argo
    qed (use IH in auto)
    then show ?case by (simp add: conn_def)
  qed simp
next
  let ?E = "insert (x, y) E"
  have mono: "(a, b) \<in> conn ?E" if "(a, b) \<in> conn E" for a b
    using that rtrancl_mono[of "E \<union> E\<inverse>" "?E \<union> ?E\<inverse>"] unfolding conn_def by blast
  have xy: "(x, y) \<in> conn ?E" "(y, x) \<in> conn ?E" by (auto simp: conn_def)
  assume "?R i j"
  then show "(i, j) \<in> conn ?E"
  proof (elim disjE conjE)
    assume "(i, x) \<in> conn E" "(y, j) \<in> conn E"
    then show ?thesis using conn_trans[OF mono conn_trans[OF xy(1) mono]] by simp
  next
    assume "(i, y) \<in> conn E" "(x, j) \<in> conn E"
    then show ?thesis using conn_trans[OF mono conn_trans[OF xy(2) mono]] by simp
  qed (rule mono)
qed

fun union_all :: "(usize \<times> usize) list \<Rightarrow> union_find \<Rightarrow> union_find rust" where
  "union_all [] u = Inr u"
| "union_all (e # es) u = and_then (uf_union u (fst e) (snd e)) (\<lambda>(_, u). union_all es u)"

lemma union_all_result:
  assumes "uf_inv u" "set es \<subseteq> {..<uf_len u} \<times> {..<uf_len u}"
    and "\<And>i j. i < uf_len u \<Longrightarrow> j < uf_len u \<Longrightarrow> root (uf_parent u) i = root (uf_parent u) j \<longleftrightarrow> (i, j) \<in> conn E"
  shows "\<exists>v. union_all es u = Inr v \<and> uf_inv v \<and> uf_len v = uf_len u
    \<and> (\<forall>i < uf_len u. \<forall>j < uf_len u. root (uf_parent v) i = root (uf_parent v) j \<longleftrightarrow> (i, j) \<in> conn (E \<union> set es))"
  using assms
proof (induction es arbitrary: u E)
  case (Cons e es)
  obtain x y where e: "e = (x, y)" by (cases e)
  have xy: "x < uf_len u" "y < uf_len u" using Cons.prems(2) by (auto simp: e)
  obtain b v where v: "uf_union u x y = Inr (b, v)" "uf_inv v" "joined (uf_parent u) (uf_parent v) x y"
    using union_result[OF Cons.prems(1) xy] by blast
  have len: "uf_len v = uf_len u" using v(3) by (simp add: joined_def uf_len_def)
  have "root (uf_parent v) i = root (uf_parent v) j \<longleftrightarrow> (i, j) \<in> conn (insert (x, y) E)" if "i < uf_len v" "j < uf_len v" for i j
  proof -
    note r = Cons.prems(3)
    have "root (uf_parent v) i = root (uf_parent v) j \<longleftrightarrow> root (uf_parent u) i = root (uf_parent u) j
        \<or> root (uf_parent u) i = root (uf_parent u) x \<and> root (uf_parent u) y = root (uf_parent u) j
        \<or> root (uf_parent u) i = root (uf_parent u) y \<and> root (uf_parent u) x = root (uf_parent u) j"
      using v(3) that len by (auto simp: joined_def uf_len_def doubleton_eq_iff)
    then show ?thesis using r xy that len by (simp add: conn_insert)
  qed
  from Cons.IH[OF v(2) _ this] Cons.prems(2) len v(1) show ?case by (auto simp: e)
qed simp

text \<open>The labels after joining the edges: two nodes have the same label iff they are connected.\<close>

lemma labels_result:
  assumes "n < 2 ^ 64" "set es \<subseteq> {..<n} \<times> {..<n}"
  shows "\<exists>ls. and_then (union_all es (uf_new n)) into_labeling = Inr ls \<and> length ls = n
    \<and> (\<forall>i < n. \<forall>j < n. ls ! i = ls ! j \<longleftrightarrow> (i, j) \<in> conn (set es))"
proof -
  let ?u = "uf_new n"
  have r: "root (uf_parent ?u) i = i" if "i < n" for i using that by (intro root_of_root) (simp add: uf_new_def)
  have "members (uf_parent ?u) i = {i}" if "i < n" for i using that r by (auto simp: members_def uf_new_def)
  then have inv: "uf_inv ?u" using assms(1) by (simp add: uf_inv_def forest_def uf_len_def) (simp add: uf_new_def)
  have len: "uf_len ?u = n" by (simp add: uf_len_def uf_new_def)
  have "(i, j) \<in> conn {} \<longleftrightarrow> i = j" for i j by (simp add: conn_def)
  then obtain v where v: "union_all es ?u = Inr v" "uf_inv v" "uf_len v = n"
    "\<forall>i < n. \<forall>j < n. root (uf_parent v) i = root (uf_parent v) j \<longleftrightarrow> (i, j) \<in> conn (set es)"
    using union_all_result[OF inv, of es "{}"] assms(2) r by (auto simp: len)
  obtain w where "labeling_loop [0..<uf_len v] v = Inr w" "same_roots (uf_parent v) (uf_parent w)"
    "\<forall>i < uf_len v. uf_parent w ! i = root (uf_parent v) i"
    using labeling_loop_result[OF v(2), of "[0..<uf_len v]"] by (auto simp: atLeast0LessThan)
  then show ?thesis using v by (auto simp: into_labeling_def uf_len_def same_roots_def)
qed

end
