(* ===== verification/Graph_Algo.thy ===== *)
theory Graph_Algo
  imports Dag_Graph Union_Find
begin

text \<open>
  The graph algorithms of \<open>awkernel_async_lib/src/dag/graph/algo.rs\<close> and the depth first search of
  \<open>awkernel_async_lib/src/dag/visit/dfsvisit.rs\<close> they use. The visitor is a closure: it takes and
  returns its captured state. The trait \<open>ControlFlow\<close> is a record of its three functions. The bit set
  of visited nodes is a type of the crate \<open>fixedbitset\<close> and a parameter.
\<close>

section \<open>Connected components\<close>

definition connected_components :: "('n, 'e) graph \<Rightarrow> usize rust" where
  "connected_components g =
     and_then (union_all (map (\<lambda>e. (unat (er_source e), unat (er_target e))) (edge_references g)) (uf_new (node_count g)))
       (\<lambda>vertex_sets.
     and_then (into_labeling vertex_sets) (\<lambda>labels.
     Inr (length (remdups_adj (sort labels)))))"

section \<open>Depth first search\<close>

text \<open>The operations of \<open>FixedBitSet\<close> that the source calls.\<close>

record 'b bit_set_ops =
  fbs_with_capacity :: "usize \<Rightarrow> 'b"
  fbs_put :: "'b \<Rightarrow> usize \<Rightarrow> (bool \<times> 'b) rust"
  fbs_contains :: "'b \<Rightarrow> usize \<Rightarrow> bool"

definition visit_map :: "'b bit_set_ops \<Rightarrow> ('n, 'e) graph \<Rightarrow> 'b" where
  "visit_map B g = fbs_with_capacity B (node_count g)"

definition visit :: "'b bit_set_ops \<Rightarrow> 'b \<Rightarrow> node_index \<Rightarrow> (bool \<times> 'b) rust" where
  "visit B m x = and_then (fbs_put B m (unat x)) (\<lambda>(prev, m). Inr (\<not> prev, m))"

definition is_visited :: "'b bit_set_ops \<Rightarrow> 'b \<Rightarrow> node_index \<Rightarrow> bool" where
  "is_visited B m x = fbs_contains B m (unat x)"

datatype dfs_event =
    Discover node_index usize
  | TreeEdge node_index node_index
  | BackEdge node_index node_index
  | CrossForwardEdge node_index node_index
  | Finish node_index usize

datatype 'b control = Continue | Prune | Break 'b

definition break_value :: "'b control \<Rightarrow> 'b option" where
  "break_value c = (case c of Break b \<Rightarrow> Some b | _ \<Rightarrow> None)"

record 'c control_flow =
  cf_continuing :: 'c
  cf_should_break :: "'c \<Rightarrow> bool"
  cf_should_prune :: "'c \<Rightarrow> bool"

definition unit_control_flow :: "unit control_flow" where
  "unit_control_flow = \<lparr>cf_continuing = (), cf_should_break = (\<lambda>_. False), cf_should_prune = (\<lambda>_. False)\<rparr>"

definition control_control_flow :: "'b control control_flow" where
  "control_control_flow = \<lparr>
     cf_continuing = Continue,
     cf_should_break = (\<lambda>c. case c of Break _ \<Rightarrow> True | _ \<Rightarrow> False),
     cf_should_prune = (\<lambda>c. case c of Prune \<Rightarrow> True | _ \<Rightarrow> False)\<rparr>"

definition result_control_flow :: "'c control_flow \<Rightarrow> ('c, 'e) result control_flow" where
  "result_control_flow C = \<lparr>
     cf_continuing = Ok (cf_continuing C),
     cf_should_break = (\<lambda>r. case r of Ok c \<Rightarrow> cf_should_break C c | Err _ \<Rightarrow> True),
     cf_should_prune = (\<lambda>r. case r of Ok c \<Rightarrow> cf_should_prune C c | Err _ \<Rightarrow> False)\<rparr>"

text \<open>The variables that a search mutates, with the captured state of the visitor.\<close>

record ('b, 's) dfs_state =
  d_discovered :: 'b
  d_finished :: 'b
  d_time :: usize
  d_visitor :: 's

definition time_post_inc :: "('b, 's) dfs_state \<Rightarrow> usize \<times> ('b, 's) dfs_state" where
  "time_post_inc s = (d_time s, s\<lparr>d_time := d_time s + 1\<rparr>)"

type_synonym ('c, 's) visitor = "'s \<Rightarrow> dfs_event \<Rightarrow> 'c \<times> 's"

definition call_visitor :: "('c, 's) visitor \<Rightarrow> dfs_event \<Rightarrow> ('b, 's) dfs_state \<Rightarrow> 'c \<times> ('b, 's) dfs_state" where
  "call_visitor f ev s = (case f (d_visitor s) ev of (c, t) \<Rightarrow> (c, s\<lparr>d_visitor := t\<rparr>))"

text \<open>
  The recursion. \<open>Dfs_Visitor u\<close> is a call of \<open>dfs_visitor\<close> and \<open>Dfs_Neighbors u it\<close> its loop over the
  remaining neighbors. A value \<open>Some c\<close> is a \<open>return c\<close> of \<open>dfs_visitor\<close>; the loop gives \<open>None\<close> when it
  falls through to the code after it. The macro \<open>try_control\<close> is the nested conditional after each
  call. The outer option is \<open>None\<close> when the search does not end.
\<close>

datatype 'e dfs_call = Dfs_Visitor node_index | Dfs_Neighbors node_index "'e neighbors"

definition dfs_finish ::
    "'b bit_set_ops \<Rightarrow> 'c control_flow \<Rightarrow> ('c, 's) visitor \<Rightarrow> node_index \<Rightarrow> ('b, 's) dfs_state
     \<Rightarrow> ('c option \<times> ('b, 's) dfs_state) rust" where
  "dfs_finish B C f u s =
     and_then (visit B (d_finished s) u) (\<lambda>(_, fin).
     let (t, s) = time_post_inc (s\<lparr>d_finished := fin\<rparr>);
         (c, s) = call_visitor f (Finish u t) s
     in if cf_should_break C c then Inr (Some c, s)
        else if cf_should_prune C c then Inl Explicit_Panic
        else Inr (Some (cf_continuing C), s))"

partial_function (option) dfs_run ::
    "'b bit_set_ops \<Rightarrow> 'c control_flow \<Rightarrow> ('n, 'e) graph \<Rightarrow> ('c, 's) visitor \<Rightarrow> 'e dfs_call \<Rightarrow> ('b, 's) dfs_state
     \<Rightarrow> ('c option \<times> ('b, 's) dfs_state) rust option" where
  "dfs_run B C g f call s =
     (case call of
        Dfs_Visitor u \<Rightarrow>
          (case visit B (d_discovered s) u of
             Inl e \<Rightarrow> Some (Inl e)
           | Inr (first, m) \<Rightarrow>
               let s = s\<lparr>d_discovered := m\<rparr> in
               if \<not> first then Some (Inr (Some (cf_continuing C), s))
               else
                 let (t, s) = time_post_inc s;
                     (c, s) = call_visitor f (Discover u t) s
                 in if cf_should_break C c then Some (Inr (Some c, s))
                    else if cf_should_prune C c then Some (dfs_finish B C f u s)
                    else Option.bind (dfs_run B C g f (Dfs_Neighbors u (neighbors_directed g u Outgoing)) s) (\<lambda>r.
                      case r of
                        Inl e \<Rightarrow> Some (Inl e)
                      | Inr (Some c, s) \<Rightarrow> Some (Inr (Some c, s))
                      | Inr (None, s) \<Rightarrow> Some (dfs_finish B C f u s)))
      | Dfs_Neighbors u it \<Rightarrow>
          Option.bind (nb_next it) (\<lambda>p.
          case fst p of
            None \<Rightarrow> Some (Inr (None, s))
          | Some v \<Rightarrow>
              if \<not> is_visited B (d_discovered s) v then
                let (c, s) = call_visitor f (TreeEdge u v) s
                in if cf_should_break C c then Some (Inr (Some c, s))
                   else if cf_should_prune C c then dfs_run B C g f (Dfs_Neighbors u (snd p)) s
                   else Option.bind (dfs_run B C g f (Dfs_Visitor v) s) (\<lambda>r.
                     case r of
                       Inl e \<Rightarrow> Some (Inl e)
                     | Inr (None, s) \<Rightarrow> Some (Inr (None, s))
                     | Inr (Some c, s) \<Rightarrow>
                         if cf_should_break C c then Some (Inr (Some c, s))
                         else if cf_should_prune C c then Some (Inl Unreachable_Reached)
                         else dfs_run B C g f (Dfs_Neighbors u (snd p)) s)
              else
                let (c, s) = call_visitor f (if \<not> is_visited B (d_finished s) v then BackEdge u v else CrossForwardEdge u v) s
                in if cf_should_break C c then Some (Inr (Some c, s))
                   else dfs_run B C g f (Dfs_Neighbors u (snd p)) s))"

text \<open>The loop over the start nodes.\<close>

fun dfs_starts ::
    "'b bit_set_ops \<Rightarrow> 'c control_flow \<Rightarrow> ('n, 'e) graph \<Rightarrow> ('c, 's) visitor \<Rightarrow> node_index list \<Rightarrow> ('b, 's) dfs_state
     \<Rightarrow> ('c \<times> 's) rust" where
  "dfs_starts B C g f [] s = Inr (cf_continuing C, d_visitor s)"
| "dfs_starts B C g f (start # starts) s =
     and_then (and_then (returns (dfs_run B C g f (Dfs_Visitor start) s)) (\<lambda>r. r)) (\<lambda>(r, s).
     and_then (unwrap r) (\<lambda>c.
     if cf_should_break C c then Inr (c, d_visitor s)
     else if cf_should_prune C c then Inl Unreachable_Reached
     else dfs_starts B C g f starts s))"

definition depth_first_search ::
    "'b bit_set_ops \<Rightarrow> 'c control_flow \<Rightarrow> ('n, 'e) graph \<Rightarrow> node_index list \<Rightarrow> ('c, 's) visitor \<Rightarrow> 's \<Rightarrow> ('c \<times> 's) rust" where
  "depth_first_search B C g starts f s =
     dfs_starts B C g f starts \<lparr>d_discovered = visit_map B g, d_finished = visit_map B g, d_time = 0, d_visitor = s\<rparr>"

definition cycle_visitor :: "((unit, unit) result, unit) visitor" where
  "cycle_visitor s event = (case event of BackEdge _ _ \<Rightarrow> (Err (), s) | _ \<Rightarrow> (Ok (), s))"

definition is_cyclic_directed :: "'b bit_set_ops \<Rightarrow> ('n, 'e) graph \<Rightarrow> bool rust" where
  "is_cyclic_directed B g =
     and_then (depth_first_search B (result_control_flow unit_control_flow) g (node_indices g) cycle_visitor ())
       (\<lambda>(c, _). Inr (case c of Err _ \<Rightarrow> True | Ok _ \<Rightarrow> False))"

section \<open>The number of components\<close>

definition edges_of :: "('n, 'e) graph \<Rightarrow> (usize \<times> usize) set" where
  "edges_of g = (\<lambda>e. (unat (ge_node0 e), unat (ge_node1 e))) ` set (g_edges g)"

lemma edges_of_range: "graph_inv g \<Longrightarrow> edges_of g \<subseteq> {..<node_count g} \<times> {..<node_count g}"
  by (auto simp: edges_of_def graph_inv_def node_count_def in_set_conv_nth)

lemma edge_references_pairs:
  "map (\<lambda>e. (unat (er_source e), unat (er_target e))) (edge_references g) = map (\<lambda>e. (unat (ge_node0 e), unat (ge_node1 e))) (g_edges g)"
  by (rule nth_equalityI) (simp_all add: edge_references_def Let_def)

lemma length_dedup_sorted: "sorted xs \<Longrightarrow> length (remdups_adj xs) = card (set xs)"
proof (induction xs rule: remdups_adj.induct)
  case (3 x y xs)
  then have "x \<noteq> y \<Longrightarrow> x \<notin> insert y (set xs)" by auto
  then show ?case using 3 by (cases "x = y") (simp_all add: insert_absorb)
qed simp_all

lemma card_image_same_kernel:
  assumes "\<And>x y. x \<in> S \<Longrightarrow> y \<in> S \<Longrightarrow> f x = f y \<longleftrightarrow> g x = g y"
  shows "card (f ` S) = card (g ` S)"
proof -
  let ?h = "\<lambda>a. g (inv_into S f a)"
  have inv: "inv_into S f (f x) \<in> S" "f (inv_into S f (f x)) = f x" if "x \<in> S" for x
    using that by (auto intro: inv_into_into f_inv_into_f)
  then have h: "?h (f x) = g x" if "x \<in> S" for x using assms[of "inv_into S f (f x)" x] that by simp
  have "inj_on ?h (f ` S)" using h assms by (intro inj_onI) auto
  moreover have "?h ` f ` S = g ` S" using h by (auto simp: image_iff)
  ultimately show ?thesis using card_image by metis
qed

text \<open>The components are the classes of the nodes under undirected reachability.\<close>

definition components :: "('n, 'e) graph \<Rightarrow> usize set set" where
  "components g = (\<lambda>i. {j. j < node_count g \<and> (i, j) \<in> conn (edges_of g)}) ` {..<node_count g}"

lemma connected_components_result:
  assumes "graph_inv g"
  shows "connected_components g = Inr (card (components g))"
proof -
  let ?n = "node_count g" let ?E = "edges_of g"
  let ?es = "map (\<lambda>e. (unat (ge_node0 e), unat (ge_node1 e))) (g_edges g)"
  have es: "set ?es = ?E" by (simp add: edges_of_def)
  have n: "?n < 2 ^ 64" using assms by (simp add: graph_inv_def node_count_def)
  obtain ls where ls: "and_then (union_all ?es (uf_new ?n)) into_labeling = Inr ls" "length ls = ?n"
    "\<forall>i < ?n. \<forall>j < ?n. ls ! i = ls ! j \<longleftrightarrow> (i, j) \<in> conn ?E"
    using labels_result[OF n, of ?es] edges_of_range[OF assms] unfolding es by blast
  let ?c = "\<lambda>i. {j. j < ?n \<and> (i, j) \<in> conn ?E}"
  have eq: "?c i = ?c j \<longleftrightarrow> (i, j) \<in> conn ?E" if "i < ?n" "j < ?n" for i j
  proof
    assume "?c i = ?c j"
    then have "j \<in> ?c i" using that by auto
    then show "(i, j) \<in> conn ?E" by simp
  next
    assume "(i, j) \<in> conn ?E"
    then show "?c i = ?c j" using conn_trans[of i j ?E] conn_trans[of j i ?E] conn_sym[of i j ?E] by blast
  qed
  have "set ls = (!) ls ` {..<?n}" using ls(2) by (auto simp: in_set_conv_nth)
  then have "card (set ls) = card (components g)"
    using card_image_same_kernel[of "{..<?n}" "(!) ls" ?c] ls(3) eq by (simp add: components_def)
  then show ?thesis
    using ls(1) length_dedup_sorted[of "sort ls"]
    by (auto simp: connected_components_def edge_references_pairs and_then_Inr_iff)
qed

section \<open>The search for a cycle\<close>

text \<open>What \<open>fixedbitset\<close> documents: a new set is empty, \<open>put\<close> sets a bit below the capacity and gives its
  previous value, \<open>contains\<close> reads a bit.\<close>

definition bit_set_ok :: "'b bit_set_ops \<Rightarrow> ('b \<Rightarrow> usize set) \<Rightarrow> ('b \<Rightarrow> usize) \<Rightarrow> bool" where
  "bit_set_ok B bits cap \<longleftrightarrow>
     (\<forall>n. bits (fbs_with_capacity B n) = {} \<and> cap (fbs_with_capacity B n) = n) \<and>
     (\<forall>m i. i < cap m \<longrightarrow> (\<exists>m'. fbs_put B m i = Inr (i \<in> bits m, m') \<and> bits m' = insert i (bits m) \<and> cap m' = cap m)) \<and>
     (\<forall>m i. fbs_contains B m i \<longleftrightarrow> i \<in> bits m)"

lemma visit_result:
  assumes "bit_set_ok B bits cap" "unat u < cap m"
  obtains m' where "visit B m u = Inr (unat u \<notin> bits m, m')" "bits m' = insert (unat u) (bits m)" "cap m' = cap m"
  using assms by (force simp: bit_set_ok_def visit_def)

lemma is_visited_iff: "bit_set_ok B bits cap \<Longrightarrow> is_visited B m u \<longleftrightarrow> unat u \<in> bits m"
  by (simp add: bit_set_ok_def is_visited_def)

abbreviation cycle_flow :: "(unit, unit) result control_flow" where
  "cycle_flow \<equiv> result_control_flow unit_control_flow"

lemma cycle_flow_simps [simp]:
  "cf_continuing cycle_flow = Ok ()" "cf_should_break cycle_flow (Ok ()) = False" "cf_should_break cycle_flow (Err ()) = True"
  "cf_should_prune cycle_flow c = False"
  by (simp_all add: result_control_flow_def unit_control_flow_def split: result.split)

lemma call_cycle_visitor [simp]:
  "call_visitor cycle_visitor ev s = (case ev of BackEdge _ _ \<Rightarrow> Err () | _ \<Rightarrow> Ok (), s)"
  by (cases ev) (simp_all add: call_visitor_def cycle_visitor_def)

abbreviation cycle_run ::
    "'b bit_set_ops \<Rightarrow> ('n, 'e) graph \<Rightarrow> 'e dfs_call \<Rightarrow> ('b, unit) dfs_state \<Rightarrow> ((unit, unit) result option \<times> ('b, unit) dfs_state) rust option" where
  "cycle_run B g \<equiv> dfs_run B cycle_flow g cycle_visitor"

text \<open>
  The finished nodes are closed under successors and lie on no cycle; the nodes that are discovered
  and not finished are the open calls.
\<close>

definition dfs_ok :: "('b \<Rightarrow> usize set) \<Rightarrow> ('b \<Rightarrow> usize) \<Rightarrow> ('n, 'e) graph \<Rightarrow> ('b, 's) dfs_state \<Rightarrow> bool" where
  "dfs_ok bits cap g s \<longleftrightarrow>
     cap (d_discovered s) = node_count g \<and> cap (d_finished s) = node_count g
     \<and> bits (d_finished s) \<subseteq> bits (d_discovered s) \<and> bits (d_discovered s) \<subseteq> {..<node_count g}
     \<and> (\<forall>x \<in> bits (d_finished s). \<forall>y. (x, y) \<in> edges_of g \<longrightarrow> y \<in> bits (d_finished s))
     \<and> (\<forall>x \<in> bits (d_finished s). (x, x) \<notin> (edges_of g)\<^sup>+)"

definition open_calls :: "('b \<Rightarrow> usize set) \<Rightarrow> ('b, 's) dfs_state \<Rightarrow> usize set" where
  "open_calls bits s = bits (d_discovered s) - bits (d_finished s)"

definition dfs_post :: "('b \<Rightarrow> usize set) \<Rightarrow> ('b \<Rightarrow> usize) \<Rightarrow> ('n, 'e) graph \<Rightarrow> ('b, 's) dfs_state \<Rightarrow> ('b, 's) dfs_state \<Rightarrow> bool" where
  "dfs_post bits cap g s s' \<longleftrightarrow> dfs_ok bits cap g s' \<and> open_calls bits s' = open_calls bits s
     \<and> bits (d_discovered s) \<subseteq> bits (d_discovered s')"

definition cyclic :: "('n, 'e) graph \<Rightarrow> bool" where
  "cyclic g \<longleftrightarrow> (\<exists>x. (x, x) \<in> (edges_of g)\<^sup>+)"

definition unseen :: "('b \<Rightarrow> usize set) \<Rightarrow> ('n, 'e) graph \<Rightarrow> ('b, 's) dfs_state \<Rightarrow> nat" where
  "unseen bits g s = card ({..<node_count g} - bits (d_discovered s))"

lemma dfs_post_refl: "dfs_ok bits cap g s \<Longrightarrow> dfs_post bits cap g s s"
  by (simp add: dfs_post_def)

lemma dfs_post_trans: "dfs_post bits cap g s s' \<Longrightarrow> dfs_post bits cap g s' s'' \<Longrightarrow> dfs_post bits cap g s s''"
  by (auto simp: dfs_post_def)

lemma dfs_post_unseen: "dfs_post bits cap g s s' \<Longrightarrow> unseen bits g s' \<le> unseen bits g s"
  unfolding unseen_def dfs_post_def by (intro card_mono) auto

lemma dfs_post_finished:
  "dfs_ok bits cap g s \<Longrightarrow> dfs_post bits cap g s s' \<Longrightarrow> bits (d_finished s) \<subseteq> bits (d_finished s')"
  unfolding dfs_post_def dfs_ok_def open_calls_def by blast

text \<open>Finishing a node whose successors are all finished.\<close>

lemma closed_no_return:
  assumes "\<forall>x \<in> F. \<forall>y. (x, y) \<in> E \<longrightarrow> y \<in> F" "(x, y) \<in> E\<^sup>*" "x \<in> F"
  shows "y \<in> F"
  using assms(2,3,1) by (induction rule: rtrancl_induct) auto

lemma finish_ok:
  assumes "dfs_ok bits cap g s" "u \<in> open_calls bits s" "\<forall>v. (u, v) \<in> edges_of g \<longrightarrow> v \<in> bits (d_finished s)"
    and "bits m = insert u (bits (d_finished s))" "cap m = cap (d_finished s)"
  shows "dfs_ok bits cap g (s\<lparr>d_finished := m, d_time := t\<rparr>)"
proof -
  let ?F = "bits (d_finished s)"
  have closed: "\<forall>x \<in> ?F. \<forall>y. (x, y) \<in> edges_of g \<longrightarrow> y \<in> ?F" and u: "u \<notin> ?F" "u \<in> bits (d_discovered s)"
    using assms(1,2) by (simp_all add: dfs_ok_def open_calls_def)
  have "(u, u) \<notin> (edges_of g)\<^sup>+"
  proof
    assume "(u, u) \<in> (edges_of g)\<^sup>+"
    then obtain v where "(u, v) \<in> edges_of g" "(v, u) \<in> (edges_of g)\<^sup>*" using tranclD by metis
    then show False using closed_no_return[OF closed] assms(3) u(1) by blast
  qed
  then show ?thesis using assms(1,3-5) u by (auto simp: dfs_ok_def)
qed

text \<open>A call on an undiscovered node, for the calls with fewer undiscovered nodes than \<open>k\<close>.\<close>

definition visits_below ::
    "'b bit_set_ops \<Rightarrow> ('b \<Rightarrow> usize set) \<Rightarrow> ('b \<Rightarrow> usize) \<Rightarrow> ('n, 'e) graph \<Rightarrow> nat \<Rightarrow> bool" where
  "visits_below B bits cap g k \<longleftrightarrow>
     (\<forall>s u. dfs_ok bits cap g s \<longrightarrow> unseen bits g s < k \<longrightarrow> unat u < node_count g \<longrightarrow> unat u \<notin> bits (d_discovered s) \<longrightarrow>
        (\<forall>x \<in> open_calls bits s. (x, unat u) \<in> (edges_of g)\<^sup>*) \<longrightarrow>
        (\<exists>c s'. cycle_run B g (Dfs_Visitor u) s = Some (Inr (Some c, s')) \<and>
           (c = Ok () \<and> dfs_post bits cap g s s' \<and> unat u \<in> bits (d_finished s') \<or> c = Err () \<and> cyclic g)))"

lemma nb_collect_cases:
  assumes "nb_collect it = Some vs"
  shows "case vs of [] \<Rightarrow> (\<exists>it'. nb_next it = Some (None, it'))
    | v # vs' \<Rightarrow> (\<exists>it'. nb_next it = Some (Some v, it') \<and> nb_collect it' = Some vs')"
  using assms unfolding nb_collect.simps[of it]
  by (auto simp: bind_eq_Some_conv split: option.splits)

lemma neighbors_loop:
  assumes B: "bit_set_ok B bits cap" and inv: "graph_inv g" and below: "visits_below B bits cap g k"
  shows "nb_collect it = Some vs \<Longrightarrow> dfs_ok bits cap g s \<Longrightarrow> unseen bits g s < k \<Longrightarrow> unat u \<in> open_calls bits s
    \<Longrightarrow> \<forall>x \<in> open_calls bits s. (x, unat u) \<in> (edges_of g)\<^sup>* \<Longrightarrow> \<forall>v \<in> set vs. (unat u, unat v) \<in> edges_of g
    \<Longrightarrow> \<exists>c s'. cycle_run B g (Dfs_Neighbors u it) s = Some (Inr (c, s')) \<and>
      (c = None \<and> dfs_post bits cap g s s' \<and> unat ` set vs \<subseteq> bits (d_finished s') \<or> c = Some (Err ()) \<and> cyclic g)"
proof (induction vs arbitrary: it s)
  case Nil
  then obtain it' where "nb_next it = Some (None, it')" using nb_collect_cases[OF Nil(1)] by auto
  then show ?case using Nil(2) by (subst dfs_run.simps) (simp add: dfs_post_refl)
next
  case (Cons v vs)
  obtain it' where it': "nb_next it = Some (Some v, it')" "nb_collect it' = Some vs"
    using nb_collect_cases[OF Cons.prems(1)] by auto
  have v: "(unat u, unat v) \<in> edges_of g" "unat v < node_count g" using Cons.prems(6) edges_of_range[OF inv] by auto
  note IH = Cons.IH[OF it'(2)]
  consider "unat v \<notin> bits (d_discovered s)" | "unat v \<in> open_calls bits s" | "unat v \<in> bits (d_finished s)" "unat v \<in> bits (d_discovered s)"
    using Cons.prems(2) by (auto simp: open_calls_def dfs_ok_def)
  then show ?case
  proof cases
    case 1
    have reach: "\<forall>x \<in> open_calls bits s. (x, unat v) \<in> (edges_of g)\<^sup>*" using Cons.prems(5) v(1) rtrancl_into_rtrancl by metis
    obtain c s1 where s1: "cycle_run B g (Dfs_Visitor v) s = Some (Inr (Some c, s1))"
      "c = Ok () \<and> dfs_post bits cap g s s1 \<and> unat v \<in> bits (d_finished s1) \<or> c = Err () \<and> cyclic g"
      using below[unfolded visits_below_def, rule_format, OF Cons.prems(2,3) v(2) 1] reach by blast
    have run: "cycle_run B g (Dfs_Neighbors u it) s =
        (if c = Ok () then cycle_run B g (Dfs_Neighbors u it') s1 else Some (Inr (Some c, s1)))"
      using it'(1) 1 s1 by (subst dfs_run.simps) (auto simp: is_visited_iff[OF B])
    show ?thesis
    proof (cases "c = Ok ()")
      case True
      then have post: "dfs_post bits cap g s s1" "unat v \<in> bits (d_finished s1)" using s1(2) by simp_all
      then have pre: "dfs_ok bits cap g s1" "unseen bits g s1 < k" "open_calls bits s1 = open_calls bits s"
        using dfs_post_unseen[OF post(1)] Cons.prems(3) by (simp_all add: dfs_post_def)
      obtain c' s2 where s2: "cycle_run B g (Dfs_Neighbors u it') s1 = Some (Inr (c', s2))"
        "c' = None \<and> dfs_post bits cap g s1 s2 \<and> unat ` set vs \<subseteq> bits (d_finished s2) \<or> c' = Some (Err ()) \<and> cyclic g"
        using IH[OF pre(1,2)] Cons.prems(4-6) pre(3) by auto
      show ?thesis
        using s2 run True dfs_post_trans[OF post(1), of s2] dfs_post_finished[OF pre(1), of s2] post(2) by auto
    qed (use run s1(2) in auto)
  next
    case 2
    then have "(unat v, unat v) \<in> (edges_of g)\<^sup>+" using Cons.prems(5) v(1) by (auto intro: rtrancl_into_trancl1)
    moreover have "cycle_run B g (Dfs_Neighbors u it) s = Some (Inr (Some (Err ()), s))"
      using it'(1) 2 by (subst dfs_run.simps) (simp add: is_visited_iff[OF B] open_calls_def)
    ultimately show ?thesis by (auto simp: cyclic_def)
  next
    case 3
    have run: "cycle_run B g (Dfs_Neighbors u it) s = cycle_run B g (Dfs_Neighbors u it') s"
      using it'(1) 3 by (subst dfs_run.simps) (simp add: is_visited_iff[OF B])
    show ?thesis using IH[OF Cons.prems(2-5)] Cons.prems(6) dfs_post_finished[OF Cons.prems(2)] 3(1) unfolding run by fastforce
  qed
qed

lemma edges_of_out: "(unat u, v) \<in> edges_of g \<longleftrightarrow> v \<in> unat ` set (map ge_node1 (out_edges g u))"
  by (auto simp: edges_of_def out_edges_def image_iff word_unat_eq_iff eq_commute[of "unat u"])

lemma visits_all:
  assumes B: "bit_set_ok B bits cap" and inv: "graph_inv g"
  shows "visits_below B bits cap g k"
proof (induction k)
  case (Suc k)
  show ?case unfolding visits_below_def
  proof (intro allI impI)
    fix s :: "('a, unit) dfs_state" and u :: node_index
    assume a: "dfs_ok bits cap g s" "unseen bits g s < Suc k" "unat u < node_count g" "unat u \<notin> bits (d_discovered s)"
      "\<forall>x \<in> open_calls bits s. (x, unat u) \<in> (edges_of g)\<^sup>*"
    obtain m where m: "visit B (d_discovered s) u = Inr (True, m)" "bits m = insert (unat u) (bits (d_discovered s))" "cap m = node_count g"
      using visit_result[OF B, of u "d_discovered s"] a(1,3,4) by (auto simp: dfs_ok_def)
    define s1 where "s1 = s\<lparr>d_discovered := m, d_time := d_time s + 1\<rparr>"
    have ok1: "dfs_ok bits cap g s1" using a(1,3) m(2,3) by (auto simp: dfs_ok_def s1_def)
    have op1: "open_calls bits s1 = insert (unat u) (open_calls bits s)"
      using a(1,4) m(2) by (auto simp: open_calls_def s1_def dfs_ok_def)
    have "{..<node_count g} - bits m \<subset> {..<node_count g} - bits (d_discovered s)" using m(2) a(3,4) by auto
    then have "unseen bits g s1 < unseen bits g s" unfolding unseen_def s1_def by (simp add: psubset_card_mono)
    then have un1: "unseen bits g s1 < k" using a(2) by simp
    have reach: "\<forall>x \<in> open_calls bits s1. (x, unat u) \<in> (edges_of g)\<^sup>*" using a(5) op1 by simp
    let ?vs = "map ge_node1 (out_edges g u)"
    have vs: "nb_collect (neighbors_directed g u Outgoing) = Some ?vs" using neighbors_exact[OF inv] by simp
    have out: "\<forall>v \<in> set ?vs. (unat u, unat v) \<in> edges_of g" unfolding edges_of_out by simp
    have u1: "unat u \<in> open_calls bits s1" using op1 by simp
    obtain c s2 where s2: "cycle_run B g (Dfs_Neighbors u (neighbors_directed g u Outgoing)) s1 = Some (Inr (c, s2))"
      "c = None \<and> dfs_post bits cap g s1 s2 \<and> unat ` set ?vs \<subseteq> bits (d_finished s2) \<or> c = Some (Err ()) \<and> cyclic g"
      using neighbors_loop[OF B inv Suc vs ok1 un1 u1 reach out] by (elim exE conjE)
    have run: "cycle_run B g (Dfs_Visitor u) s =
        Some (case c of None \<Rightarrow> dfs_finish B cycle_flow cycle_visitor u s2 | Some c \<Rightarrow> Inr (Some c, s2))"
      using m(1) s2(1) by (subst dfs_run.simps) (simp add: time_post_inc_def s1_def split: option.split)
    show "\<exists>c s'. cycle_run B g (Dfs_Visitor u) s = Some (Inr (Some c, s')) \<and>
      (c = Ok () \<and> dfs_post bits cap g s s' \<and> unat u \<in> bits (d_finished s') \<or> c = Err () \<and> cyclic g)"
    proof (cases c)
      case None
      then have post: "dfs_post bits cap g s1 s2" "unat ` set ?vs \<subseteq> bits (d_finished s2)" using s2(2) by simp_all
      have op2: "open_calls bits s2 = insert (unat u) (open_calls bits s)" and ok2: "dfs_ok bits cap g s2"
        using post(1) op1 by (simp_all add: dfs_post_def)
      have fin: "\<forall>v. (unat u, v) \<in> edges_of g \<longrightarrow> v \<in> bits (d_finished s2)" using post(2) edges_of_out by blast
      have nf: "unat u \<notin> bits (d_finished s2)" using op2 unfolding open_calls_def by blast
      obtain m2 where m2: "visit B (d_finished s2) u = Inr (True, m2)" "bits m2 = insert (unat u) (bits (d_finished s2))"
        "cap m2 = cap (d_finished s2)"
        using visit_result[OF B, of u "d_finished s2"] nf a(3) ok2 by (auto simp: dfs_ok_def)
      define s3 where "s3 = s2\<lparr>d_finished := m2, d_time := d_time s2 + 1\<rparr>"
      have "dfs_ok bits cap g s3" unfolding s3_def using finish_ok[OF ok2 _ fin m2(2,3)] op2 by simp
      moreover have "open_calls bits s3 = open_calls bits s"
        using op2 m2(2) a(4) by (auto simp: open_calls_def s3_def)
      moreover have "bits (d_discovered s) \<subseteq> bits (d_discovered s3)"
        using post(1) m(2) by (auto simp: dfs_post_def s3_def s1_def)
      moreover have "dfs_finish B cycle_flow cycle_visitor u s2 = Inr (Some (Ok ()), s3)"
        using m2(1) by (simp add: dfs_finish_def time_post_inc_def s3_def)
      ultimately show ?thesis using run None m2(2) by (simp add: dfs_post_def s3_def)
    qed (use run s2(2) in auto)
  qed
qed (simp add: visits_below_def)

lemma dfs_starts_result:
  assumes B: "bit_set_ok B bits cap" and inv: "graph_inv g"
  shows "dfs_ok bits cap g s \<Longrightarrow> open_calls bits s = {} \<Longrightarrow> set starts \<subseteq> {u. unat u < node_count g} \<Longrightarrow>
    \<exists>c. dfs_starts B cycle_flow g cycle_visitor starts s = Inr (c, ()) \<and>
      (c = Ok () \<and> (\<forall>u \<in> set starts. (unat u, unat u) \<notin> (edges_of g)\<^sup>+) \<or> c = Err () \<and> cyclic g)"
proof (induction starts arbitrary: s)
  case (Cons u starts)
  obtain c s1 where s1: "cycle_run B g (Dfs_Visitor u) s = Some (Inr (Some c, s1))"
    "c = Ok () \<and> dfs_post bits cap g s s1 \<and> unat u \<in> bits (d_finished s1) \<or> c = Err () \<and> cyclic g"
  proof (cases "unat u \<in> bits (d_discovered s)")
    case True
    obtain m where m: "visit B (d_discovered s) u = Inr (False, m)" "bits m = bits (d_discovered s)" "cap m = cap (d_discovered s)"
      using visit_result[OF B, of u "d_discovered s"] Cons.prems True by (auto simp: dfs_ok_def insert_absorb)
    have "cycle_run B g (Dfs_Visitor u) s = Some (Inr (Some (Ok ()), s\<lparr>d_discovered := m\<rparr>))"
      using m(1) by (subst dfs_run.simps) simp
    moreover have "dfs_post bits cap g s (s\<lparr>d_discovered := m\<rparr>)"
      using Cons.prems(1) m(2,3) by (simp add: dfs_post_def dfs_ok_def open_calls_def)
    ultimately show ?thesis using that True Cons.prems(2) by (auto simp: open_calls_def)
  next
    case False
    then show ?thesis
      using visits_all[OF B inv, of "Suc (unseen bits g s)", unfolded visits_below_def, rule_format, OF Cons.prems(1), of u]
        Cons.prems(2,3) that by auto
  qed
  show ?case
  proof (cases "c = Ok ()")
    case True
    then have post: "dfs_post bits cap g s s1" "(unat u, unat u) \<notin> (edges_of g)\<^sup>+"
      using s1(2) by (auto simp: dfs_post_def dfs_ok_def)
    then show ?thesis using Cons.IH[of s1] Cons.prems(2,3) s1(1) True by (auto simp: dfs_post_def)
  qed (use s1 in auto)
qed simp

lemma is_cyclic_directed_result:
  assumes B: "bit_set_ok B bits cap" and inv: "graph_inv g"
  shows "is_cyclic_directed B g = Inr (cyclic g)"
proof -
  let ?s = "\<lparr>d_discovered = visit_map B g, d_finished = visit_map B g, d_time = 0, d_visitor = ()\<rparr>"
  have map: "bits (visit_map B g) = {}" "cap (visit_map B g) = node_count g" using B by (simp_all add: bit_set_ok_def visit_map_def)
  have "dfs_ok bits cap g ?s" "open_calls bits ?s = {}" using map by (simp_all add: dfs_ok_def open_calls_def)
  moreover have nodes: "unat ` set (node_indices g) = {..<node_count g}"
    using inv by (force simp: node_indices_def graph_inv_def node_count_def image_iff unat_of_index)
  ultimately obtain c where c: "dfs_starts B cycle_flow g cycle_visitor (node_indices g) ?s = Inr (c, ())"
    "c = Ok () \<and> (\<forall>u \<in> set (node_indices g). (unat u, unat u) \<notin> (edges_of g)\<^sup>+) \<or> c = Err () \<and> cyclic g"
    using dfs_starts_result[OF B inv, of ?s "node_indices g"] by blast
  have "(x, x) \<in> (edges_of g)\<^sup>+ \<Longrightarrow> x \<in> unat ` set (node_indices g)" for x
    using edges_of_range[OF inv] unfolding nodes by (blast dest: tranclD)
  then have "c = Ok () \<Longrightarrow> \<not> cyclic g" using c(2) by (fastforce simp: cyclic_def)
  then show ?thesis using c by (auto simp: is_cyclic_directed_def depth_first_search_def)
qed

section \<open>Properties\<close>

text \<open>
  C12. The cycle test. On a well-formed graph the depth first search ends, never visits a node out of range,
  and \<open>is_cyclic_directed\<close> answers exactly whether some node reaches itself along the edges.
\<close>

theorem is_cyclic_directed_exact:
  assumes "bit_set_ok B bits cap" "graph_inv g"
  shows "is_cyclic_directed B g = Inr (\<exists>x. (x, x) \<in> (edges_of g)\<^sup>+)"
  using is_cyclic_directed_result[OF assms] by (simp add: cyclic_def)

text \<open>A bit set for the examples.\<close>

definition list_bits :: "(usize list \<times> usize) bit_set_ops" where
  "list_bits = \<lparr>
     fbs_with_capacity = (\<lambda>n. ([], n)),
     fbs_put = (\<lambda>(xs, n) i. if i < n then Inr (i \<in> set xs, (i # xs, n)) else Inl Explicit_Panic),
     fbs_contains = (\<lambda>(xs, n) i. i \<in> set xs)\<rparr>"

lemma list_bits_ok: "bit_set_ok list_bits (\<lambda>m. set (fst m)) snd"
  by (simp add: bit_set_ok_def list_bits_def)

definition loop_graph :: "(unit, unit) graph" where
  "loop_graph = \<lparr>
     g_nodes = [\<lparr>gn_weight = (), gn_next0 = 0, gn_next1 = 1\<rparr>, \<lparr>gn_weight = (), gn_next0 = 1, gn_next1 = 0\<rparr>],
     g_edges = [\<lparr>ge_weight = (), ge_next0 = index_end, ge_next1 = index_end, ge_node0 = 0, ge_node1 = 1\<rparr>,
                \<lparr>ge_weight = (), ge_next0 = index_end, ge_next1 = index_end, ge_node0 = 1, ge_node1 = 0\<rparr>]\<rparr>"

lemma loop_graph_inv: "graph_inv loop_graph"
  by (simp add: graph_inv_def loop_graph_def All_less_Suc)

theorem is_cyclic_directed_exact_witness:
  "is_cyclic_directed list_bits loop_graph = Inr True \<and> is_cyclic_directed list_bits sample_graph = Inr False"
proof -
  have "(0, 1) \<in> edges_of loop_graph" "(1, 0) \<in> edges_of loop_graph" by (simp_all add: edges_of_def loop_graph_def)
  then have "(0, 0) \<in> (edges_of loop_graph)\<^sup>+" by (meson trancl.intros)
  moreover have e: "edges_of sample_graph = {(0, 1), (0, 2)}" by (auto simp: edges_of_def sample_graph_def)
  have "x < y" if "(x, y) \<in> (edges_of sample_graph)\<^sup>+" for x y using that by (induction rule: trancl_induct) (auto simp: e)
  then have "(x, x) \<notin> (edges_of sample_graph)\<^sup>+" for x by blast
  ultimately show ?thesis
    using is_cyclic_directed_exact[OF list_bits_ok loop_graph_inv] is_cyclic_directed_exact[OF list_bits_ok sample_graph_inv] by auto
qed

text \<open>
  C13. The component count. On a well-formed graph \<open>connected_components\<close> runs without panic (no union
  overflows a rank) and returns the number of classes of nodes under undirected reachability.
\<close>

theorem connected_components_exact:
  assumes "graph_inv g"
  shows "connected_components g =
    Inr (card ((\<lambda>i. {j. j < node_count g \<and> (i, j) \<in> conn (edges_of g)}) ` {..<node_count g}))"
  using connected_components_result[OF assms] by (simp add: components_def)

theorem connected_components_exact_witness:
  "connected_components sample_graph = Inr 1"
proof -
  let ?E = "edges_of sample_graph"
  have e: "(0, 1) \<in> ?E" "(0, 2) \<in> ?E" by (simp_all add: edges_of_def sample_graph_def)
  have "(0, j) \<in> conn ?E" if "j < 3" for j :: nat
  proof -
    have "j = 0 \<or> j = 1 \<or> j = 2" using that by auto
    then show ?thesis using e by (auto simp: conn_def)
  qed
  then have "(i, j) \<in> conn ?E" if "i < 3" "j < 3" for i j using that conn_trans[OF conn_sym, of 0 i ?E j] by simp
  then have "{j. j < 3 \<and> (i, j) \<in> conn ?E} = {..<3}" if "i < 3" for i using that by auto
  then have "(\<lambda>i. {j. j < 3 \<and> (i, j) \<in> conn ?E}) ` {..<3} = (\<lambda>i. {..<3}) ` {..<3 :: nat}" by (intro image_cong) simp_all
  moreover have "node_count sample_graph = 3" by (simp add: node_count_def sample_graph_def)
  ultimately show ?thesis using connected_components_exact[OF sample_graph_inv] by (simp add: image_constant_conv lessThan_empty_iff)
qed

end
