(* ===== verification/Aw_Time.thy ===== *)
theory Aw_Time
  imports Aw_Prelude
begin

text \<open>
  \<open>Instant\<close> of \<open>awkernel_lib/src/time.rs\<close>. An instant is its uptime in nanoseconds, a \<open>u128\<close> that does
  not wrap within the life of a machine and is a \<open>nat\<close> here; so is a \<open>Duration\<close> in nanoseconds. The
  conversions to \<open>u64\<close> nanoseconds truncate as the code does. The clock is a parameter \<open>now\<close>.
\<close>

type_synonym instant = nat
type_synonym duration = nat

definition instant_zero :: instant where
  "instant_zero = 0"

definition instant_uptime :: "instant \<Rightarrow> duration" where
  "instant_uptime t = t mod 2 ^ 64"

definition elapsed :: "nat \<Rightarrow> instant \<Rightarrow> duration" where
  "elapsed now t = (if now > t then (now - t) mod 2 ^ 64 else 0)"

definition saturating_duration_since :: "instant \<Rightarrow> instant \<Rightarrow> duration" where
  "saturating_duration_since t earlier = (if t > earlier then min (t - earlier) (2 ^ 64 - 1) else 0)"

definition instant_checked_sub :: "instant \<Rightarrow> duration \<Rightarrow> instant option" where
  "instant_checked_sub t d = (if d \<le> t then Some (t - d) else None)"

definition instant_add :: "instant \<Rightarrow> duration \<Rightarrow> instant" where
  "instant_add t d = t + d"

definition instant_sub :: "instant \<Rightarrow> duration \<Rightarrow> instant rust" where
  "instant_sub t d = unwrap (instant_checked_sub t d)"

definition instant_diff :: "instant \<Rightarrow> instant \<Rightarrow> duration" where
  "instant_diff t other = saturating_duration_since t other"

definition as_micros :: "duration \<Rightarrow> nat" where
  "as_micros d = d div 1000"

lemma add_diff [simp]: "d < 2 ^ 64 \<Longrightarrow> instant_diff (instant_add t d) t = d"
  by (simp add: instant_diff_def instant_add_def saturating_duration_since_def)

lemma sub_add [simp]: "instant_sub (instant_add t d) d = Inr t"
  by (simp add: instant_sub_def instant_add_def instant_checked_sub_def)

end
