(* ===== verification/Pub_Sub.thy ===== *)
theory Pub_Sub
  imports Ring_Queue Btree_Map Aw_Time "HOL-Library.List_Lexorder" "HOL-Library.Char_ord"
begin

text \<open>
  Publish and subscribe (\<open>awkernel_async_lib/src/pubsub.rs\<close>) and the dictionary of topics
  (\<open>awkernel_async_lib/src/anydict.rs\<close>), without the optional period index. Every \<open>Arc\<close> is an address in
  one of three heaps: the inner subscribers, the maps of subscribers of a topic, and the send buffers.
  The identifier of a subscriber is its address, as in the code. A waker is the number of the task it wakes; the
  list \<open>ps_wakes\<close> collects the wakers that were called. Each method holds its locks for its whole body and is one
  step. The message types of the topics are numbers that \<open>AnyDict\<close> compares.
\<close>

section \<open>The dictionary of values of any type\<close>

type_synonym type_id = nat
type_synonym 'v any_dict = "(string, type_id \<times> 'v) btree_map"

datatype 'v any_dict_result = Dict_Ok 'v | Dict_TypeError | Dict_None

definition any_dict_new :: "'v any_dict" where
  "any_dict_new = []"

definition any_dict_keys :: "'v any_dict \<Rightarrow> string list" where
  "any_dict_keys d = map fst d"

definition any_dict_insert :: "'v any_dict \<Rightarrow> type_id \<Rightarrow> string \<Rightarrow> 'v \<Rightarrow> 'v any_dict" where
  "any_dict_insert d ty key v = btm_insert d key (ty, v)"

definition any_dict_get :: "'v any_dict \<Rightarrow> type_id \<Rightarrow> string \<Rightarrow> 'v any_dict_result" where
  "any_dict_get d ty key =
     (case btm_get d key of
        Some (ty', v) \<Rightarrow> if ty' = ty then Dict_Ok v else Dict_TypeError
      | None \<Rightarrow> Dict_None)"

definition any_dict_remove :: "'v any_dict \<Rightarrow> string \<Rightarrow> 'v any_dict" where
  "any_dict_remove d key = btm_remove d key"

section \<open>Data\<close>

record 'a data =
  data_timestamp :: instant
  data_data :: 'a

datatype lifespan = Permanent | Span duration

record attribute =
  at_queue_size :: usize
  at_flow_control :: bool
  at_transient_local :: bool
  at_lifespan :: lifespan

definition attribute_new :: "usize \<Rightarrow> bool \<Rightarrow> bool \<Rightarrow> lifespan \<Rightarrow> attribute" where
  "attribute_new queue_size flow_control transient_local lifespan =
     \<lparr>at_queue_size = queue_size, at_flow_control = flow_control, at_transient_local = transient_local, at_lifespan = lifespan\<rparr>"

definition attribute_default :: attribute where
  "attribute_default = \<lparr>at_queue_size = 10, at_flow_control = True, at_transient_local = False, at_lifespan = Permanent\<rparr>"

record subscribers =
  sb_id_to_subscriber :: nat
  sb_name :: string
  sb_sender_buf :: "nat option"
  sb_attribute :: attribute

record 'a inner_subscriber =
  is_queue :: "'a data ringq"
  is_waker_publishers :: "nat list"
  is_waker_subscriber :: "nat option"
  is_closed :: bool

record inner_pub_sub =
  ip_subscribers :: subscribers
  ip_num_publisher :: u64

record publisher =
  pb_subscribers :: subscribers

record subscriber =
  sr_inner :: nat
  sr_subscribers :: subscribers

record 'a pub_sub =
  ps_inner :: "nat \<Rightarrow> 'a inner_subscriber"
  ps_map :: "nat \<Rightarrow> (usize, nat) btree_map"
  ps_buf :: "nat \<Rightarrow> 'a data ringq"
  ps_next :: nat
  ps_dict :: "inner_pub_sub any_dict"
  ps_wakes :: "nat list"

section \<open>Inner subscribers\<close>

definition inner_new :: "usize \<Rightarrow> 'a inner_subscriber" where
  "inner_new queue_size = \<lparr>is_queue = rq_new queue_size, is_waker_publishers = [], is_waker_subscriber = None, is_closed = False\<rparr>"

text \<open>
  The loop of \<open>garbage_collect\<close>: it pops the head as long as \<open>old\<close> holds of it; \<open>None\<close> if it does not end. The
  method \<open>head\<close> panics on a queue of size 0. The bounded channels run the same loop.
\<close>

partial_function (option) gc_loop :: "('b \<Rightarrow> bool) \<Rightarrow> 'b ringq \<Rightarrow> 'b ringq rust option" where
  "gc_loop old q =
     (case rq_peek q of
        Inl e \<Rightarrow> Some (Inl e)
      | Inr None \<Rightarrow> Some (Inr q)
      | Inr (Some head) \<Rightarrow>
          if old head
          then (case rq_pop q of Inl e \<Rightarrow> Some (Inl e) | Inr (_, q) \<Rightarrow> gc_loop old q)
          else Some (Inr q))"

definition expired :: "nat \<Rightarrow> nat \<Rightarrow> 'a data \<Rightarrow> bool" where
  "expired now span head \<longleftrightarrow> as_micros (elapsed now (data_timestamp head)) > span"

definition garbage_collect :: "nat \<Rightarrow> lifespan \<Rightarrow> 'a inner_subscriber \<Rightarrow> 'a inner_subscriber rust" where
  "garbage_collect now lifespan inner =
     (case lifespan of
        Permanent \<Rightarrow> Inr inner
      | Span d \<Rightarrow> and_then (and_then (returns (gc_loop (expired now (as_micros d)) (is_queue inner))) (\<lambda>r. r)) (\<lambda>q. Inr (inner\<lparr>is_queue := q\<rparr>)))"

text \<open>Waking at most \<open>n\<close> publishers; the second result are the called wakers.\<close>

fun wake_publishers :: "nat \<Rightarrow> nat list \<Rightarrow> nat list \<times> nat list" where
  "wake_publishers 0 ws = (ws, [])"
| "wake_publishers (Suc n) [] = ([], [])"
| "wake_publishers (Suc n) (w # ws) = (case wake_publishers n ws of (rest, woken) \<Rightarrow> (rest, w # woken))"

definition upd_inner :: "nat \<Rightarrow> 'a inner_subscriber \<Rightarrow> 'a pub_sub \<Rightarrow> 'a pub_sub" where
  "upd_inner r inner S = S\<lparr>ps_inner := (ps_inner S)(r := inner)\<rparr>"

section \<open>Receiving\<close>

definition recv_or_register_waker ::
    "nat \<Rightarrow> nat \<Rightarrow> subscriber \<Rightarrow> 'a pub_sub \<Rightarrow> ('a data option \<times> 'a pub_sub) rust" where
  "recv_or_register_waker now waker sr S =
     and_then (garbage_collect now (at_lifespan (sb_attribute (sr_subscribers sr))) (ps_inner S (sr_inner sr))) (\<lambda>inner.
     and_then (rq_pop (is_queue inner)) (\<lambda>(x, q).
     let inner = inner\<lparr>is_queue := q\<rparr> in
     case x of
       Some data \<Rightarrow>
         (let (rest, woken) = wake_publishers (rq_queue_size q - rq_len q) (is_waker_publishers inner)
          in Inr (Some data, upd_inner (sr_inner sr) (inner\<lparr>is_waker_publishers := rest\<rparr>) (S\<lparr>ps_wakes := ps_wakes S @ woken\<rparr>)))
     | None \<Rightarrow> Inr (None, upd_inner (sr_inner sr) (inner\<lparr>is_waker_subscriber := Some waker\<rparr>) S)))"

definition try_recv :: "nat \<Rightarrow> subscriber \<Rightarrow> 'a pub_sub \<Rightarrow> ('a data option \<times> 'a pub_sub) rust" where
  "try_recv now sr S =
     and_then (garbage_collect now (at_lifespan (sb_attribute (sr_subscribers sr))) (ps_inner S (sr_inner sr))) (\<lambda>inner.
     and_then (rq_pop (is_queue inner)) (\<lambda>(result, q).
     let (rest, woken) = wake_publishers (rq_queue_size q - rq_len q) (is_waker_publishers inner)
     in Inr (result, upd_inner (sr_inner sr) (inner\<lparr>is_queue := q, is_waker_publishers := rest\<rparr>) (S\<lparr>ps_wakes := ps_wakes S @ woken\<rparr>))))"

section \<open>Sending\<close>

datatype sender_state = Sender_Start | Sender_Wait | Sender_Finished

record 'a sender =
  sn_publisher :: publisher
  sn_data :: 'a
  sn_subscribers :: "nat list"
  sn_state :: sender_state
  sn_timestamp :: instant

definition sender_new :: "nat \<Rightarrow> publisher \<Rightarrow> 'a \<Rightarrow> 'a sender" where
  "sender_new now pb data =
     \<lparr>sn_publisher = pb, sn_data = data, sn_subscribers = [], sn_state = Sender_Start, sn_timestamp = now\<rparr>"

text \<open>\<open>push\<close>, and on a full queue \<open>pop\<close> and \<open>push\<close> again.\<close>

definition push_evict :: "'b ringq \<Rightarrow> 'b \<Rightarrow> 'b ringq rust" where
  "push_evict q x =
     and_then (rq_push q x) (\<lambda>(r, q).
     case r of
       Ok _ \<Rightarrow> Inr q
     | Err x \<Rightarrow> and_then (rq_pop q) (\<lambda>(_, q). and_then (rq_push q x) (\<lambda>(_, q). Inr q)))"

text \<open>The branch of the state \<open>Start\<close>.\<close>

definition sender_start :: "nat \<Rightarrow> 'a sender \<Rightarrow> 'a pub_sub \<Rightarrow> ('a sender \<times> 'a pub_sub) rust" where
  "sender_start now sn S =
     (let sb = pb_subscribers (sn_publisher sn);
          sn = sn\<lparr>sn_subscribers := sn_subscribers sn @ map snd (ps_map S (sb_id_to_subscriber sb)), sn_state := Sender_Wait\<rparr>
      in if at_transient_local (sb_attribute sb)
         then (case sb_sender_buf sb of
                 Some b \<Rightarrow>
                   and_then (push_evict (ps_buf S b) \<lparr>data_timestamp = now, data_data = sn_data sn\<rparr>) (\<lambda>q.
                   Inr (sn, S\<lparr>ps_buf := (ps_buf S)(b := q)\<rparr>))
               | None \<Rightarrow> Inr (sn, S))
         else Inr (sn, S))"

text \<open>
  The loop of the state \<open>Wait\<close> over the remaining subscribers. The first result is \<open>True\<close> for
  \<open>Poll::Ready\<close>; the list is the subscribers that still have to get the message.
\<close>

fun sender_wait :: "nat \<Rightarrow> nat \<Rightarrow> attribute \<Rightarrow> 'a data \<Rightarrow> nat list \<Rightarrow> 'a pub_sub \<Rightarrow> (bool \<times> nat list \<times> 'a pub_sub) rust" where
  "sender_wait now waker attr x [] S = Inr (True, [], S)"
| "sender_wait now waker attr x (r # rs) S =
     (let inner = ps_inner S r in
      if is_closed inner then sender_wait now waker attr x rs S
      else if is_waker_publishers inner \<noteq> []
      then Inr (False, r # rs, upd_inner r (inner\<lparr>is_waker_publishers := is_waker_publishers inner @ [waker]\<rparr>) S)
      else
        and_then (garbage_collect now (at_lifespan attr) inner) (\<lambda>inner.
        and_then (rq_push (is_queue inner) x) (\<lambda>(res, q).
        case res of
          Ok _ \<Rightarrow>
            sender_wait now waker attr x rs
              (upd_inner r (inner\<lparr>is_queue := q, is_waker_subscriber := None\<rparr>)
                (S\<lparr>ps_wakes := ps_wakes S @ (case is_waker_subscriber inner of None \<Rightarrow> [] | Some w \<Rightarrow> [w])\<rparr>))
        | Err x \<Rightarrow>
            if at_flow_control attr
            then Inr (False, r # rs, upd_inner r (inner\<lparr>is_queue := q, is_waker_publishers := is_waker_publishers inner @ [waker]\<rparr>) S)
            else
              and_then (rq_pop q) (\<lambda>(_, q).
              and_then (rq_push q x) (\<lambda>(_, q).
              sender_wait now waker attr x rs (upd_inner r (inner\<lparr>is_queue := q\<rparr>) S))))))"

definition sender_poll :: "nat \<Rightarrow> nat \<Rightarrow> 'a sender \<Rightarrow> 'a pub_sub \<Rightarrow> (bool \<times> 'a sender \<times> 'a pub_sub) rust" where
  "sender_poll now waker sn S =
     (case sn_state sn of
        Sender_Finished \<Rightarrow> Inr (True, sn, S)
      | _ \<Rightarrow>
          and_then (if sn_state sn = Sender_Start then sender_start now sn S else Inr (sn, S)) (\<lambda>(sn, S).
          and_then (sender_wait now waker (sb_attribute (pb_subscribers (sn_publisher sn)))
                     \<lparr>data_timestamp = sn_timestamp sn, data_data = sn_data sn\<rparr> (sn_subscribers sn) S) (\<lambda>(ready, rs, S).
          Inr (ready, sn\<lparr>sn_subscribers := rs, sn_state := (if ready then Sender_Finished else Sender_Wait)\<rparr>, S))))"

section \<open>Creating and destroying publishers and subscribers\<close>

definition subscribers_new :: "string \<Rightarrow> attribute \<Rightarrow> 'a pub_sub \<Rightarrow> subscribers \<times> 'a pub_sub" where
  "subscribers_new name attr S =
     (let r = ps_next S; S = S\<lparr>ps_map := (ps_map S)(r := []), ps_next := Suc r\<rparr> in
      if at_transient_local attr
      then (let b = ps_next S in
            (\<lparr>sb_id_to_subscriber = r, sb_name = name, sb_sender_buf = Some b, sb_attribute = attr\<rparr>,
             S\<lparr>ps_buf := (ps_buf S)(b := rq_new (at_queue_size attr)), ps_next := Suc b\<rparr>))
      else (\<lparr>sb_id_to_subscriber = r, sb_name = name, sb_sender_buf = None, sb_attribute = attr\<rparr>, S))"

text \<open>Allocating an inner subscriber and inserting it into the map of its topic.\<close>

definition add_inner :: "subscribers \<Rightarrow> 'a inner_subscriber \<Rightarrow> 'a pub_sub \<Rightarrow> subscriber \<times> 'a pub_sub" where
  "add_inner sb inner S =
     (let r = ps_next S in
      (\<lparr>sr_inner = r, sr_subscribers = sb\<rparr>,
       S\<lparr>ps_inner := (ps_inner S)(r := inner), ps_next := Suc r,
         ps_map := (ps_map S)(sb_id_to_subscriber sb := btm_insert (ps_map S (sb_id_to_subscriber sb)) r r)\<rparr>))"

definition create_pubsub :: "attribute \<Rightarrow> 'a pub_sub \<Rightarrow> (publisher \<times> subscriber) \<times> 'a pub_sub" where
  "create_pubsub attr S =
     (let (sb, S) = subscribers_new ''anonymous'' attr S;
          (sr, S) = add_inner sb (inner_new (at_queue_size attr)) S
      in ((\<lparr>pb_subscribers = sb\<rparr>, sr), S))"

definition subscriber_clone :: "subscriber \<Rightarrow> 'a pub_sub \<Rightarrow> subscriber \<times> 'a pub_sub" where
  "subscriber_clone sr S = add_inner (sr_subscribers sr) (inner_new (at_queue_size (sb_attribute (sr_subscribers sr)))) S"

definition create_publisher ::
    "type_id \<Rightarrow> string \<Rightarrow> attribute \<Rightarrow> 'a pub_sub \<Rightarrow> (publisher, string) result \<times> 'a pub_sub" where
  "create_publisher ty name attr S =
     (case any_dict_get (ps_dict S) ty name of
        Dict_TypeError \<Rightarrow> (Err ''create_publisher: typing error'', S)
      | Dict_None \<Rightarrow>
          (let (sb, S) = subscribers_new name attr S
           in (Ok \<lparr>pb_subscribers = sb\<rparr>,
               S\<lparr>ps_dict := any_dict_insert (ps_dict S) ty name \<lparr>ip_subscribers = sb, ip_num_publisher = 1\<rparr>\<rparr>))
      | Dict_Ok inner \<Rightarrow>
          if sb_attribute (ip_subscribers inner) = attr
          then (Ok \<lparr>pb_subscribers = ip_subscribers inner\<rparr>,
                S\<lparr>ps_dict := any_dict_insert (ps_dict S) ty name (inner\<lparr>ip_num_publisher := ip_num_publisher inner + 1\<rparr>)\<rparr>)
          else (Err ''create_publisher: incompatible attribute'', S))"

text \<open>Copying the send buffer into the queue of a late subscriber; a full queue ignores the rest.\<close>

fun push_all :: "'b list \<Rightarrow> 'b ringq \<Rightarrow> 'b ringq rust" where
  "push_all [] q = Inr q"
| "push_all (x # xs) q = and_then (rq_push q x) (\<lambda>(_, q). push_all xs q)"

definition create_subscriber ::
    "type_id \<Rightarrow> string \<Rightarrow> attribute \<Rightarrow> 'a pub_sub \<Rightarrow> ((subscriber, string) result \<times> 'a pub_sub) rust" where
  "create_subscriber ty name attr S =
     (case any_dict_get (ps_dict S) ty name of
        Dict_TypeError \<Rightarrow> Inr (Err ''create_subscriber: typing error'', S)
      | Dict_None \<Rightarrow>
          (let (sb, S) = subscribers_new name attr S;
               (sr, S) = add_inner sb (inner_new (at_queue_size attr)) S
           in Inr (Ok sr, S\<lparr>ps_dict := any_dict_insert (ps_dict S) ty name \<lparr>ip_subscribers = sb, ip_num_publisher = 0\<rparr>\<rparr>))
      | Dict_Ok inner \<Rightarrow>
          if sb_attribute (ip_subscribers inner) = attr
          then
            and_then
              (if at_transient_local attr
               then (case sb_sender_buf (ip_subscribers inner) of
                       Some b \<Rightarrow> and_then (it_collect (rq_iter (ps_buf S b))) (\<lambda>xs. push_all xs (rq_new (at_queue_size attr)))
                     | None \<Rightarrow> Inr (rq_new (at_queue_size attr)))
               else Inr (rq_new (at_queue_size attr))) (\<lambda>q.
            let (sr, S) = add_inner (ip_subscribers inner) ((inner_new (at_queue_size attr))\<lparr>is_queue := q\<rparr>) S
            in Inr (Ok sr, S))
          else Inr (Err ''create_subscriber: incompatible attribute'', S))"

definition destroy_publisher :: "type_id \<Rightarrow> publisher \<Rightarrow> 'a pub_sub \<Rightarrow> 'a pub_sub" where
  "destroy_publisher ty pb S =
     (let name = sb_name (pb_subscribers pb) in
      case any_dict_get (ps_dict S) ty name of
        Dict_Ok inner \<Rightarrow>
          (let inner = inner\<lparr>ip_num_publisher := ip_num_publisher inner - 1\<rparr> in
           if ip_num_publisher inner = 0 \<and> ps_map S (sb_id_to_subscriber (ip_subscribers inner)) = []
           then S\<lparr>ps_dict := any_dict_remove (ps_dict S) name\<rparr>
           else S\<lparr>ps_dict := any_dict_insert (ps_dict S) ty name inner\<rparr>)
      | _ \<Rightarrow> S)"

definition destroy_subscriber :: "type_id \<Rightarrow> subscriber \<Rightarrow> 'a pub_sub \<Rightarrow> 'a pub_sub" where
  "destroy_subscriber ty sr S =
     (let m = sb_id_to_subscriber (sr_subscribers sr); name = sb_name (sr_subscribers sr);
          S = S\<lparr>ps_map := (ps_map S)(m := btm_remove (ps_map S m) (sr_inner sr))\<rparr>;
          inner = ps_inner S (sr_inner sr);
          S = upd_inner (sr_inner sr) (inner\<lparr>is_closed := True, is_waker_publishers := []\<rparr>)
                (S\<lparr>ps_wakes := ps_wakes S @ is_waker_publishers inner\<rparr>)
      in case any_dict_get (ps_dict S) ty name of
           Dict_Ok inner \<Rightarrow>
             if ip_num_publisher inner = 0 \<and> ps_map S (sb_id_to_subscriber (ip_subscribers inner)) = []
             then S\<lparr>ps_dict := any_dict_remove (ps_dict S) name\<rparr>
             else S
         | _ \<Rightarrow> S)"

section \<open>Queues\<close>

definition queue_ok :: "'b ringq \<Rightarrow> bool" where
  "queue_ok q \<longleftrightarrow> rq_inv q \<and> rq_clean q"

lemma queue_ok_new: "queue_ok (rq_new n)"
  by (simp add: queue_ok_def rq_inv_new rq_clean_new)

lemma push_cases:
  assumes "queue_ok q"
  obtains (room) q' where "rq_push q x = Inr (Ok (), q')" "queue_ok q'" "rq_list q' = rq_list q @ [x]"
      "rq_queue_size q' = rq_queue_size q" "length (rq_list q) < rq_queue_size q"
    | (full) "rq_push q x = Inr (Err x, q)" "rq_queue_size q \<le> length (rq_list q)"
proof (cases "length (rq_list q) < rq_queue_size q")
  case True
  have inv: "rq_inv q" "rq_clean q" using assms by (simp_all add: queue_ok_def)
  obtain q' where "rq_push q x = Inr (Ok (), q')" "rq_inv q'" "rq_list q' = rq_list q @ [x]" "rq_queue_size q' = rq_queue_size q"
    using rq.push_room[OF inv(1) True, of x] by blast
  then show ?thesis using room[of q'] rq_push_clean[OF inv, of x "Ok ()" q'] True by (simp add: queue_ok_def)
next
  case False
  then show ?thesis using full rq.push_full[of q x] assms by (simp add: queue_ok_def)
qed

lemma pop_cases:
  assumes "queue_ok q"
  obtains (nonempty) x xs q' where "rq_list q = x # xs" "rq_pop q = Inr (Some x, q')" "queue_ok q'" "rq_list q' = xs"
      "rq_queue_size q' = rq_queue_size q"
    | (empty) "rq_list q = []" "rq_pop q = Inr (None, q)"
proof (cases "rq_list q")
  case Nil
  then show ?thesis using empty rq.pop_empty[of q] assms by (simp add: queue_ok_def)
next
  case (Cons x xs)
  have inv: "rq_inv q" "rq_clean q" using assms by (simp_all add: queue_ok_def)
  obtain q' where "rq_pop q = Inr (Some x, q')" "rq_inv q'" "rq_list q' = xs" "rq_queue_size q' = rq_queue_size q"
    using rq.pop_nonempty[OF inv(1) Cons] by blast
  then show ?thesis using nonempty[OF Cons, of q'] rq_pop_clean[OF inv, of "Some x" q'] by (simp add: queue_ok_def)
qed

lemma gc_loop_result:
  assumes "queue_ok q" "rq_queue_size q \<noteq> 0"
  shows "\<exists>q'. gc_loop old q = Some (Inr q') \<and> queue_ok q' \<and> rq_list q' = dropWhile old (rq_list q)
    \<and> rq_queue_size q' = rq_queue_size q"
  using assms
proof (induction "rq_list q" arbitrary: q)
  case Nil
  then have "rq_peek q = Inr None" using rq_peek_empty[of q] by (simp add: queue_ok_def rq_queue_size_def)
  then show ?case using Nil by (subst gc_loop.simps) simp
next
  case (Cons x xs)
  have peek: "rq_peek q = Inr (Some x)" using rq_peek_list[of q x xs] Cons by (simp add: queue_ok_def)
  obtain q1 where q1: "rq_pop q = Inr (Some x, q1)" "queue_ok q1" "rq_list q1 = xs" "rq_queue_size q1 = rq_queue_size q"
    using pop_cases[OF Cons.prems(1)] Cons.hyps(2) by (metis list.inject list.distinct(1))
  have run: "gc_loop old q = (if old x then gc_loop old q1 else Some (Inr q))"
    using peek q1(1) by (subst gc_loop.simps) simp
  show ?case
  proof (cases "old x")
    case True
    then show ?thesis using Cons.hyps(1)[OF q1(3)[symmetric] q1(2)] Cons.prems(2) q1 run Cons.hyps(2)[symmetric] by simp
  next
    case False
    then show ?thesis using run Cons.prems Cons.hyps(2)[symmetric] by simp
  qed
qed

text \<open>Either the loop panics, on a queue of size 0, or it drops the old messages at the front.\<close>

lemma gc_loop_cases:
  assumes "queue_ok q" "and_then (returns (gc_loop old q)) (\<lambda>r. r) = Inr q'"
  shows "queue_ok q' \<and> rq_list q' = dropWhile old (rq_list q) \<and> rq_queue_size q' = rq_queue_size q"
proof (cases "rq_queue_size q = 0")
  case True
  then have "gc_loop old q = Some (Inl Index_Out_Of_Bounds)"
    by (subst gc_loop.simps) (simp add: rq_peek_def vec_get_def rq_queue_size_def)
  then show ?thesis using assms(2) by simp
next
  case False
  then show ?thesis using gc_loop_result[OF assms(1) False, of old] assms(2) by auto
qed

definition live :: "nat \<Rightarrow> lifespan \<Rightarrow> 'a data list \<Rightarrow> 'a data list" where
  "live now l xs = (case l of Permanent \<Rightarrow> xs | Span d \<Rightarrow> dropWhile (expired now (as_micros d)) xs)"

lemma garbage_collect_result:
  assumes "queue_ok (is_queue inner)" "garbage_collect now l inner = Inr inner'"
  shows "\<exists>q. inner' = inner\<lparr>is_queue := q\<rparr> \<and> queue_ok q \<and> rq_list q = live now l (rq_list (is_queue inner))
    \<and> rq_queue_size q = rq_queue_size (is_queue inner)"
proof (cases l)
  case Permanent
  then show ?thesis using assms by (intro exI[of _ "is_queue inner"]) (simp add: garbage_collect_def live_def)
next
  case (Span d)
  let ?gc = "and_then (returns (gc_loop (expired now (as_micros d)) (is_queue inner))) (\<lambda>r. r)"
  obtain q where q: "?gc = Inr q" "inner' = inner\<lparr>is_queue := q\<rparr>"
    using assms(2) Span by (cases ?gc) (simp_all add: garbage_collect_def)
  then show ?thesis using gc_loop_cases[OF assms(1) q(1)] Span by (auto simp: live_def)
qed

lemma wake_publishers_eq: "wake_publishers n ws = (drop n ws, take n ws)"
  by (induction n ws rule: wake_publishers.induct) simp_all

section \<open>No lost wakeup\<close>

definition inner_ok :: "'a inner_subscriber \<Rightarrow> bool" where
  "inner_ok inner \<longleftrightarrow> queue_ok (is_queue inner) \<and> (is_waker_subscriber inner \<noteq> None \<longrightarrow> rq_list (is_queue inner) = [])"

definition pub_sub_ok :: "'a pub_sub \<Rightarrow> bool" where
  "pub_sub_ok S \<longleftrightarrow> (\<forall>r. inner_ok (ps_inner S r)) \<and> (\<forall>b. queue_ok (ps_buf S b))"

definition pub_sub_boot :: "'a pub_sub" where
  "pub_sub_boot = \<lparr>ps_inner = (\<lambda>_. inner_new 0), ps_map = (\<lambda>_. []), ps_buf = (\<lambda>_. rq_new 0), ps_next = 0,
     ps_dict = any_dict_new, ps_wakes = []\<rparr>"

text \<open>One call of any operation of the module, by any task, at any time.\<close>

inductive pub_sub_step :: "'a pub_sub \<Rightarrow> 'a pub_sub \<Rightarrow> bool" where
  recv: "recv_or_register_waker now waker sr S = Inr (r, S') \<Longrightarrow> pub_sub_step S S'"
| try_recv: "try_recv now sr S = Inr (r, S') \<Longrightarrow> pub_sub_step S S'"
| send: "sender_poll now waker sn S = Inr (ready, sn', S') \<Longrightarrow> pub_sub_step S S'"
| create_pubsub: "create_pubsub attr S = (p, S') \<Longrightarrow> pub_sub_step S S'"
| clone: "subscriber_clone sr S = (sr', S') \<Longrightarrow> pub_sub_step S S'"
| create_publisher: "create_publisher ty name attr S = (p, S') \<Longrightarrow> pub_sub_step S S'"
| create_subscriber: "create_subscriber ty name attr S = Inr (s, S') \<Longrightarrow> pub_sub_step S S'"
| destroy_publisher: "pub_sub_step S (destroy_publisher ty pb S)"
| destroy_subscriber: "pub_sub_step S (destroy_subscriber ty sr S)"

lemma inner_ok_new: "inner_ok (inner_new n)"
  by (simp add: inner_ok_def inner_new_def queue_ok_new)

lemma upd_inner_ok: "pub_sub_ok S \<Longrightarrow> inner_ok inner \<Longrightarrow> pub_sub_ok (upd_inner r inner (S\<lparr>ps_wakes := ws\<rparr>))"
  by (simp add: pub_sub_ok_def upd_inner_def)

lemma upd_inner_ok': "pub_sub_ok S \<Longrightarrow> inner_ok inner \<Longrightarrow> pub_sub_ok (upd_inner r inner S)"
  by (simp add: pub_sub_ok_def upd_inner_def)

lemma live_Nil [simp]: "live now l [] = []"
  by (simp add: live_def split: lifespan.split)

lemma gc_inner_ok:
  assumes "inner_ok inner" "garbage_collect now l inner = Inr inner'"
  shows "inner_ok inner'"
  using garbage_collect_result[OF _ assms(2)] assms(1) by (auto simp: inner_ok_def)

lemma pop_inner_ok:
  assumes "inner_ok inner" "rq_pop (is_queue inner) = Inr (x, q)"
  shows "inner_ok (inner\<lparr>is_queue := q, is_waker_publishers := ws\<rparr>)" "x = None \<Longrightarrow> rq_list q = []" "inner_ok (inner\<lparr>is_queue := q\<rparr>)"
proof -
  have ok: "queue_ok (is_queue inner)" using assms(1) by (simp add: inner_ok_def)
  show "inner_ok (inner\<lparr>is_queue := q, is_waker_publishers := ws\<rparr>)" "x = None \<Longrightarrow> rq_list q = []" "inner_ok (inner\<lparr>is_queue := q\<rparr>)"
    by (rule pop_cases[OF ok]; use assms in \<open>auto simp: inner_ok_def\<close>)+
qed

lemma pop_inner:
  assumes "inner_ok inner"
  shows "\<exists>x q. rq_pop (is_queue inner) = Inr (x, q)"
proof -
  have "queue_ok (is_queue inner)" using assms by (simp add: inner_ok_def)
  then show ?thesis by (rule pop_cases) simp_all
qed

lemma recv_ok:
  assumes "pub_sub_ok S" "recv_or_register_waker now waker sr S = Inr (r, S')"
  shows "pub_sub_ok S'"
proof -
  obtain inner where gc: "garbage_collect now (at_lifespan (sb_attribute (sr_subscribers sr))) (ps_inner S (sr_inner sr)) = Inr inner"
    using assms(2) by (auto simp: recv_or_register_waker_def and_then_Inr_iff)
  have ok: "inner_ok inner" using gc_inner_ok[OF _ gc] assms(1) by (simp add: pub_sub_ok_def)
  obtain x q where pop: "rq_pop (is_queue inner) = Inr (x, q)"
    using pop_inner[OF ok] by blast
  note p = pop_inner_ok[OF ok pop]
  show ?thesis
  proof (cases x)
    case None
    then have "inner_ok (inner\<lparr>is_queue := q, is_waker_subscriber := Some waker\<rparr>)" using p(2,3) by (simp add: inner_ok_def)
    then show ?thesis using assms gc pop None by (auto simp: recv_or_register_waker_def intro: upd_inner_ok')
  next
    case (Some d)
    then show ?thesis using assms gc pop p(1)
      by (auto simp: recv_or_register_waker_def wake_publishers_eq intro: upd_inner_ok)
  qed
qed

lemma try_recv_ok:
  assumes "pub_sub_ok S" "try_recv now sr S = Inr (r, S')"
  shows "pub_sub_ok S'"
proof -
  obtain inner where gc: "garbage_collect now (at_lifespan (sb_attribute (sr_subscribers sr))) (ps_inner S (sr_inner sr)) = Inr inner"
    using assms(2) by (auto simp: try_recv_def and_then_Inr_iff)
  have ok: "inner_ok inner" using gc_inner_ok[OF _ gc] assms(1) by (simp add: pub_sub_ok_def)
  obtain x q where pop: "rq_pop (is_queue inner) = Inr (x, q)"
    using pop_inner[OF ok] by blast
  show ?thesis using assms gc pop pop_inner_ok(1)[OF ok pop] by (auto simp: try_recv_def wake_publishers_eq intro: upd_inner_ok)
qed

lemma sender_wait_closed: "is_closed (ps_inner S r) \<Longrightarrow> sender_wait now waker attr x (r # rs) S = sender_wait now waker attr x rs S"
  by simp

lemma sender_wait_queued:
  assumes "\<not> is_closed (ps_inner S r)" "is_waker_publishers (ps_inner S r) \<noteq> []"
  shows "sender_wait now waker attr x (r # rs) S =
    Inr (False, r # rs, upd_inner r ((ps_inner S r)\<lparr>is_waker_publishers := is_waker_publishers (ps_inner S r) @ [waker]\<rparr>) S)"
  using assms by (simp add: Let_def)

lemma sender_wait_open:
  assumes "\<not> is_closed (ps_inner S r)" "is_waker_publishers (ps_inner S r) = []"
    and "garbage_collect now (at_lifespan attr) (ps_inner S r) = Inr inner"
  shows "rq_push (is_queue inner) x = Inr (Ok (), q) \<Longrightarrow> sender_wait now waker attr x (r # rs) S =
      sender_wait now waker attr x rs (upd_inner r (inner\<lparr>is_queue := q, is_waker_subscriber := None\<rparr>)
        (S\<lparr>ps_wakes := ps_wakes S @ (case is_waker_subscriber inner of None \<Rightarrow> [] | Some w \<Rightarrow> [w])\<rparr>))"
    and "rq_push (is_queue inner) x = Inr (Err x, q) \<Longrightarrow> at_flow_control attr \<Longrightarrow> sender_wait now waker attr x (r # rs) S =
      Inr (False, r # rs, upd_inner r (inner\<lparr>is_queue := q, is_waker_publishers := is_waker_publishers inner @ [waker]\<rparr>) S)"
    and "rq_push (is_queue inner) x = Inr (Err x, q) \<Longrightarrow> \<not> at_flow_control attr \<Longrightarrow> rq_pop q = Inr (y, q1) \<Longrightarrow>
      rq_push q1 x = Inr (z, q2) \<Longrightarrow> sender_wait now waker attr x (r # rs) S =
      sender_wait now waker attr x rs (upd_inner r (inner\<lparr>is_queue := q2\<rparr>) S)"
  using assms by (simp_all add: Let_def)

lemma sender_wait_ok:
  assumes "pub_sub_ok S" "sender_wait now waker attr x rs S = Inr (ready, rs', S')"
  shows "pub_sub_ok S'"
  using assms
proof (induction rs arbitrary: S)
  case (Cons r rs)
  let ?inner = "ps_inner S r"
  have ok: "inner_ok ?inner" using Cons.prems(1) by (simp add: pub_sub_ok_def)
  consider (closed) "is_closed ?inner" | (queued) "\<not> is_closed ?inner" "is_waker_publishers ?inner \<noteq> []"
    | (open_) "\<not> is_closed ?inner" "is_waker_publishers ?inner = []" by blast
  then show ?case
  proof cases
    case closed
    then show ?thesis using Cons.IH[OF Cons.prems(1)] Cons.prems(2) by (simp only: sender_wait_closed)
  next
    case queued
    have "inner_ok (?inner\<lparr>is_waker_publishers := is_waker_publishers ?inner @ [waker]\<rparr>)" using ok by (simp add: inner_ok_def)
    then show ?thesis using Cons.prems unfolding sender_wait_queued[OF queued] by (auto intro: upd_inner_ok')
  next
    case open_
    obtain inner where gc: "garbage_collect now (at_lifespan attr) ?inner = Inr inner"
      using Cons.prems(2) open_ by (cases "garbage_collect now (at_lifespan attr) ?inner") (simp_all add: Let_def)
    have ok1: "inner_ok inner" using gc_inner_ok[OF ok gc] .
    then have q: "queue_ok (is_queue inner)" by (simp add: inner_ok_def)
    note wait = sender_wait_open[OF open_ gc]
    show ?thesis
    proof (rule push_cases[OF q, of x])
      fix q' assume p: "rq_push (is_queue inner) x = Inr (Ok (), q')" "queue_ok q'"
      have "inner_ok (inner\<lparr>is_queue := q', is_waker_subscriber := None\<rparr>)" using p(2) by (simp add: inner_ok_def)
      from Cons.IH[OF upd_inner_ok[OF Cons.prems(1) this]] show ?thesis using Cons.prems(2) unfolding wait(1)[OF p(1)] .
    next
      assume p: "rq_push (is_queue inner) x = Inr (Err x, is_queue inner)" "rq_queue_size (is_queue inner) \<le> length (rq_list (is_queue inner))"
      show ?thesis
      proof (cases "at_flow_control attr")
        case True
        have "inner_ok (inner\<lparr>is_waker_publishers := is_waker_publishers inner @ [waker]\<rparr>)" using ok1 by (simp add: inner_ok_def)
        then show ?thesis using Cons.prems unfolding wait(2)[OF p(1) True] by (auto intro: upd_inner_ok')
      next
        case False
        obtain y q1 where pop: "rq_pop (is_queue inner) = Inr (y, q1)" using pop_inner[OF ok1] by blast
        have ok2: "inner_ok (inner\<lparr>is_queue := q1\<rparr>)" using pop_inner_ok(3)[OF ok1 pop] .
        then have q1: "queue_ok q1" by (simp add: inner_ok_def)
        have size: "rq_queue_size q1 = rq_queue_size (is_queue inner)" by (rule pop_cases[OF q]) (use pop in auto)
        have "\<exists>z q2. rq_push q1 x = Inr (z, q2) \<and> inner_ok (inner\<lparr>is_queue := q2\<rparr>)"
        proof (rule push_cases[OF q1, of x])
          fix q2 assume r: "rq_push q1 x = Inr (Ok (), q2)" "queue_ok q2" "length (rq_list q1) < rq_queue_size q1"
          have "0 < length (rq_list (is_queue inner))" using r(3) size p(2) by linarith
          then have "rq_list (is_queue inner) \<noteq> []" unfolding length_greater_0_conv .
          then show ?thesis using r(1,2) ok1 by (simp add: inner_ok_def)
        qed (use ok2 in simp)
        then obtain z q2 where push: "rq_push q1 x = Inr (z, q2)" and ok3: "inner_ok (inner\<lparr>is_queue := q2\<rparr>)" by blast
        from Cons.IH[OF upd_inner_ok'[OF Cons.prems(1) ok3]] show ?thesis
          using Cons.prems(2) unfolding wait(3)[OF p(1) False pop push] .
      qed
    qed
  qed
qed simp

lemma push_evict_ok:
  assumes "queue_ok q" "push_evict q x = Inr q'"
  shows "queue_ok q'"
proof (rule push_cases[OF assms(1), of x])
  assume full: "rq_push q x = Inr (Err x, q)"
  obtain y q1 where q1: "rq_pop q = Inr (y, q1)" "queue_ok q1" by (rule pop_cases[OF assms(1)]) (use assms(1) in auto)
  show ?thesis by (rule push_cases[OF q1(2), of x]) (use assms(2) full q1 in \<open>auto simp: push_evict_def\<close>)
qed (use assms(2) in \<open>simp add: push_evict_def\<close>)

lemma sender_start_ok:
  assumes "pub_sub_ok S" "sender_start now sn S = Inr (sn', S')"
  shows "pub_sub_ok S'"
proof (cases "at_transient_local (sb_attribute (pb_subscribers (sn_publisher sn))) \<and> sb_sender_buf (pb_subscribers (sn_publisher sn)) \<noteq> None")
  case True
  let ?d = "\<lparr>data_timestamp = now, data_data = sn_data sn\<rparr>"
  obtain b where b: "sb_sender_buf (pb_subscribers (sn_publisher sn)) = Some b" using True by blast
  obtain q where q: "push_evict (ps_buf S b) ?d = Inr q"
    using assms(2) True b by (cases "push_evict (ps_buf S b) ?d") (simp_all add: sender_start_def Let_def)
  have "queue_ok q" using push_evict_ok[OF _ q] assms(1) by (simp add: pub_sub_ok_def)
  moreover have "S' = S\<lparr>ps_buf := (ps_buf S)(b := q)\<rparr>" using assms(2) True b q by (simp add: sender_start_def Let_def)
  ultimately show ?thesis using assms(1) by (simp add: pub_sub_ok_def)
next
  case False
  then have "S' = S" using assms(2) by (cases "sb_sender_buf (pb_subscribers (sn_publisher sn))") (simp_all add: sender_start_def Let_def split: if_splits)
  then show ?thesis using assms(1) by simp
qed

lemma sender_poll_cases:
  assumes "sender_poll now waker sn S = Inr (ready, sn', S')" "sn_state sn \<noteq> Sender_Finished"
  obtains sn1 S1 rs where "(if sn_state sn = Sender_Start then sender_start now sn S else Inr (sn, S)) = Inr (sn1, S1)"
    "sender_wait now waker (sb_attribute (pb_subscribers (sn_publisher sn1))) \<lparr>data_timestamp = sn_timestamp sn1, data_data = sn_data sn1\<rparr>
       (sn_subscribers sn1) S1 = Inr (ready, rs, S')"
proof -
  let ?st = "if sn_state sn = Sender_Start then sender_start now sn S else Inr (sn, S)"
  let ?w = "\<lambda>sn S. sender_wait now waker (sb_attribute (pb_subscribers (sn_publisher sn))) \<lparr>data_timestamp = sn_timestamp sn, data_data = sn_data sn\<rparr>
       (sn_subscribers sn) S"
  have poll: "sender_poll now waker sn S = and_then ?st (\<lambda>(sn, S). and_then (?w sn S) (\<lambda>(ready, rs, S).
      Inr (ready, sn\<lparr>sn_subscribers := rs, sn_state := (if ready then Sender_Finished else Sender_Wait)\<rparr>, S)))"
    using assms(2) by (cases "sn_state sn") (simp_all add: sender_poll_def)
  obtain p where "?st = Inr p" using assms(1) unfolding poll by (cases ?st) simp_all
  then obtain sn1 S1 where p: "?st = Inr (sn1, S1)" by (cases p) simp
  obtain w where "?w sn1 S1 = Inr w" using assms(1) unfolding poll p by (cases "?w sn1 S1") simp_all
  then obtain r rs S2 where w: "?w sn1 S1 = Inr (r, rs, S2)" by (cases w) auto
  show thesis using that[OF p, of rs] w assms(1) unfolding poll p by simp
qed

lemma sender_poll_ok:
  assumes "pub_sub_ok S" "sender_poll now waker sn S = Inr (ready, sn', S')"
  shows "pub_sub_ok S'"
proof (cases "sn_state sn = Sender_Finished")
  case True
  then show ?thesis using assms by (simp add: sender_poll_def)
next
  case False
  show ?thesis
  proof (rule sender_poll_cases[OF assms(2) False])
    fix sn1 S1 rs
    assume st: "(if sn_state sn = Sender_Start then sender_start now sn S else Inr (sn, S)) = Inr (sn1, S1)"
      and w: "sender_wait now waker (sb_attribute (pb_subscribers (sn_publisher sn1))) \<lparr>data_timestamp = sn_timestamp sn1, data_data = sn_data sn1\<rparr>
       (sn_subscribers sn1) S1 = Inr (ready, rs, S')"
    have "pub_sub_ok S1" using st assms(1) sender_start_ok[OF assms(1), of now sn sn1 S1] by (cases "sn_state sn = Sender_Start") simp_all
    then show ?thesis using w by (rule sender_wait_ok)
  qed
qed

lemma subscribers_new_ok: "pub_sub_ok S \<Longrightarrow> subscribers_new name attr S = (sb, S') \<Longrightarrow> pub_sub_ok S'"
  by (auto simp: subscribers_new_def pub_sub_ok_def Let_def queue_ok_new split: if_splits)

lemma add_inner_ok: "pub_sub_ok S \<Longrightarrow> inner_ok inner \<Longrightarrow> add_inner sb inner S = (sr, S') \<Longrightarrow> pub_sub_ok S'"
  by (auto simp: add_inner_def pub_sub_ok_def Let_def)

lemma new_topic_ok:
  assumes "pub_sub_ok S"
  obtains sb S1 sr S2 where "subscribers_new name attr S = (sb, S1)" "add_inner sb (inner_new n) S1 = (sr, S2)" "pub_sub_ok S1" "pub_sub_ok S2"
proof -
  obtain sb S1 where 1: "subscribers_new name attr S = (sb, S1)" by (cases "subscribers_new name attr S")
  obtain sr S2 where 2: "add_inner sb (inner_new n) S1 = (sr, S2)" by (cases "add_inner sb (inner_new n) S1")
  have "pub_sub_ok S1" using subscribers_new_ok[OF assms 1] .
  then show thesis using that[OF 1 2] add_inner_ok[OF _ inner_ok_new 2] by simp
qed

lemma push_all_ok: "queue_ok q \<Longrightarrow> \<exists>q'. push_all xs q = Inr q' \<and> queue_ok q'"
proof (induction xs arbitrary: q)
  case (Cons x xs)
  show ?case by (rule push_cases[OF Cons.prems, of x]) (use Cons in auto)
qed simp

lemma dict_ok [simp]: "pub_sub_ok (S\<lparr>ps_dict := d\<rparr>) = pub_sub_ok S" "pub_sub_ok (S\<lparr>ps_map := m\<rparr>) = pub_sub_ok S"
  by (simp_all add: pub_sub_ok_def)

lemma create_subscriber_ok:
  assumes "pub_sub_ok S" "create_subscriber ty name attr S = Inr (s, S')"
  shows "pub_sub_ok S'"
proof (cases "any_dict_get (ps_dict S) ty name")
  case (Dict_Ok inner)
  let ?q0 = "rq_new (at_queue_size attr)"
  show ?thesis
  proof (cases "sb_attribute (ip_subscribers inner) = attr")
    case True
    have buf: "\<exists>q. and_then (it_collect (rq_iter (ps_buf S b))) (\<lambda>xs. push_all xs ?q0) = Inr q \<and> queue_ok q" for b
      using assms(1) push_all_ok[OF queue_ok_new, of "rq_list (ps_buf S b)"] it_collect_iter[of "ps_buf S b"]
      by (simp add: pub_sub_ok_def queue_ok_def)
    have "\<exists>q. queue_ok q \<and> (if at_transient_local attr
               then (case sb_sender_buf (ip_subscribers inner) of
                       Some b \<Rightarrow> and_then (it_collect (rq_iter (ps_buf S b))) (\<lambda>xs. push_all xs ?q0)
                     | None \<Rightarrow> Inr ?q0)
               else Inr ?q0) = Inr q"
    proof (cases "sb_sender_buf (ip_subscribers inner)")
      case (Some b)
      then show ?thesis using buf[of b] queue_ok_new[of "at_queue_size attr"] by simp blast
    qed (simp add: queue_ok_new)
    then obtain q where q: "queue_ok q" "(if at_transient_local attr
               then (case sb_sender_buf (ip_subscribers inner) of
                       Some b \<Rightarrow> and_then (it_collect (rq_iter (ps_buf S b))) (\<lambda>xs. push_all xs ?q0)
                     | None \<Rightarrow> Inr ?q0)
               else Inr ?q0) = Inr q" by blast
    have "inner_ok ((inner_new (at_queue_size attr))\<lparr>is_queue := q\<rparr>)" using q(1) by (simp add: inner_ok_def inner_new_def)
    moreover obtain sr S1 where add: "add_inner (ip_subscribers inner) ((inner_new (at_queue_size attr))\<lparr>is_queue := q\<rparr>) S = (sr, S1)"
      by (cases "add_inner (ip_subscribers inner) ((inner_new (at_queue_size attr))\<lparr>is_queue := q\<rparr>) S")
    ultimately have "pub_sub_ok S1" using add_inner_ok[OF assms(1)] by blast
    then show ?thesis using assms(2) Dict_Ok True q(2) add by (simp add: create_subscriber_def)
  qed (use assms Dict_Ok in \<open>simp add: create_subscriber_def\<close>)
next
  case Dict_None
  show ?thesis
    by (rule new_topic_ok[OF assms(1), of name attr "at_queue_size attr"]) (use assms(2) Dict_None in \<open>auto simp: create_subscriber_def\<close>)
qed (use assms in \<open>simp add: create_subscriber_def\<close>)

lemma pub_sub_step_ok: "pub_sub_step S S' \<Longrightarrow> pub_sub_ok S \<Longrightarrow> pub_sub_ok S'"
proof (induction rule: pub_sub_step.induct)
  case (create_pubsub attr S p S')
  show ?case
    by (rule new_topic_ok[OF create_pubsub(2), of "''anonymous''" attr "at_queue_size attr"])
      (use create_pubsub(1) in \<open>auto simp: create_pubsub_def\<close>)
next
  case (create_publisher ty name attr S p S')
  show ?case
    by (rule new_topic_ok[OF create_publisher(2), of name attr 0])
      (use create_publisher in \<open>auto simp: create_publisher_def split: any_dict_result.splits if_splits\<close>)
next
  case (destroy_publisher S ty pb)
  then show ?case by (simp add: destroy_publisher_def Let_def split: any_dict_result.splits)
next
  case (destroy_subscriber S ty sr)
  let ?inner = "ps_inner S (sr_inner sr)"
  have "inner_ok (?inner\<lparr>is_closed := True, is_waker_publishers := []\<rparr>)"
    using destroy_subscriber by (simp add: pub_sub_ok_def inner_ok_def)
  then show ?case using destroy_subscriber upd_inner_ok[of "S\<lparr>ps_map := m\<rparr>" for m]
    by (simp add: destroy_subscriber_def Let_def split: any_dict_result.splits)
qed (auto intro: recv_ok try_recv_ok sender_poll_ok create_subscriber_ok simp: subscriber_clone_def add_inner_ok[OF _ inner_ok_new])

lemma pub_sub_reachable_ok: "pub_sub_step\<^sup>*\<^sup>* pub_sub_boot S \<Longrightarrow> pub_sub_ok S"
proof (induction rule: rtranclp_induct)
  case base
  then show ?case by (simp add: pub_sub_boot_def pub_sub_ok_def inner_ok_new queue_ok_new)
qed (use pub_sub_step_ok in blast)

section \<open>Delivery\<close>




section \<open>Properties\<close>

text \<open>
  C15. No lost wakeup. In every state that the operations of the module can reach, in any order and by
  any tasks, a subscriber that sleeps with a registered waker has an empty queue: a message that
  arrives always takes the waker and calls it.
\<close>

theorem no_lost_wakeup:
  assumes "pub_sub_step\<^sup>*\<^sup>* pub_sub_boot S" "is_waker_subscriber (ps_inner S r) = Some w"
  shows "rq_list (is_queue (ps_inner S r)) = []"
  using pub_sub_reachable_ok[OF assms(1)] assms(2) by (simp add: pub_sub_ok_def inner_ok_def)

text \<open>One topic with one subscriber that sleeps, for the examples.\<close>

definition sleeping_subscriber :: "nat pub_sub" where
  "sleeping_subscriber = pub_sub_boot\<lparr>ps_inner := (\<lambda>_. inner_new 0)(1 := (inner_new 10)\<lparr>is_waker_subscriber := Some 7\<rparr>),
     ps_map := (\<lambda>_. [])(0 := [(1, 1)]), ps_next := 2\<rparr>"

definition sample_topic :: subscribers where
  "sample_topic = \<lparr>sb_id_to_subscriber = 0, sb_name = ''anonymous'', sb_sender_buf = None, sb_attribute = attribute_default\<rparr>"

lemma sleeping_subscriber_reachable: "pub_sub_step\<^sup>*\<^sup>* pub_sub_boot sleeping_subscriber"
proof -
  let ?sr = "\<lparr>sr_inner = 1, sr_subscribers = sample_topic\<rparr>"
  define S1 :: "nat pub_sub" where "S1 = snd (create_pubsub attribute_default pub_sub_boot)"
  have "pub_sub_step pub_sub_boot S1"
    by (rule pub_sub_step.create_pubsub[where attr = attribute_default and p = "fst (create_pubsub attribute_default (pub_sub_boot :: nat pub_sub))"]) (simp add: S1_def)
  moreover have "recv_or_register_waker 0 7 ?sr S1 = Inr (None, sleeping_subscriber)"
    by (simp add: S1_def create_pubsub_def subscribers_new_def add_inner_def attribute_default_def pub_sub_boot_def sample_topic_def
        recv_or_register_waker_def garbage_collect_def inner_new_def rq_pop_def rq_new_def upd_inner_def sleeping_subscriber_def fun_eq_iff)
  then have "pub_sub_step S1 sleeping_subscriber" by (rule pub_sub_step.recv)
  ultimately show ?thesis by (meson rtranclp.simps)
qed

theorem no_lost_wakeup_witness:
  "pub_sub_step\<^sup>*\<^sup>* pub_sub_boot sleeping_subscriber \<and> is_waker_subscriber (ps_inner sleeping_subscriber 1) = Some 7
   \<and> rq_list (is_queue (ps_inner sleeping_subscriber 1)) = []"
proof -
  have w: "is_waker_subscriber (ps_inner sleeping_subscriber 1) = Some 7" by (simp add: sleeping_subscriber_def)
  show ?thesis using no_lost_wakeup[OF sleeping_subscriber_reachable w] w sleeping_subscriber_reachable by blast
qed



text \<open>
  C38. Waiting publishers can block for ever. A subscriber with a queue of size 1 receives the last
  message and wakes the first waiting publisher \<open>p\<close>. That publisher finds other waiting publishers and
  queues itself again without sending, although the queue is empty. The next receive then finds no
  message, wakes nobody and sleeps: the subscriber and all publishers wait for each other.
\<close>

theorem publishers_block_forever:
  assumes "queue_ok (is_queue (ps_inner S r))" "rq_list (is_queue (ps_inner S r)) = [d]" "rq_queue_size (is_queue (ps_inner S r)) = 1"
    and "is_waker_publishers (ps_inner S r) = p # ps" "ps \<noteq> []" "\<not> is_closed (ps_inner S r)"
    and "sr_inner sr = r" "at_lifespan (sb_attribute (sr_subscribers sr)) = Permanent"
    and "sn_state sn = Sender_Wait" "sn_subscribers sn = r # rs"
  shows "\<exists>S1 sn' S2 S3. recv_or_register_waker now w sr S = Inr (Some d, S1) \<and> ps_wakes S1 = ps_wakes S @ [p]
    \<and> sender_poll now p sn S1 = Inr (False, sn', S2)
    \<and> recv_or_register_waker now w sr S2 = Inr (None, S3) \<and> ps_wakes S3 = ps_wakes S1
    \<and> rq_list (is_queue (ps_inner S3 r)) = [] \<and> is_waker_subscriber (ps_inner S3 r) = Some w
    \<and> is_waker_publishers (ps_inner S3 r) = ps @ [p]"
proof -
  let ?i = "ps_inner S r"
  obtain q where q: "rq_pop (is_queue ?i) = Inr (Some d, q)" "rq_list q = []" "rq_queue_size q = 1" "rq_pop q = Inr (None, q)"
  proof (rule pop_cases[OF assms(1)])
    fix x xs q
    assume a: "rq_list (is_queue ?i) = x # xs" "rq_pop (is_queue ?i) = Inr (Some x, q)" "queue_ok q" "rq_list q = xs"
      "rq_queue_size q = rq_queue_size (is_queue ?i)"
    have "rq_pop q = Inr (None, q)" by (rule pop_cases[OF a(3)]) (use a assms(2) in auto)
    then show thesis using that a assms(2,3) by simp
  qed (use assms(2) in simp)
  have len: "rq_len q = 0" using q(2) length_rq_list[of q] by simp
  define i1 where "i1 = ?i\<lparr>is_queue := q, is_waker_publishers := ps\<rparr>"
  define S1 where "S1 = upd_inner r i1 (S\<lparr>ps_wakes := ps_wakes S @ [p]\<rparr>)"
  define i2 where "i2 = i1\<lparr>is_waker_publishers := ps @ [p]\<rparr>"
  define S2 where "S2 = upd_inner r i2 S1"
  define S3 where "S3 = upd_inner r (i2\<lparr>is_waker_subscriber := Some w\<rparr>) S2"
  have "recv_or_register_waker now w sr S = Inr (Some d, S1)"
    using assms(4,7,8) q(1,3) len
    by (simp add: recv_or_register_waker_def garbage_collect_def wake_publishers_eq S1_def i1_def)
  note first = this
  have "ps_inner S1 r = i1" by (simp add: S1_def upd_inner_def)
  then have "sender_wait now p attr x (r # rs) S1 = Inr (False, r # rs, S2)" for attr x
    using sender_wait_queued[of S1 r now p attr x rs] assms(5,6) by (simp add: S2_def i2_def i1_def)
  then have "sender_poll now p sn S1 = Inr (False, sn\<lparr>sn_subscribers := r # rs, sn_state := Sender_Wait\<rparr>, S2)"
    using assms(9,10) by (simp add: sender_poll_def)
  note poll = this
  have "ps_inner S2 r = i2" by (simp add: S2_def upd_inner_def)
  moreover have keep: "i2\<lparr>is_queue := q, is_waker_subscriber := Some w\<rparr> = i2\<lparr>is_waker_subscriber := Some w\<rparr>" "is_queue i2 = q" by (cases ?i; simp add: i2_def i1_def)+
  ultimately have "recv_or_register_waker now w sr S2 = Inr (None, S3)"
    using assms(7,8) q(4) by (simp add: recv_or_register_waker_def garbage_collect_def S3_def) (simp only: keep)
  note second = this
  have "ps_inner S3 r = i2\<lparr>is_waker_subscriber := Some w\<rparr>" "ps_wakes S3 = ps_wakes S1" "ps_wakes S1 = ps_wakes S @ [p]"
    by (simp_all add: S3_def S2_def S1_def upd_inner_def)
  then show ?thesis using first poll second q(2) by (simp add: i2_def i1_def)
qed

definition blocked_topic :: "nat pub_sub" where
  "blocked_topic = pub_sub_boot\<lparr>ps_inner := (\<lambda>_. \<lparr>is_queue = \<lparr>rq_queue = [Some \<lparr>data_timestamp = 0, data_data = 1\<rparr>],
     rq_len = 1, rq_head = 0, rq_tail = 0\<rparr>, is_waker_publishers = [3, 4], is_waker_subscriber = None, is_closed = False\<rparr>)\<rparr>"

theorem publishers_block_forever_witness:
  "\<exists>S1 sn' S2 S3. recv_or_register_waker 0 7 \<lparr>sr_inner = 0, sr_subscribers = sample_topic\<rparr> blocked_topic
        = Inr (Some \<lparr>data_timestamp = 0, data_data = 1\<rparr>, S1)
    \<and> sender_poll 0 3 ((sender_new 0 \<lparr>pb_subscribers = sample_topic\<rparr> 2)\<lparr>sn_state := Sender_Wait, sn_subscribers := [0]\<rparr>) S1 = Inr (False, sn', S2)
    \<and> recv_or_register_waker 0 7 \<lparr>sr_inner = 0, sr_subscribers = sample_topic\<rparr> S2 = Inr (None, S3)
    \<and> is_waker_publishers (ps_inner S3 0) = [4, 3]"
proof -
  have "queue_ok (is_queue (ps_inner blocked_topic 0))"
    by (simp add: queue_ok_def rq_inv_def rq_clean_def blocked_topic_def rq_slot_def)
  moreover have "rq_list (is_queue (ps_inner blocked_topic 0)) = [\<lparr>data_timestamp = 0, data_data = 1\<rparr>]"
    by (simp add: rq_list_def blocked_topic_def rq_slot_def)
  ultimately show ?thesis
    using publishers_block_forever[of blocked_topic 0 "\<lparr>data_timestamp = 0, data_data = 1\<rparr>" 3 "[4]" "\<lparr>sr_inner = 0, sr_subscribers = sample_topic\<rparr>"
        "(sender_new 0 \<lparr>pb_subscribers = sample_topic\<rparr> 2)\<lparr>sn_state := Sender_Wait, sn_subscribers := [0]\<rparr>" "[]" 0 7]
    by (simp add: blocked_topic_def sample_topic_def attribute_default_def sender_new_def rq_queue_size_def) blast
qed

end
