(* ===== verification/Dag_Build.thy ===== *)
theory Dag_Build
  imports Graph_Algo Task_Ops Pub_Sub
begin

text \<open>
  Building, validating and starting the DAGs of reactors (\<open>awkernel_async_lib/src/dag.rs\<close>). The state is the
  kernel state, which holds the table of DAGs, the topics, and the static maps that collect the registered
  reactors and the registration errors of each DAG. A registered reactor keeps what its closure captures: names,
  message types, topics and the scheduler. Spawning it subscribes to its topics and spawns its task; the
  body of the reactor is the future of that task and is not run here.
\<close>

section \<open>State\<close>

datatype dag_error =
    NotWeaklyConnected u32
  | ContainsCycle u32
  | MissingPendingTasks u32
  | MultipleSourceNodes u32
  | MultipleSinkNodes u32
  | NoPublisherFound u32 usize
  | NoSubscriberFound u32 usize
  | SubscribeArityMismatch u32 usize
  | PublishArityMismatch u32 usize
  | DuplicateSubscribe u32 usize
  | DuplicatePublish u32 usize
  | TopicHasMultiplePublishers u32 string
  | InterDagTopicConflict string "u32 list"

datatype 'm reactor =
    Reactor string "type_id list" "string list" "string list" "'m scheduler_type"
  | Periodic_Reactor string "string list" "'m scheduler_type" duration
  | Sink_Reactor string "type_id list" "string list" "'m scheduler_type"

record 'm pending_task =
  pt_node_idx :: node_index
  pt_reactor :: "'m reactor"
  pt_dag_info :: dag_info

record ('m, 'q, 'a) dag_env =
  de_kernel :: "('m, 'q) kernel"
  de_pub_sub :: "'a pub_sub"
  de_pending_tasks :: "(u32, 'm pending_task list) btree_map"
  de_source_pending_tasks :: "(u32, 'm pending_task) btree_map"
  de_mismatch_subscribe :: "(u32, usize list) btree_map"
  de_mismatch_publish :: "(u32, usize list) btree_map"
  de_duplicate_subscribe :: "(u32, usize list) btree_map"
  de_duplicate_publish :: "(u32, usize list) btree_map"

abbreviation de_store :: "('m, 'q, 'a) dag_env \<Rightarrow> dag_store" where
  "de_store D \<equiv> k_dags (de_kernel D)"

abbreviation de_dag :: "('m, 'q, 'a) dag_env \<Rightarrow> nat \<Rightarrow> dag" where
  "de_dag D r \<equiv> ds_heap (de_store D) r"

definition upd_store :: "(dag_store \<Rightarrow> dag_store) \<Rightarrow> ('m, 'q, 'a) dag_env \<Rightarrow> ('m, 'q, 'a) dag_env" where
  "upd_store f D = D\<lparr>de_kernel := (de_kernel D)\<lparr>k_dags := f (de_store D)\<rparr>\<rparr>"

definition set_graph :: "nat \<Rightarrow> dag_graph \<Rightarrow> ('m, 'q, 'a) dag_env \<Rightarrow> ('m, 'q, 'a) dag_env" where
  "set_graph r g D = upd_store (\<lambda>S. S\<lparr>ds_heap := (ds_heap S)(r := (ds_heap S r)\<lparr>dag_graph := g\<rparr>)\<rparr>) D"

section \<open>Registering reactors\<close>

text \<open>The edges between a new node and all nodes, itself included, and adding them one by one.\<close>

definition edges_to_add :: "dag_graph \<Rightarrow> node_index \<Rightarrow> string list \<Rightarrow> string list \<Rightarrow> (node_index \<times> node_index \<times> string) list" where
  "edges_to_add g idx subs pubs =
     concat (map (\<lambda>(v, node_info).
       map (\<lambda>topic. (v, idx, topic)) (filter (\<lambda>topic. topic \<in> set subs) (ni_publish_topic_names node_info)) @
       map (\<lambda>topic. (idx, v, topic)) (filter (\<lambda>topic. topic \<in> set pubs) (ni_subscribe_topic_names node_info)))
     (node_references g))"

fun add_edges :: "(node_index \<times> node_index \<times> string) list \<Rightarrow> dag_graph \<Rightarrow> dag_graph rust" where
  "add_edges [] g = Inr g"
| "add_edges ((from, to, topic) # es) g = and_then (add_edge g from to \<lparr>ei_topic_name = topic\<rparr>) (\<lambda>(_, g). add_edges es g)"

definition add_node_with_topic_edges ::
    "nat \<Rightarrow> string list \<Rightarrow> string list \<Rightarrow> ('m, 'q, 'a) dag_env \<Rightarrow> (node_index \<times> ('m, 'q, 'a) dag_env) rust" where
  "add_node_with_topic_edges r subs pubs D =
     (let add_node_info = \<lparr>ni_task_id = 0, ni_subscribe_topic_names = subs, ni_publish_topic_names = pubs,
            ni_relative_deadline = None, ni_num_finished = 0, ni_deadline_job = None\<rparr>;
          cid = dag_id (de_dag D r)
      in and_then (add_node (dag_graph (de_dag D r)) add_node_info) (\<lambda>(idx, g).
         let D = (if length subs \<noteq> length (remdups subs)
                  then D\<lparr>de_duplicate_subscribe := btm_push (de_duplicate_subscribe D) cid (unat idx)\<rparr> else D);
             D = (if length pubs \<noteq> length (remdups pubs)
                  then D\<lparr>de_duplicate_publish := btm_push (de_duplicate_publish D) cid (unat idx)\<rparr> else D)
         in and_then (add_edges (edges_to_add g idx subs pubs) g) (\<lambda>g. Inr (idx, set_graph r g D))))"

text \<open>The arity of the message tuples is the length of the list of types.\<close>

definition check_subscribe_mismatch :: "nat \<Rightarrow> usize \<Rightarrow> string list \<Rightarrow> node_index \<Rightarrow> ('m, 'q, 'a) dag_env \<Rightarrow> ('m, 'q, 'a) dag_env" where
  "check_subscribe_mismatch r arity subs idx D =
     (if arity \<noteq> length subs
      then D\<lparr>de_mismatch_subscribe := btm_push (de_mismatch_subscribe D) (dag_id (de_dag D r)) (unat idx)\<rparr> else D)"

definition check_publish_mismatch :: "nat \<Rightarrow> usize \<Rightarrow> string list \<Rightarrow> node_index \<Rightarrow> ('m, 'q, 'a) dag_env \<Rightarrow> ('m, 'q, 'a) dag_env" where
  "check_publish_mismatch r arity pubs idx D =
     (if arity \<noteq> length pubs
      then D\<lparr>de_mismatch_publish := btm_push (de_mismatch_publish D) (dag_id (de_dag D r)) (unat idx)\<rparr> else D)"

definition register_reactor ::
    "nat \<Rightarrow> string \<Rightarrow> type_id list \<Rightarrow> usize \<Rightarrow> string list \<Rightarrow> string list \<Rightarrow> 'm scheduler_type \<Rightarrow> ('m, 'q, 'a) dag_env
     \<Rightarrow> ('m, 'q, 'a) dag_env rust" where
  "register_reactor r name args ret_arity subs pubs st D =
     and_then (add_node_with_topic_edges r subs pubs D) (\<lambda>(idx, D).
     let D = check_publish_mismatch r ret_arity pubs idx (check_subscribe_mismatch r (length args) subs idx D);
         cid = dag_id (de_dag D r);
         task = \<lparr>pt_node_idx = idx, pt_reactor = Reactor name args subs pubs st, pt_dag_info = \<lparr>di_dag_id = cid, di_node_id = idx\<rparr>\<rparr>
     in Inr (D\<lparr>de_pending_tasks := btm_push (de_pending_tasks D) cid task\<rparr>))"

definition register_periodic_reactor ::
    "nat \<Rightarrow> string \<Rightarrow> usize \<Rightarrow> string list \<Rightarrow> 'm scheduler_type \<Rightarrow> duration \<Rightarrow> ('m, 'q, 'a) dag_env \<Rightarrow> ('m, 'q, 'a) dag_env rust" where
  "register_periodic_reactor r name ret_arity pubs st period D =
     and_then (add_node_with_topic_edges r [] pubs D) (\<lambda>(idx, D).
     let D = check_publish_mismatch r ret_arity pubs idx D;
         cid = dag_id (de_dag D r);
         task = \<lparr>pt_node_idx = idx, pt_reactor = Periodic_Reactor name pubs st period, pt_dag_info = \<lparr>di_dag_id = cid, di_node_id = idx\<rparr>\<rparr>
     in Inr (D\<lparr>de_source_pending_tasks := btm_insert (de_source_pending_tasks D) cid task\<rparr>))"

definition register_sink_reactor ::
    "nat \<Rightarrow> string \<Rightarrow> type_id list \<Rightarrow> string list \<Rightarrow> 'm scheduler_type \<Rightarrow> duration \<Rightarrow> ('m, 'q, 'a) dag_env \<Rightarrow> ('m, 'q, 'a) dag_env rust" where
  "register_sink_reactor r name args subs st relative_deadline D =
     and_then (add_node_with_topic_edges r subs [] D) (\<lambda>(idx, D).
     and_then (set_relative_deadline (de_dag D r) idx relative_deadline) (\<lambda>d.
     let D = check_subscribe_mismatch r (length args) subs idx (set_graph r (dag_graph d) D);
         cid = dag_id (de_dag D r);
         task = \<lparr>pt_node_idx = idx, pt_reactor = Sink_Reactor name args subs st, pt_dag_info = \<lparr>di_dag_id = cid, di_node_id = idx\<rparr>\<rparr>
     in Inr (D\<lparr>de_pending_tasks := btm_push (de_pending_tasks D) cid task\<rparr>)))"

section \<open>Validation\<close>

definition errors_result :: "dag_error list \<Rightarrow> (unit, dag_error list) result" where
  "errors_result errors = (if errors = [] then Ok () else Err errors)"

definition check_for_arity_mismatches :: "u32 \<Rightarrow> ('m, 'q, 'a) dag_env \<Rightarrow> (unit, dag_error list) result \<times> ('m, 'q, 'a) dag_env" where
  "check_for_arity_mismatches cid D =
     (errors_result
        (map (SubscribeArityMismatch cid) (btm_get_vec (de_mismatch_subscribe D) cid) @
         map (PublishArityMismatch cid) (btm_get_vec (de_mismatch_publish D) cid)),
      D\<lparr>de_mismatch_subscribe := btm_remove (de_mismatch_subscribe D) cid,
        de_mismatch_publish := btm_remove (de_mismatch_publish D) cid\<rparr>)"

definition check_for_pubsub_duplicates :: "u32 \<Rightarrow> ('m, 'q, 'a) dag_env \<Rightarrow> (unit, dag_error list) result \<times> ('m, 'q, 'a) dag_env" where
  "check_for_pubsub_duplicates cid D =
     (errors_result
        (map (DuplicateSubscribe cid) (btm_get_vec (de_duplicate_subscribe D) cid) @
         map (DuplicatePublish cid) (btm_get_vec (de_duplicate_publish D) cid)),
      D\<lparr>de_duplicate_subscribe := btm_remove (de_duplicate_subscribe D) cid,
        de_duplicate_publish := btm_remove (de_duplicate_publish D) cid\<rparr>)"

text \<open>The loop of \<open>validate_edge_connect\<close> over the nodes.\<close>

fun edge_connect_loop :: "dag \<Rightarrow> node_index list \<Rightarrow> (unit, dag_error) result rust" where
  "edge_connect_loop d [] = Inr (Ok ())"
| "edge_connect_loop d (idx # ixs) =
     and_then (unwrap (node_weight (dag_graph d) idx)) (\<lambda>node_info.
     and_then (returns (nb_collect (neighbors_directed (dag_graph d) idx Incoming))) (\<lambda>ins.
     if length ins < length (ni_subscribe_topic_names node_info) then Inr (Err (NoPublisherFound (dag_id d) (unat idx)))
     else and_then (returns (nb_collect (neighbors_directed (dag_graph d) idx Outgoing))) (\<lambda>outs.
     if length outs < length (ni_publish_topic_names node_info) then Inr (Err (NoSubscriberFound (dag_id d) (unat idx)))
     else edge_connect_loop d ixs)))"

definition validate_edge_connect :: "dag \<Rightarrow> (unit, dag_error) result rust" where
  "validate_edge_connect d = edge_connect_loop d (node_indices (dag_graph d))"

definition validate_dag :: "'b bit_set_ops \<Rightarrow> dag \<Rightarrow> ('m, 'q, 'a) dag_env \<Rightarrow> (unit, dag_error) result rust" where
  "validate_dag B d D =
     (let cid = dag_id d in
      if get_dag (de_store D) cid = None then Inl Assertion_Failed
      else if btm_get (de_pending_tasks D) cid = None then Inr (Err (MissingPendingTasks cid))
      else
        and_then (connected_components (dag_graph d)) (\<lambda>components.
        if components \<noteq> 1 then Inr (Err (NotWeaklyConnected cid))
        else
          and_then (is_cyclic_directed B (dag_graph d)) (\<lambda>cyc.
          if cyc then Inr (Err (ContainsCycle cid))
          else if length (get_source_nodes d) > 1 then Inr (Err (MultipleSourceNodes cid))
          else if length (get_sink_nodes d) > 1 then Inr (Err (MultipleSinkNodes cid))
          else validate_edge_connect d)))"

definition topic_counts :: "dag_graph \<Rightarrow> (string, usize) btree_map" where
  "topic_counts g =
     foldl (\<lambda>acc edge. let topic = ei_topic_name (er_weight edge) in
              btm_insert acc topic ((case btm_get acc topic of None \<Rightarrow> 0 | Some n \<Rightarrow> n) + 1))
       [] (edge_references g)"

definition validate_single_publisher_per_topic :: "dag \<Rightarrow> (unit, dag_error list) result" where
  "validate_single_publisher_per_topic d =
     errors_result (map (\<lambda>(topic, _). TopicHasMultiplePublishers (dag_id d) topic)
       (filter (\<lambda>(_, count). count > 1) (topic_counts (dag_graph d))))"

definition topic_to_dags :: "dag_store \<Rightarrow> (string, u32 list) btree_map" where
  "topic_to_dags S =
     foldl (\<lambda>acc r. foldl (\<lambda>acc edge. btm_push acc (ei_topic_name (er_weight edge)) (dag_id (ds_heap S r))) acc
                       (edge_references (dag_graph (ds_heap S r))))
       [] (map snd (dags_id_to_dag (ds_dags S)))"

definition validate_dag_topic_conflicts :: "dag_store \<Rightarrow> (unit, dag_error list) result" where
  "validate_dag_topic_conflicts S =
     errors_result (concat (map (\<lambda>(topic, dag_ids).
       let ids = remdups_adj (sort dag_ids) in if length ids > 1 then [InterDagTopicConflict topic ids] else [])
       (topic_to_dags S)))"

text \<open>The loop of \<open>validate_all_rules\<close> over the DAGs, with the errors so far.\<close>

fun validate_loop ::
    "'b bit_set_ops \<Rightarrow> nat list \<Rightarrow> dag_error list \<Rightarrow> ('m, 'q, 'a) dag_env \<Rightarrow> (dag_error list \<times> ('m, 'q, 'a) dag_env) rust" where
  "validate_loop B [] errors D = Inr (errors, D)"
| "validate_loop B (r # rs) errors D =
     (let d = de_dag D r; (arity, D) = check_for_arity_mismatches (dag_id d) D in
      case arity of
        Err es \<Rightarrow> validate_loop B rs (errors @ es) D
      | Ok _ \<Rightarrow>
          and_then (validate_dag B d D) (\<lambda>v.
          case v of
            Err e \<Rightarrow> validate_loop B rs (errors @ [e]) D
          | Ok _ \<Rightarrow>
              (let (dup, D) = check_for_pubsub_duplicates (dag_id d) D in
               case dup of
                 Err es \<Rightarrow> validate_loop B rs (errors @ es) D
               | Ok _ \<Rightarrow>
                   (case validate_single_publisher_per_topic d of
                      Err es \<Rightarrow> validate_loop B rs (errors @ es) D
                    | Ok _ \<Rightarrow> validate_loop B rs errors D))))"

definition validate_all_rules ::
    "'b bit_set_ops \<Rightarrow> nat list \<Rightarrow> ('m, 'q, 'a) dag_env \<Rightarrow> ((unit, dag_error list) result \<times> ('m, 'q, 'a) dag_env) rust" where
  "validate_all_rules B dags D =
     and_then (validate_loop B dags [] D) (\<lambda>(errors, D).
     if errors \<noteq> [] then Inr (Err errors, D) else Inr (validate_dag_topic_conflicts (de_store D), D))"

section \<open>Starting\<close>

text \<open>
  The tuple of subscribers of a reactor. Running out of topics and a topic with another type or
  attribute are panics.
\<close>

fun create_subscribers :: "type_id list \<Rightarrow> string list \<Rightarrow> 'a pub_sub \<Rightarrow> (subscriber list \<times> 'a pub_sub) rust" where
  "create_subscribers [] topics S = Inr ([], S)"
| "create_subscribers (ty # tys) [] S = Inl Unwrap_None"
| "create_subscribers (ty # tys) (topic # topics) S =
     and_then (create_subscriber ty topic attribute_default S) (\<lambda>(res, S).
     case res of
       Err _ \<Rightarrow> Inl Unwrap_None
     | Ok sr \<Rightarrow> and_then (create_subscribers tys topics S) (\<lambda>(srs, S). Inr (sr # srs, S)))"

definition spawn_pending :: "('m, 'q) ext_ops \<Rightarrow> 'm pending_task \<Rightarrow> ('m, 'q, 'a) dag_env \<Rightarrow> (u32 \<times> ('m, 'q, 'a) dag_env) rust" where
  "spawn_pending P task D =
     and_then (unwrap (get_dag (de_store D) (di_dag_id (pt_dag_info task)))) (\<lambda>_.
     let spawn_task = (\<lambda>name st D. and_then (spawn_with_dag_info P name st (pt_dag_info task) (de_kernel D)) (\<lambda>(tid, K). Inr (tid, D\<lparr>de_kernel := K\<rparr>)))
     in case pt_reactor task of
          Reactor name args subs pubs st \<Rightarrow>
            and_then (create_subscribers args subs (de_pub_sub D)) (\<lambda>(_, S). spawn_task name st (D\<lparr>de_pub_sub := S\<rparr>))
        | Periodic_Reactor name pubs st period \<Rightarrow> spawn_task name st D
        | Sink_Reactor name args subs st \<Rightarrow>
            and_then (create_subscribers args subs (de_pub_sub D)) (\<lambda>(_, S). spawn_task name st (D\<lparr>de_pub_sub := S\<rparr>)))"

definition spawn_and_record ::
    "('m, 'q) ext_ops \<Rightarrow> nat \<Rightarrow> 'm pending_task \<Rightarrow> ('m, 'q, 'a) dag_env \<Rightarrow> ('m, 'q, 'a) dag_env rust" where
  "spawn_and_record P r task D =
     and_then (spawn_pending P task D) (\<lambda>(task_id, D).
     case node_weight_mut (dag_graph (de_dag D r)) (pt_node_idx task) (\<lambda>i. i\<lparr>ni_task_id := task_id\<rparr>) of
       Some g \<Rightarrow> Inr (set_graph r g D)
     | None \<Rightarrow> Inr D)"

fun spawn_loop :: "('m, 'q) ext_ops \<Rightarrow> nat \<Rightarrow> 'm pending_task list \<Rightarrow> ('m, 'q, 'a) dag_env \<Rightarrow> ('m, 'q, 'a) dag_env rust" where
  "spawn_loop P r [] D = Inr D"
| "spawn_loop P r (task # tasks) D = and_then (spawn_and_record P r task D) (spawn_loop P r tasks)"

definition spawn_dag :: "('m, 'q) ext_ops \<Rightarrow> nat \<Rightarrow> ('m, 'q, 'a) dag_env \<Rightarrow> ('m, 'q, 'a) dag_env rust" where
  "spawn_dag P r D =
     (let cid = dag_id (de_dag D r) in
      and_then (unwrap (btm_get (de_pending_tasks D) cid)) (\<lambda>pending_tasks.
      and_then (spawn_loop P r pending_tasks (D\<lparr>de_pending_tasks := btm_remove (de_pending_tasks D) cid\<rparr>)) (\<lambda>D.
      and_then (unwrap (btm_get (de_source_pending_tasks D) cid)) (\<lambda>source_pending_task.
      spawn_and_record P r source_pending_task
        (D\<lparr>de_source_pending_tasks := btm_remove (de_source_pending_tasks D) cid\<rparr>)))))"

definition remove_dag :: "u32 \<Rightarrow> ('m, 'q, 'a) dag_env \<Rightarrow> ('m, 'q, 'a) dag_env" where
  "remove_dag cid D =
     (upd_store (\<lambda>S. S\<lparr>ds_dags := dags_remove (ds_dags S) cid\<rparr>) D)
       \<lparr>de_pending_tasks := btm_remove (de_pending_tasks D) cid,
        de_source_pending_tasks := btm_remove (de_source_pending_tasks D) cid\<rparr>"

fun spawn_dags :: "('m, 'q) ext_ops \<Rightarrow> nat list \<Rightarrow> ('m, 'q, 'a) dag_env \<Rightarrow> ('m, 'q, 'a) dag_env rust" where
  "spawn_dags P [] D = Inr D"
| "spawn_dags P (r # rs) D = and_then (spawn_dag P r D) (spawn_dags P rs)"

definition finish_create_dags ::
    "('m, 'q) ext_ops \<Rightarrow> 'b bit_set_ops \<Rightarrow> nat list \<Rightarrow> ('m, 'q, 'a) dag_env
     \<Rightarrow> ((unit, dag_error list) result \<times> ('m, 'q, 'a) dag_env) rust" where
  "finish_create_dags P B dags D =
     and_then (validate_all_rules B dags D) (\<lambda>(v, D).
     case v of
       Ok _ \<Rightarrow> and_then (spawn_dags P dags D) (\<lambda>D. Inr (Ok (), D))
     | Err errors \<Rightarrow> Inr (Err errors, foldl (\<lambda>D r. remove_dag (dag_id (de_dag D r)) D) D dags))"

end
