(* ===== verification/Dag_Rules.thy ===== *)
theory Dag_Rules
  imports Dag_Build Runtime_Wake
begin

text \<open>
  What the validation of \<open>dag.rs\<close> guarantees: the shape of an accepted DAG, the edges that registering
  reactors creates, the exact meaning of the rule on publishers, and what the error path of
  \<open>finish_create_dags\<close> removes.
\<close>

section \<open>Acyclic graphs\<close>

lemma finite_edges_of: "finite (edges_of g)"
  by (simp add: edges_of_def)

lemma entry_above:
  assumes "wf E"
  shows "\<exists>s. (s, x) \<in> E\<^sup>* \<and> (\<forall>y. (y, s) \<notin> E)"
  using assms
proof (induction x rule: wf_induct_rule)
  case (less x)
  show ?case
  proof (cases "\<exists>y. (y, x) \<in> E")
    case True
    then obtain y s where "(y, x) \<in> E" "(s, y) \<in> E\<^sup>*" "\<forall>z. (z, s) \<notin> E" using less by blast
    then show ?thesis by (meson rtrancl_into_rtrancl)
  qed blast
qed

lemma acyclic_wf:
  assumes "\<forall>x. (x, x) \<notin> (edges_of g)\<^sup>+"
  shows "wf (edges_of g)" "wf ((edges_of g)\<inverse>)"
proof -
  have "acyclic (edges_of g)" using assms by (simp add: acyclic_def)
  then show "wf (edges_of g)" "wf ((edges_of g)\<inverse>)"
    using finite_acyclic_wf[OF finite_edges_of] finite_acyclic_wf_converse[OF finite_edges_of] by blast+
qed

lemma edges_of_in: "(u, unat v) \<in> edges_of g \<longleftrightarrow> u \<in> unat ` set (map ge_node0 (in_edges g v))"
  by (auto simp: edges_of_def in_edges_def image_iff word_unat_eq_iff eq_commute[of "unat v"])

lemma no_in_edges: "in_edges g v = [] \<longleftrightarrow> (\<forall>y. (y, unat v) \<notin> edges_of g)"
  unfolding edges_of_in by (cases "in_edges g v") auto

lemma no_out_edges: "out_edges g v = [] \<longleftrightarrow> (\<forall>y. (unat v, y) \<notin> edges_of g)"
  unfolding edges_of_out by (cases "out_edges g v") auto

lemma node_indices_unat: "graph_inv g \<Longrightarrow> x < node_count g \<Longrightarrow> word_of_nat x \<in> set (node_indices g) \<and> unat (word_of_nat x :: u32) = x"
  by (auto simp: node_indices_def graph_inv_def node_count_def unat_of_index)

text \<open>A list of at most one element that contains an element above every node is that one element.\<close>

lemma single_entry:
  assumes "length xs \<le> 1" "0 < n" "\<And>x. x < n \<Longrightarrow> \<exists>s \<in> set xs. R s x"
  shows "\<exists>s. xs = [s] \<and> (\<forall>x < n. R s x)"
proof -
  obtain s where "s \<in> set xs" using assms(3)[OF assms(2)] by blast
  then have "xs = [s]" using assms(1) by (cases xs) auto
  then show ?thesis using assms(3) by auto
qed

lemma source_above:
  assumes "graph_inv g" "\<forall>x. (x, x) \<notin> (edges_of g)\<^sup>+" "x < node_count g"
  shows "\<exists>s \<in> set (externals g Incoming). (unat s, x) \<in> (edges_of g)\<^sup>*"
proof -
  obtain s where s: "(s, x) \<in> (edges_of g)\<^sup>*" "\<forall>y. (y, s) \<notin> edges_of g" using entry_above[OF acyclic_wf(1)[OF assms(2)]] by blast
  have "s < node_count g" using s(1) assms(3) edges_of_range[OF assms(1)] by (auto elim: converse_rtranclE)
  note i = node_indices_unat[OF assms(1) this]
  then have "word_of_nat s \<in> set (externals g Incoming)"
    using s(2) unfolding externals_exact(2)[OF assms(1)] by (simp add: no_in_edges)
  then show ?thesis using s(1) i by (intro bexI[of _ "word_of_nat s"]) simp_all
qed

lemma sink_below:
  assumes "graph_inv g" "\<forall>x. (x, x) \<notin> (edges_of g)\<^sup>+" "x < node_count g"
  shows "\<exists>t \<in> set (externals g Outgoing). (x, unat t) \<in> (edges_of g)\<^sup>*"
proof -
  obtain t where "(t, x) \<in> ((edges_of g)\<inverse>)\<^sup>*" "\<forall>y. (y, t) \<notin> (edges_of g)\<inverse>" using entry_above[OF acyclic_wf(2)[OF assms(2)]] by blast
  then have t: "(x, t) \<in> (edges_of g)\<^sup>*" "\<forall>y. (t, y) \<notin> edges_of g" by (simp_all add: rtrancl_converse)
  have "t < node_count g" using t(1) assms(3) edges_of_range[OF assms(1)] by (auto elim: rtranclE)
  note i = node_indices_unat[OF assms(1) this]
  then have "word_of_nat t \<in> set (externals g Outgoing)"
    using t(2) unfolding externals_exact(1)[OF assms(1)] by (simp add: no_out_edges)
  then show ?thesis using t(1) i by (intro bexI[of _ "word_of_nat t"]) simp_all
qed

section \<open>Accepted DAGs\<close>

lemma edge_connect_ok:
  assumes "graph_inv (dag_graph d)" "edge_connect_loop d ixs = Inr (Ok ())" "v \<in> set ixs"
  shows "\<exists>i. node_weight (dag_graph d) v = Some i \<and> length (ni_subscribe_topic_names i) \<le> length (in_edges (dag_graph d) v)
    \<and> length (ni_publish_topic_names i) \<le> length (out_edges (dag_graph d) v)"
  using assms(2,3)
proof (induction ixs)
  case (Cons w ixs)
  note nb = neighbors_exact[OF assms(1), of w]
  obtain i where i: "node_weight (dag_graph d) w = Some i"
    using Cons.prems(1) by (cases "node_weight (dag_graph d) w") auto
  then have "length (ni_subscribe_topic_names i) \<le> length (in_edges (dag_graph d) w)"
    "length (ni_publish_topic_names i) \<le> length (out_edges (dag_graph d) w)" "edge_connect_loop d ixs = Inr (Ok ())"
    using Cons.prems(1) nb by (auto split: if_splits)
  then show ?case using Cons i by (cases "v = w") auto
qed simp

lemma validate_dag_Ok:
  assumes "bit_set_ok B bits cap" "graph_inv (dag_graph d)" "validate_dag B d D = Inr (Ok ())"
  shows "card (components (dag_graph d)) = 1" "\<not> cyclic (dag_graph d)" "length (get_source_nodes d) \<le> 1" "length (get_sink_nodes d) \<le> 1"
    "edge_connect_loop d (node_indices (dag_graph d)) = Inr (Ok ())" "btm_get (de_pending_tasks D) (dag_id d) \<noteq> None"
  using assms(3) connected_components_result[OF assms(2)] is_cyclic_directed_result[OF assms(1,2)]
  by (auto simp: validate_dag_def validate_edge_connect_def Let_def split: if_splits)

text \<open>
  C28. A DAG that \<open>validate_dag\<close> accepts has no cycle, exactly one source, from which every node is
  reachable, and exactly one sink, which is reachable from every node; and every node has at
  least as many incoming and outgoing edges as it subscribes to and publishes topics.
\<close>

theorem validated_dag_single_entry_exit:
  assumes "bit_set_ok B bits cap" "graph_inv (dag_graph d)" "validate_dag B d D = Inr (Ok ())"
  shows "(\<forall>x. (x, x) \<notin> (edges_of (dag_graph d))\<^sup>+)
    \<and> (\<exists>s. get_source_nodes d = [s] \<and> (\<forall>x < node_count (dag_graph d). (unat s, x) \<in> (edges_of (dag_graph d))\<^sup>*))
    \<and> (\<exists>t. get_sink_nodes d = [t] \<and> (\<forall>x < node_count (dag_graph d). (x, unat t) \<in> (edges_of (dag_graph d))\<^sup>*))
    \<and> (\<forall>v \<in> set (node_indices (dag_graph d)). \<exists>i. node_weight (dag_graph d) v = Some i
         \<and> length (ni_subscribe_topic_names i) \<le> length (in_edges (dag_graph d) v)
         \<and> length (ni_publish_topic_names i) \<le> length (out_edges (dag_graph d) v))"
proof -
  let ?g = "dag_graph d"
  note ok = validate_dag_Ok[OF assms]
  have acyc: "\<forall>x. (x, x) \<notin> (edges_of ?g)\<^sup>+" using ok(2) by (simp add: cyclic_def)
  have n: "0 < node_count ?g" using ok(1) by (cases "node_count ?g") (auto simp: components_def)
  show ?thesis
    using acyc single_entry[OF ok(3) n, of "\<lambda>s x. (unat s, x) \<in> (edges_of ?g)\<^sup>*"]
      single_entry[OF ok(4) n, of "\<lambda>s x. (x, unat s) \<in> (edges_of ?g)\<^sup>*"]
      source_above[OF assms(2) acyc] sink_below[OF assms(2) acyc] edge_connect_ok[OF assms(2) ok(5)]
    by (simp add: get_source_nodes_def get_sink_nodes_def)
qed

section \<open>The publisher rule\<close>

definition edge_topics :: "dag_graph \<Rightarrow> string list" where
  "edge_topics g = map (\<lambda>e. ei_topic_name (ge_weight e)) (g_edges g)"

definition count_topic :: "(string, usize) btree_map \<Rightarrow> string \<Rightarrow> (string, usize) btree_map" where
  "count_topic acc topic = btm_insert acc topic ((case btm_get acc topic of None \<Rightarrow> 0 | Some n \<Rightarrow> n) + 1)"

lemma topic_counts_fold: "topic_counts g = foldl count_topic [] (edge_topics g)"
proof -
  have "map (\<lambda>e. ei_topic_name (er_weight e)) (edge_references g) = edge_topics g"
    by (rule nth_equalityI) (simp_all add: edge_references_def edge_topics_def Let_def)
  then have "edge_topics g = map (\<lambda>e. ei_topic_name (er_weight e)) (edge_references g)" by simp
  then show ?thesis by (simp add: topic_counts_def foldl_map Let_def count_topic_def)
qed

lemma count_fold:
  "btm_inv acc \<Longrightarrow> btm_inv (foldl count_topic acc ts) \<and> (\<forall>t. btm_get (foldl count_topic acc ts) t =
     (if t \<in> set ts then Some ((case btm_get acc t of None \<Rightarrow> 0 | Some n \<Rightarrow> n) + count_list ts t) else btm_get acc t))"
proof (induction ts arbitrary: acc)
  case (Cons x ts)
  have "btm_inv (count_topic acc x)" using Cons.prems by (simp add: count_topic_def btm_insert_inv)
  from Cons.IH[OF this] show ?case
    by (auto simp: count_topic_def btm_get_insert[OF Cons.prems] count_list_0_iff split: option.split)
qed simp

lemma distinct_count_list: "distinct xs \<longleftrightarrow> (\<forall>x. count_list xs x \<le> 1)"
proof (induction xs)
  case (Cons a xs)
  have "(\<forall>x. count_list (a # xs) x \<le> 1) \<longleftrightarrow> count_list xs a = 0 \<and> (\<forall>x. count_list xs x \<le> 1)"
  proof
    assume h: "\<forall>x. count_list (a # xs) x \<le> 1"
    have "count_list xs x \<le> 1" for x using h[rule_format, of x] by (cases "a = x") simp_all
    then show "count_list xs a = 0 \<and> (\<forall>x. count_list xs x \<le> 1)" using h[rule_format, of a] by simp
  qed auto
  then show ?case using Cons count_list_0_iff[of xs a] by auto
qed simp

lemma single_publisher_iff:
  "validate_single_publisher_per_topic d = Ok () \<longleftrightarrow> distinct (edge_topics (dag_graph d))"
proof -
  let ?ts = "edge_topics (dag_graph d)" let ?m = "foldl count_topic [] ?ts"
  have m: "btm_inv ?m" "btm_get ?m t = (if t \<in> set ?ts then Some (count_list ?ts t) else None)" for t
    using count_fold[of "[]" ?ts] by (simp_all add: btm_inv_def btm_get_def)
  have "validate_single_publisher_per_topic d = Ok () \<longleftrightarrow> (\<forall>t n. (t, n) \<in> set ?m \<longrightarrow> \<not> 1 < n)"
    by (auto simp: validate_single_publisher_per_topic_def errors_result_def topic_counts_fold filter_empty_conv)
  also have "\<dots> \<longleftrightarrow> (\<forall>t \<in> set ?ts. count_list ?ts t \<le> 1)"
    unfolding not_less using btm_get_in_set[OF m(1)] m(2) by (metis option.distinct(1) option.inject)
  also have "\<dots> \<longleftrightarrow> distinct ?ts"
    unfolding distinct_count_list using count_list_0_iff[of ?ts] by (metis le0)
  finally show ?thesis .
qed

text \<open>
  C34. The rule that only one publisher is allowed per topic counts the edges of a topic, not its
  publishers: a DAG passes exactly when no two edges carry the same topic. A topic with one
  publisher and two subscribers has two edges and is rejected.
\<close>

theorem single_publisher_rule_counts_edges:
  "validate_single_publisher_per_topic d = Ok () \<longleftrightarrow> distinct (map (\<lambda>e. ei_topic_name (ge_weight e)) (g_edges (dag_graph d)))"
  using single_publisher_iff by (simp add: edge_topics_def)

section \<open>Registration\<close>

definition edge_triple :: "edge_info gedge \<Rightarrow> node_index \<times> node_index \<times> string" where
  "edge_triple e = (ge_node0 e, ge_node1 e, ei_topic_name (ge_weight e))"

text \<open>The edges are exactly the pairs of a publisher and a subscriber of a topic.\<close>

definition topic_edges_ok :: "dag_graph \<Rightarrow> bool" where
  "topic_edges_ok g \<longleftrightarrow> (\<forall>u v t. (u, v, t) \<in> edge_triple ` set (g_edges g) \<longleftrightarrow>
     (\<exists>a b. node_weight g u = Some a \<and> node_weight g v = Some b \<and> t \<in> set (ni_publish_topic_names a) \<and> t \<in> set (ni_subscribe_topic_names b)))"

lemma add_edge_result:
  assumes "graph_inv g" "unat a < node_count g" "unat b < node_count g" "Suc (length (g_edges g)) < 2 ^ 32"
  shows "\<exists>e g'. add_edge g a b w = Inr (e, g') \<and> graph_inv g' \<and> node_count g' = node_count g \<and> (\<forall>v. node_weight g' v = node_weight g v)
    \<and> map edge_triple (g_edges g') = map edge_triple (g_edges g) @ [(a, b, ei_topic_name w)]"
proof -
  have ne: "index_end \<noteq> (word_of_nat (length (g_edges g)) :: u32)" using assms(4) index_end_iff[of "length (g_edges g)"] by auto
  have "\<not> length (g_nodes g) \<le> max (unat a) (unat b)" using assms(2,3) by (simp add: node_count_def)
  then obtain e g' where add: "add_edge g a b w = Inr (e, g')"
    using ne by (cases "unat a = unat b") (simp_all add: add_edge_def Let_def index_twice_def)
  note st = add_edge_state[OF assms(1) add]
  have "node_weight g' v = node_weight g v" for v using st by (auto simp: node_weight_def)
  then show ?thesis using add st add_edge_inv[OF assms(1) add] by (auto simp: node_count_def edge_triple_def)
qed

lemma add_edges_result:
  "graph_inv g \<Longrightarrow> \<forall>(a, b, t) \<in> set es. unat a < node_count g \<and> unat b < node_count g \<Longrightarrow> length (g_edges g) + length es < 2 ^ 32
   \<Longrightarrow> \<exists>g'. add_edges es g = Inr g' \<and> graph_inv g' \<and> node_count g' = node_count g \<and> (\<forall>v. node_weight g' v = node_weight g v)
     \<and> map edge_triple (g_edges g') = map edge_triple (g_edges g) @ es"
proof (induction es arbitrary: g)
  case (Cons x es)
  obtain a b t where x: "x = (a, b, t)" by (cases x) auto
  obtain e g1 where g1: "add_edge g a b \<lparr>ei_topic_name = t\<rparr> = Inr (e, g1)" "graph_inv g1" "node_count g1 = node_count g"
    "\<forall>v. node_weight g1 v = node_weight g v" "map edge_triple (g_edges g1) = map edge_triple (g_edges g) @ [(a, b, t)]"
    using add_edge_result[OF Cons.prems(1), of a b "\<lparr>ei_topic_name = t\<rparr>"] Cons.prems(2,3) x by auto
  have len: "length (g_edges g1) = Suc (length (g_edges g))" using g1(5) by (metis length_map length_append_singleton)
  obtain g2 where "add_edges es g1 = Inr g2" "graph_inv g2" "node_count g2 = node_count g1" "\<forall>v. node_weight g2 v = node_weight g1 v"
    "map edge_triple (g_edges g2) = map edge_triple (g_edges g1) @ es"
    using Cons.IH[OF g1(2)] Cons.prems(2,3) g1(3) len by auto
  then show ?case using g1 x by auto
qed simp

definition topic_load :: "node_info \<Rightarrow> nat" where
  "topic_load i = length (ni_publish_topic_names i) + length (ni_subscribe_topic_names i)"

lemma length_concat_le:
  "(\<And>x. x \<in> set xs \<Longrightarrow> length (f x) \<le> h x) \<Longrightarrow> length (concat (map f xs)) \<le> sum_list (map h xs)"
  by (induction xs) (auto intro!: add_mono)

lemma length_edges_to_add: "length (edges_to_add g idx subs pubs) \<le> sum_list (map (\<lambda>(_, i). topic_load i) (node_references g))"
  unfolding edges_to_add_def by (rule length_concat_le) (auto simp: topic_load_def intro!: add_mono)

lemma node_references_in:
  assumes "graph_inv g"
  shows "(v, i) \<in> set (node_references g) \<longleftrightarrow> node_weight g v = Some i"
proof
  have n: "length (g_nodes g) < 2 ^ 32" using assms by (simp add: graph_inv_def)
  assume "(v, i) \<in> set (node_references g)"
  then obtain k where "k < length (g_nodes g)" "v = word_of_nat k" "i = gn_weight (g_nodes g ! k)" by (auto simp: node_references_def)
  then show "node_weight g v = Some i" using n unat_of_index[of k] by (simp add: node_weight_def)
next
  assume "node_weight g v = Some i"
  then have "unat v < length (g_nodes g)" "i = gn_weight (g_nodes g ! unat v)" by (auto simp: node_weight_def split: if_splits)
  then show "(v, i) \<in> set (node_references g)"
    using word_of_index[of v] by (auto simp: node_references_def image_iff intro!: bexI[of _ "unat v"])
qed

lemma edges_to_add_iff:
  "(u, v, t) \<in> set (edges_to_add g idx subs pubs) \<longleftrightarrow> (\<exists>x i. (x, i) \<in> set (node_references g) \<and>
     (u = x \<and> v = idx \<and> t \<in> set (ni_publish_topic_names i) \<and> t \<in> set subs
      \<or> u = idx \<and> v = x \<and> t \<in> set (ni_subscribe_topic_names i) \<and> t \<in> set pubs))"
  unfolding edges_to_add_def by (fastforce simp: image_iff)

lemma in_edges_to_add:
  assumes "graph_inv g" "node_weight g idx = Some w"
  shows "(u, v, t) \<in> set (edges_to_add g idx (ni_subscribe_topic_names w) (ni_publish_topic_names w)) \<longleftrightarrow>
    (u = idx \<or> v = idx) \<and> (\<exists>a b. node_weight g u = Some a \<and> node_weight g v = Some b
       \<and> t \<in> set (ni_publish_topic_names a) \<and> t \<in> set (ni_subscribe_topic_names b))"
  using assms(2) unfolding edges_to_add_iff node_references_in[OF assms(1)] by auto blast+

lemma add_node_result:
  assumes "graph_inv g" "Suc (node_count g) < 2 ^ 32"
  shows "\<exists>idx g'. add_node g w = Inr (idx, g') \<and> unat idx = node_count g \<and> graph_inv g' \<and> g_edges g' = g_edges g
    \<and> node_references g' = node_references g @ [(idx, w)] \<and> (\<forall>v. node_weight g' v = (if v = idx then Some w else node_weight g v))
    \<and> node_weight g idx = None"
proof -
  let ?n = "node_count g"
  have n: "?n < 2 ^ 32" "unat (word_of_nat ?n :: u32) = ?n" using assms(2) unat_of_index[of ?n] by simp_all
  have "index_end \<noteq> (word_of_nat ?n :: u32)" using assms(2) index_end_iff[of ?n] by auto
  then obtain idx g' where add: "add_node g w = Inr (idx, g')" by (simp add: add_node_def node_count_def)
  then have g': "g' = g\<lparr>g_nodes := g_nodes g @ [\<lparr>gn_weight = w, gn_next0 = index_end, gn_next1 = index_end\<rparr>]\<rparr>"
    by (auto simp: add_node_def Let_def split: if_splits)
  note i = add_node_inv[OF assms(1) add]
  have idx: "idx = word_of_nat ?n" "unat idx = ?n" using i n by simp_all
  have "node_references g' = node_references g @ [(idx, w)]"
    by (auto simp: node_references_def g' idx(1) node_count_def nth_append intro!: map_cong)
  moreover have "node_weight g' v = (if v = idx then Some w else node_weight g v)" for v
    using idx(2) by (auto simp: node_weight_def g' node_count_def nth_append word_unat_eq_iff)
  moreover have "node_weight g idx = None" using idx(2) by (simp add: node_weight_def node_count_def)
  ultimately show ?thesis using add i idx by auto
qed

lemma set_graph_dag [simp]: "de_dag (set_graph r g D) r' = (if r' = r then (de_dag D r)\<lparr>dag_graph := g\<rparr> else de_dag D r')"
  by (simp add: set_graph_def upd_store_def)

lemma topic_edges_extend:
  assumes "topic_edges_ok g" "graph_inv g" "graph_inv g1" "g_edges g1 = g_edges g" "node_weight g idx = None"
    and "\<And>v. node_weight g1 v = (if v = idx then Some w else node_weight g v)"
    and "\<And>v. node_weight g2 v = node_weight g1 v"
    and "map edge_triple (g_edges g2) = map edge_triple (g_edges g1) @
      edges_to_add g1 idx (ni_subscribe_topic_names w) (ni_publish_topic_names w)"
  shows "topic_edges_ok g2"
proof -
  have w: "node_weight g1 idx = Some w" using assms(6) by simp
  have "(u, v, t) \<in> edge_triple ` set (g_edges g2) \<longleftrightarrow> (u, v, t) \<in> edge_triple ` set (g_edges g)
      \<or> (u, v, t) \<in> set (edges_to_add g1 idx (ni_subscribe_topic_names w) (ni_publish_topic_names w))" for u v t
    using arg_cong[OF assms(8), of set] assms(4) by (auto simp: image_iff)
  then show ?thesis
    using assms(1,5) unfolding topic_edges_ok_def assms(7) in_edges_to_add[OF assms(3) w] assms(6) by auto
qed

text \<open>
  C29. Registration. As long as the index space of the graph suffices, adding a reactor succeeds, gives it
  the next node index with its topics, leaves the other nodes as they are, and keeps the invariant
  that there is an edge for a topic from a node to a node exactly when the first publishes
  the topic and the second subscribes to it.
\<close>

theorem registration_connects_topics:
  assumes "g = dag_graph (de_dag D r)" "graph_inv g" "topic_edges_ok g" "Suc (node_count g) < 2 ^ 32"
    and "length (g_edges g) + sum_list (map (\<lambda>(_, i). topic_load i) (node_references g)) + length subs + length pubs < 2 ^ 32"
  shows "\<exists>idx D' g'. add_node_with_topic_edges r subs pubs D = Inr (idx, D') \<and> g' = dag_graph (de_dag D' r)
    \<and> unat idx = node_count g \<and> graph_inv g' \<and> topic_edges_ok g'
    \<and> (\<exists>i. node_weight g' idx = Some i \<and> ni_subscribe_topic_names i = subs \<and> ni_publish_topic_names i = pubs)
    \<and> (\<forall>v. v \<noteq> idx \<longrightarrow> node_weight g' v = node_weight g v)"
proof -
  define w where "w = \<lparr>ni_task_id = 0, ni_subscribe_topic_names = subs, ni_publish_topic_names = pubs,
            ni_relative_deadline = None, ni_num_finished = 0, ni_deadline_job = None\<rparr>"
  obtain idx g1 where g1: "add_node g w = Inr (idx, g1)" "unat idx = node_count g" "graph_inv g1" "g_edges g1 = g_edges g"
    "node_references g1 = node_references g @ [(idx, w)]" "\<forall>v. node_weight g1 v = (if v = idx then Some w else node_weight g v)"
    "node_weight g idx = None"
    using add_node_result[OF assms(2,4), of w] by blast
  let ?es = "edges_to_add g1 idx subs pubs"
  have es: "?es = edges_to_add g1 idx (ni_subscribe_topic_names w) (ni_publish_topic_names w)" by (simp add: w_def)
  have "length (g_edges g1) + length ?es < 2 ^ 32"
    using assms(5) length_edges_to_add[of g1 idx subs pubs] g1(4,5) by (simp add: w_def topic_load_def)
  moreover have "\<forall>(a, b, t) \<in> set ?es. unat a < node_count g1 \<and> unat b < node_count g1"
    using in_edges_to_add[OF g1(3), of idx w] g1(6) unfolding es by (auto simp: node_weight_def node_count_def split: if_splits)
  ultimately obtain g2 where g2: "add_edges ?es g1 = Inr g2" "graph_inv g2" "\<forall>v. node_weight g2 v = node_weight g1 v"
    "map edge_triple (g_edges g2) = map edge_triple (g_edges g1) @ ?es"
    using add_edges_result[OF g1(3), of ?es] by blast
  have ok: "topic_edges_ok g2"
    using topic_edges_extend[OF assms(3,2) g1(3,4,7), of w g2] g1(6) g2(3,4) unfolding es by blast
  obtain D1 where D1: "add_node_with_topic_edges r subs pubs D = Inr (idx, set_graph r g2 D1)"
    using g1(1) g2(1) assms(1) by (auto simp: add_node_with_topic_edges_def w_def Let_def)
  have "dag_graph (de_dag (set_graph r g2 D1) r) = g2" by simp
  then show ?thesis using D1 g1(2,6) g2(2,3) ok by (auto simp: w_def)
qed

section \<open>Rejected DAGs\<close>

text \<open>Validation changes only the maps of recorded registration errors.\<close>

definition validation_frame :: "('m, 'q, 'a) dag_env \<Rightarrow> ('m, 'q, 'a) dag_env \<Rightarrow> bool" where
  "validation_frame D D' \<longleftrightarrow> de_kernel D' = de_kernel D \<and> de_pub_sub D' = de_pub_sub D
     \<and> de_pending_tasks D' = de_pending_tasks D \<and> de_source_pending_tasks D' = de_source_pending_tasks D"

lemma check_frames:
  "validation_frame D (snd (check_for_arity_mismatches cid D))" "validation_frame D (snd (check_for_pubsub_duplicates cid D))"
  by (simp_all add: validation_frame_def check_for_arity_mismatches_def check_for_pubsub_duplicates_def)

lemma validation_frame_trans: "validation_frame D D' \<Longrightarrow> validation_frame D' D'' \<Longrightarrow> validation_frame D D''"
  by (simp add: validation_frame_def)

lemma validate_loop_frame: "validate_loop B rs errors D = Inr (errors', D') \<Longrightarrow> validation_frame D D'"
proof (induction rs arbitrary: errors D)
  case (Cons r rs)
  let ?d = "de_dag D r"
  obtain ar D1 where 1: "check_for_arity_mismatches (dag_id ?d) D = (ar, D1)" by fastforce
  obtain du D2 where 2: "check_for_pubsub_duplicates (dag_id ?d) D1 = (du, D2)" by fastforce
  have f: "validation_frame D D1" "validation_frame D D2"
    using check_frames(1)[of D "dag_id ?d"] check_frames(2)[of D1 "dag_id ?d"] validation_frame_trans[of D D1 D2] by (simp_all add: 1 2)
  have "\<exists>es E. validate_loop B rs es E = Inr (errors', D') \<and> (E = D1 \<or> E = D2)"
  proof (cases ar)
    case (Ok u)
    then obtain x where x: "validate_dag B ?d D1 = Inr x"
      using Cons.prems 1 by (cases "validate_dag B ?d D1") (simp_all add: Let_def)
    show ?thesis
    proof (cases x)
      case Ok': (Ok u)
      then show ?thesis using Cons.prems 1 2 Ok x by (auto simp: Let_def split: result.splits)
    next
      case (Err e)
      then show ?thesis using Cons.prems 1 Ok x by (auto simp: Let_def)
    qed
  qed (use Cons.prems 1 in auto)
  then show ?case using Cons.IH validation_frame_trans f by blast
qed (simp add: validation_frame_def)

lemma validate_all_frame:
  assumes "validate_all_rules B dags D = Inr (v, D')"
  shows "validation_frame D D'"
proof -
  obtain errors D1 where l: "validate_loop B dags [] D = Inr (errors, D1)"
    using assms by (cases "validate_loop B dags [] D") (auto simp: validate_all_rules_def)
  then have "D' = D1" using assms by (auto simp: validate_all_rules_def split: if_splits)
  then show ?thesis using validate_loop_frame[OF l] by simp
qed

lemma remove_dag_dag [simp]: "de_dag (remove_dag cid D) r = de_dag D r"
  by (simp add: remove_dag_def upd_store_def)

lemma remove_dags_result:
  fixes D :: "('m, 'q, 'a) dag_env"
  defines "rem \<equiv> foldl (\<lambda>(D :: ('m, 'q, 'a) dag_env) r. remove_dag (dag_id (de_dag D r)) D)"
  shows "get_dag (de_store (rem D rs)) c = (if c \<in> (\<lambda>r. dag_id (de_dag D r)) ` set rs then None else get_dag (de_store D) c)
    \<and> btm_get (de_pending_tasks (rem D rs)) c = (if c \<in> (\<lambda>r. dag_id (de_dag D r)) ` set rs then None else btm_get (de_pending_tasks D) c)
    \<and> btm_get (de_source_pending_tasks (rem D rs)) c = (if c \<in> (\<lambda>r. dag_id (de_dag D r)) ` set rs then None else btm_get (de_source_pending_tasks D) c)
    \<and> k_id_to_task (de_kernel (rem D rs)) = k_id_to_task (de_kernel D)"
proof (induction rs arbitrary: D)
  case (Cons r rs)
  have "rem D (r # rs) = rem (remove_dag (dag_id (de_dag D r)) D) rs" by (simp add: rem_def)
  then show ?case
    using Cons[of "remove_dag (dag_id (de_dag D r)) D"]
    by (simp add: remove_dag_def upd_store_def get_dag_def dags_remove_def btm_get_remove)
qed (simp add: rem_def)

text \<open>
  C30. When \<open>finish_create_dags\<close> reports errors, none of the given DAGs is left in the table and none
  of their registered reactors is left to be spawned; every other DAG and every task stays.
\<close>

theorem rejected_dags_are_removed:
  assumes "finish_create_dags P B dags D = Inr (Err errors, D')"
  shows "(\<forall>c. get_dag (de_store D') c = (if c \<in> (\<lambda>r. dag_id (de_dag D r)) ` set dags then None else get_dag (de_store D) c)
      \<and> btm_get (de_pending_tasks D') c = (if c \<in> (\<lambda>r. dag_id (de_dag D r)) ` set dags then None else btm_get (de_pending_tasks D) c)
      \<and> btm_get (de_source_pending_tasks D') c = (if c \<in> (\<lambda>r. dag_id (de_dag D r)) ` set dags then None else btm_get (de_source_pending_tasks D) c))
    \<and> k_id_to_task (de_kernel D') = k_id_to_task (de_kernel D) \<and> errors \<noteq> []"
proof -
  obtain v D1 where v: "validate_all_rules B dags D = Inr (v, D1)"
    using assms by (cases "validate_all_rules B dags D") (auto simp: finish_create_dags_def)
  have e: "v = Err errors" and D': "D' = foldl (\<lambda>D r. remove_dag (dag_id (de_dag D r)) D) D1 dags"
    using assms v by (auto simp: finish_create_dags_def and_then_Inr_iff split: result.splits)
  have f: "de_kernel D1 = de_kernel D" "de_pending_tasks D1 = de_pending_tasks D" "de_source_pending_tasks D1 = de_source_pending_tasks D"
    using validate_all_frame[OF v] by (simp_all add: validation_frame_def)
  have "errors \<noteq> []"
    using v e by (auto simp: validate_all_rules_def and_then_Inr_iff validate_dag_topic_conflicts_def errors_result_def split: if_splits)
  then show ?thesis using remove_dags_result[of D1 dags] unfolding D' f by blast
qed

lemma spawn_pending_source:
  "spawn_pending P task D = Inr (tid, D') \<Longrightarrow> de_source_pending_tasks D' = de_source_pending_tasks D"
  by (auto simp: spawn_pending_def and_then_Inr_iff Let_def split: reactor.splits)

lemma spawn_loop_source: "spawn_loop P r tasks D = Inr D' \<Longrightarrow> de_source_pending_tasks D' = de_source_pending_tasks D"
proof (induction tasks arbitrary: D)
  case (Cons task tasks)
  obtain D1 where D1: "spawn_and_record P r task D = Inr D1" "spawn_loop P r tasks D1 = Inr D'"
    using Cons.prems by (auto simp: and_then_Inr_iff)
  then have "de_source_pending_tasks D1 = de_source_pending_tasks D"
    by (auto simp: spawn_and_record_def and_then_Inr_iff set_graph_def upd_store_def dest!: spawn_pending_source split: option.splits)
  then show ?case using Cons.IH[OF D1(2)] by simp
qed simp

lemma spawn_dag_needs_source:
  assumes "btm_get (de_source_pending_tasks D) (dag_id (de_dag D r)) = None"
  shows "\<exists>e. spawn_dag P r D = Inl e"
proof (rule ccontr)
  assume "\<nexists>e. spawn_dag P r D = Inl e"
  then obtain D' where "spawn_dag P r D = Inr D'" by (cases "spawn_dag P r D") auto
  then obtain tasks D1 task where "spawn_loop P r tasks (D\<lparr>de_pending_tasks := btm_remove (de_pending_tasks D) (dag_id (de_dag D r))\<rparr>) = Inr D1"
    "btm_get (de_source_pending_tasks D1) (dag_id (de_dag D r)) = Some task"
    by (auto simp: spawn_dag_def Let_def and_then_Inr_iff)
  then show False using spawn_loop_source[of P r tasks _ D1] assms by simp
qed

text \<open>
  A DAG without a periodic reactor passes the validation and then panics: \<open>finish_create_dags\<close>
  spawns its other reactors and unwraps the source task that was never registered.
\<close>

theorem dag_without_periodic_reactor_panics:
  assumes "validate_all_rules B [r] D = Inr (Ok (), D1)" "btm_get (de_source_pending_tasks D) (dag_id (de_dag D r)) = None"
  shows "\<exists>e. finish_create_dags P B [r] D = Inl e"
proof -
  have "de_kernel D1 = de_kernel D" "de_source_pending_tasks D1 = de_source_pending_tasks D"
    using validate_all_frame[OF assms(1)] by (simp_all add: validation_frame_def)
  then show ?thesis using spawn_dag_needs_source[of D1 r P] assms by (auto simp: finish_create_dags_def)
qed

section \<open>A pipeline of two reactors\<close>

definition pipe_info :: "string list \<Rightarrow> string list \<Rightarrow> node_info" where
  "pipe_info subs pubs = \<lparr>ni_task_id = 0, ni_subscribe_topic_names = subs, ni_publish_topic_names = pubs,
     ni_relative_deadline = None, ni_num_finished = 0, ni_deadline_job = None\<rparr>"

definition pipe_dag :: dag where
  "pipe_dag = \<lparr>dag_id = 1, dag_graph = \<lparr>
     g_nodes = [\<lparr>gn_weight = pipe_info [] [''t''], gn_next0 = 0, gn_next1 = index_end\<rparr>,
                \<lparr>gn_weight = pipe_info [''t''] [], gn_next0 = index_end, gn_next1 = 0\<rparr>],
     g_edges = [\<lparr>ge_weight = \<lparr>ei_topic_name = ''t''\<rparr>, ge_next0 = index_end, ge_next1 = index_end, ge_node0 = 0, ge_node1 = 1\<rparr>]\<rparr>,
     dag_absolute_deadlines = []\<rparr>"

definition pipe_env :: "(nat fset, (edf_key \<times> nat fset \<times> nat option) list \<times> nat, nat) dag_env" where
  "pipe_env = \<lparr>
     de_kernel = (boot_kernel 2 False)\<lparr>k_dags := \<lparr>ds_dags = \<lparr>dags_candidate_id = 1, dags_id_to_dag = [(1, 0)]\<rparr>, ds_heap = (\<lambda>_. pipe_dag), ds_next_ref = 1\<rparr>\<rparr>,
     de_pub_sub = pub_sub_boot,
     de_pending_tasks = [(1, [\<lparr>pt_node_idx = 0, pt_reactor = Reactor ''r'' [] [] [''t''] (PrioritizedFIFO 0), pt_dag_info = \<lparr>di_dag_id = 1, di_node_id = 0\<rparr>\<rparr>,
        \<lparr>pt_node_idx = 1, pt_reactor = Sink_Reactor ''s'' [0] [''t''] (PrioritizedFIFO 0), pt_dag_info = \<lparr>di_dag_id = 1, di_node_id = 1\<rparr>\<rparr>])],
     de_source_pending_tasks = [], de_mismatch_subscribe = [], de_mismatch_publish = [],
     de_duplicate_subscribe = [], de_duplicate_publish = []\<rparr>"

lemma pipe_graph_inv: "graph_inv (dag_graph pipe_dag)"
  by (simp add: graph_inv_def pipe_dag_def All_less_Suc)

lemma pipe_edges: "edges_of (dag_graph pipe_dag) = {(0, 1)}" "node_count (dag_graph pipe_dag) = 2"
  by (simp_all add: edges_of_def node_count_def pipe_dag_def)

lemma pipe_ends: "get_source_nodes pipe_dag = [0]" "get_sink_nodes pipe_dag = [1]" "dag_id pipe_dag = 1"
  by (simp_all add: get_source_nodes_def get_sink_nodes_def externals_def pipe_dag_def)

lemma pipe_valid:
  assumes "get_dag (de_store D) 1 \<noteq> None" "btm_get (de_pending_tasks D) 1 \<noteq> None"
  shows "validate_dag list_bits pipe_dag D = Inr (Ok ())"
proof -
  have "(i, j) \<in> conn {(0, 1)}" if "i < 2" "j < 2" for i j :: nat
    using that by (auto simp: conn_def less_2_cases_iff)
  then have "{j. j < 2 \<and> (i, j) \<in> conn {(0, 1)}} = {..<2}" if "i < 2" for i :: nat using that by auto
  then have "(\<lambda>i. {j. j < 2 \<and> (i, j) \<in> conn {(0 :: nat, 1)}}) ` {..<2} = (\<lambda>i. {..<2}) ` {..<2 :: nat}" by (intro image_cong) simp_all
  then have "card (components (dag_graph pipe_dag)) = 1"
    by (simp add: components_def pipe_edges image_constant_conv lessThan_empty_iff)
  moreover have "x < y" if "(x, y) \<in> {(0 :: nat, 1)}\<^sup>+" for x y using that by (induction rule: trancl_induct) auto
  then have "\<not> cyclic (dag_graph pipe_dag)" unfolding cyclic_def pipe_edges by blast
  moreover have "edge_connect_loop pipe_dag (node_indices (dag_graph pipe_dag)) = Inr (Ok ())"
    using neighbors_exact[OF pipe_graph_inv]
    by (simp add: node_indices_def pipe_edges(2) upt_rec[of _ "2 :: nat"] out_edges_def in_edges_def)
       (simp add: pipe_dag_def node_weight_def pipe_info_def)
  ultimately show ?thesis
    using assms connected_components_result[OF pipe_graph_inv] is_cyclic_directed_result[OF list_bits_ok pipe_graph_inv]
    by (simp add: validate_dag_def validate_edge_connect_def pipe_ends)
qed

lemma pipe_env_simps [simp]:
  "de_dag pipe_env r = pipe_dag" "get_dag (de_store pipe_env) 1 = Some 0" "btm_get (de_pending_tasks pipe_env) 1 \<noteq> None"
  by (simp_all add: pipe_env_def get_dag_def btm_get_def)

theorem validated_dag_single_entry_exit_witness:
  "validate_dag list_bits pipe_dag pipe_env = Inr (Ok ()) \<and> (\<exists>s. get_source_nodes pipe_dag = [s] \<and> (unat s, 1) \<in> (edges_of (dag_graph pipe_dag))\<^sup>*)"
proof -
  have v: "validate_dag list_bits pipe_dag pipe_env = Inr (Ok ())" using pipe_valid[of pipe_env] by simp
  show ?thesis using v validated_dag_single_entry_exit[OF list_bits_ok pipe_graph_inv v] pipe_edges(2) by auto
qed

lemma pipe_weights:
  "node_weight (dag_graph pipe_dag) v = (if v = 0 then Some (pipe_info [] [''t'']) else if v = 1 then Some (pipe_info [''t''] []) else None)"
  using unat_less_2_iff[of v] by (auto simp: node_weight_def pipe_dag_def)

lemma pipe_topic_edges: "topic_edges_ok (dag_graph pipe_dag)"
proof -
  have "edge_triple ` set (g_edges (dag_graph pipe_dag)) = {(0, 1, ''t'')}" by (simp add: pipe_dag_def edge_triple_def)
  then show ?thesis unfolding topic_edges_ok_def pipe_weights by (auto simp: pipe_info_def split: if_splits)
qed

theorem registration_connects_topics_witness:
  "\<exists>idx D' g'. add_node_with_topic_edges 0 [''t''] [''u''] pipe_env = Inr (idx, D') \<and> g' = dag_graph (de_dag D' 0)
    \<and> unat idx = 2 \<and> topic_edges_ok g'"
proof -
  have "length (g_edges (dag_graph pipe_dag)) + sum_list (map (\<lambda>(_, i). topic_load i) (node_references (dag_graph pipe_dag)))
      + length [''t''] + length [''u''] < 2 ^ 32"
    by (simp add: pipe_dag_def node_references_def topic_load_def pipe_info_def)
  then show ?thesis
    using registration_connects_topics[of "dag_graph pipe_dag" pipe_env 0 "[''t'']" "[''u'']"] pipe_graph_inv pipe_topic_edges pipe_edges(2)
    by auto
qed

theorem rejected_dags_are_removed_witness:
  "\<exists>D'. finish_create_dags list_ops list_bits [0] (pipe_env\<lparr>de_pending_tasks := []\<rparr>) = Inr (Err [MissingPendingTasks 1], D')
    \<and> get_dag (de_store D') 1 = None"
proof -
  let ?D = "pipe_env\<lparr>de_pending_tasks := []\<rparr>"
  obtain ar D1 where 1: "check_for_arity_mismatches 1 ?D = (ar, D1)" by fastforce
  have D1: "ar = Ok ()" "de_store D1 = de_store pipe_env" "de_pending_tasks D1 = []"
    using 1 by (auto simp: check_for_arity_mismatches_def pipe_env_def btm_get_vec_def btm_get_def errors_result_def)
  then have "validate_dag list_bits pipe_dag D1 = Inr (Err (MissingPendingTasks 1))" by (simp add: validate_dag_def pipe_ends(3) btm_get_def)
  then have "validate_loop list_bits [0] [] ?D = Inr ([MissingPendingTasks 1], D1)" using 1 D1(1) by (simp add: pipe_ends(3))
  then obtain D' where D': "finish_create_dags list_ops list_bits [0] ?D = Inr (Err [MissingPendingTasks 1], D')"
    by (simp add: finish_create_dags_def validate_all_rules_def)
  have "1 \<in> (\<lambda>r. dag_id (de_dag ?D r)) ` set [0]" by (simp add: pipe_ends(3))
  then show ?thesis using D' rejected_dags_are_removed[OF D'] by auto
qed

lemma pipe_rules: "\<exists>D1. validate_all_rules list_bits [0] pipe_env = Inr (Ok (), D1)"
proof -
  obtain ar D1 where 1: "check_for_arity_mismatches 1 pipe_env = (ar, D1)" by fastforce
  obtain du D2 where 2: "check_for_pubsub_duplicates 1 D1 = (du, D2)" by fastforce
  have ok: "ar = Ok ()" "du = Ok ()" and D1: "de_store D1 = de_store pipe_env" "de_pending_tasks D1 = de_pending_tasks pipe_env"
    and D2: "de_store D2 = de_store pipe_env"
    using 1 2 by (auto simp: check_for_arity_mismatches_def check_for_pubsub_duplicates_def pipe_env_def btm_get_vec_def btm_get_def errors_result_def)
  have "validate_single_publisher_per_topic pipe_dag = Ok ()" unfolding single_publisher_iff by (simp add: edge_topics_def pipe_dag_def)
  moreover have "validate_dag_topic_conflicts (de_store D2) = Ok ()"
    unfolding D2 by (simp add: validate_dag_topic_conflicts_def topic_to_dags_def edge_references_def errors_result_def)
      (simp add: pipe_env_def pipe_dag_def btm_push_def btm_get_def)
  moreover have "validate_dag list_bits pipe_dag D1 = Inr (Ok ())" using pipe_valid[of D1] D1 by simp
  ultimately show ?thesis using 1 2 ok by (simp add: validate_all_rules_def pipe_ends(3))
qed

theorem dag_without_periodic_reactor_panics_witness:
  "\<exists>D1 e. validate_all_rules list_bits [0] pipe_env = Inr (Ok (), D1) \<and> finish_create_dags list_ops list_bits [0] pipe_env = Inl e"
proof -
  have none: "btm_get (de_source_pending_tasks pipe_env) (dag_id (de_dag pipe_env 0)) = None" by (simp add: pipe_env_def btm_get_def)
  obtain D1 where "validate_all_rules list_bits [0] pipe_env = Inr (Ok (), D1)" using pipe_rules by blast
  then show ?thesis using dag_without_periodic_reactor_panics[OF _ none, of list_bits D1 list_ops] by blast
qed

end
