(* ===== verification/Channels.thy ===== *)
theory Channels
  imports Pub_Sub "HOL-Library.Sublist"
begin

text \<open>
  The channels of \<open>awkernel_async_lib/src/channel\<close>: bounded ones with flow control and a lifespan of the messages
  (\<open>bounded.rs\<close>) and unbounded ones (\<open>unbounded.rs\<close>). A waker is the number of the task it wakes. Every method
  holds the lock of the channel for its whole body and is one function from the channel to its result, the
  wakers it called and the channel after it. The two readings of the clock in a method are arguments of their own.
\<close>

section \<open>Futures\<close>

datatype 'a poll = Pending | Ready 'a

definition wake_opt :: "nat option \<Rightarrow> nat list" where
  "wake_opt w = (case w of None \<Rightarrow> [] | Some t \<Rightarrow> [t])"

section \<open>Bounded channels\<close>

datatype send_err = Send_ChannelClosed | Send_Full
datatype recv_err = Recv_ChannelClosed | Recv_NoData

record bc_attribute =
  ba_queue_size :: usize
  ba_flow_control :: bool
  ba_lifespan :: lifespan

record 'a channel_data =
  cd_time_stamp :: u64
  cd_data :: 'a

record 'a bounded_chan =
  bc_queue :: "'a channel_data ringq"
  bc_waker_receiver :: "nat option"
  bc_waker_sender :: "nat option"
  bc_terminated :: bool
  bc_attribute :: bc_attribute

definition bc_attribute_default :: bc_attribute where
  "bc_attribute_default = \<lparr>ba_queue_size = 10, ba_flow_control = True, ba_lifespan = Permanent\<rparr>"

definition bc_new :: "bc_attribute \<Rightarrow> 'a bounded_chan" where
  "bc_new attr = \<lparr>bc_queue = rq_new (ba_queue_size attr), bc_waker_receiver = None, bc_waker_sender = None,
     bc_terminated = False, bc_attribute = attr\<rparr>"

text \<open>The test of the loop: a message from the future stays, and \<open>dur.as_micros()\<close> is cut to 64 bits.\<close>

definition bc_expired :: "u64 \<Rightarrow> duration \<Rightarrow> 'a channel_data \<Rightarrow> bool" where
  "bc_expired now dur d \<longleftrightarrow> \<not> now < cd_time_stamp d \<and> now - cd_time_stamp d \<ge> word_of_nat (as_micros dur)"

definition bc_garbage_collect :: "u64 \<Rightarrow> 'a bounded_chan \<Rightarrow> 'a bounded_chan rust" where
  "bc_garbage_collect now C =
     (case ba_lifespan (bc_attribute C) of
        Permanent \<Rightarrow> Inr C
      | Span dur \<Rightarrow> and_then (and_then (returns (gc_loop (bc_expired now dur) (bc_queue C))) (\<lambda>r. r)) (\<lambda>q. Inr (C\<lparr>bc_queue := q\<rparr>)))"

text \<open>What both ways of sending do first: \<open>False\<close> if the queue stays full under flow control.\<close>

definition bc_make_room :: "u64 \<Rightarrow> 'a bounded_chan \<Rightarrow> (bool \<times> 'a bounded_chan) rust" where
  "bc_make_room now C =
     and_then (bc_garbage_collect now C) (\<lambda>C.
     if rq_is_full (bc_queue C)
     then if ba_flow_control (bc_attribute C) then Inr (False, C)
          else and_then (rq_pop (bc_queue C)) (\<lambda>(_, q). Inr (True, C\<lparr>bc_queue := q\<rparr>))
     else Inr (True, C))"

text \<open>\<open>assert!(matches!(chan.queue.push(data), Ok(())))\<close>.\<close>

definition bc_push :: "'a channel_data \<Rightarrow> 'a bounded_chan \<Rightarrow> 'a bounded_chan rust" where
  "bc_push d C =
     and_then (rq_push (bc_queue C) d) (\<lambda>(r, q).
     case r of Ok _ \<Rightarrow> Inr (C\<lparr>bc_queue := q\<rparr>) | Err _ \<Rightarrow> Inl Assertion_Failed)"

definition bc_try_send ::
    "u64 \<Rightarrow> u64 \<Rightarrow> 'a \<Rightarrow> 'a bounded_chan \<Rightarrow> ((unit, send_err) result \<times> nat list \<times> 'a bounded_chan) rust" where
  "bc_try_send stamp now x C =
     (if bc_terminated C then Inr (Err Send_ChannelClosed, [], C)
      else
        and_then (bc_make_room now C) (\<lambda>(room, C).
        if \<not> room then Inr (Err Send_Full, [], C)
        else
          and_then (bc_push \<lparr>cd_time_stamp = stamp, cd_data = x\<rparr> C) (\<lambda>C.
          Inr (Ok (), wake_opt (bc_waker_receiver C), C\<lparr>bc_waker_receiver := None\<rparr>))))"

text \<open>
  \<open>AsyncSender::poll\<close>; the message is an option that \<open>take\<close> empties. \<open>Ready (Ok need_yield)\<close> tells the method
  \<open>send\<close> whether to yield.
\<close>

definition bc_poll_send ::
    "u64 \<Rightarrow> nat \<Rightarrow> 'a channel_data option \<Rightarrow> 'a bounded_chan
      \<Rightarrow> ((bool, send_err) result poll \<times> 'a channel_data option \<times> nat list \<times> 'a bounded_chan) rust" where
  "bc_poll_send now waker data C =
     (if bc_terminated C then Inr (Ready (Err Send_ChannelClosed), data, [], C)
      else
        and_then (bc_make_room now C) (\<lambda>(room, C).
        if \<not> room then Inr (Pending, data, [], C\<lparr>bc_waker_sender := Some waker\<rparr>)
        else
          let woken = wake_opt (bc_waker_receiver C); C = C\<lparr>bc_waker_receiver := None\<rparr> in
          and_then (unwrap data) (\<lambda>d.
          and_then (bc_push d C) (\<lambda>C.
          Inr (Ready (Ok (rq_queue_size (bc_queue C) div 4 < rq_len (bc_queue C))), None, woken, C)))))"

definition bc_drop_sender :: "'a bounded_chan \<Rightarrow> nat list \<times> 'a bounded_chan" where
  "bc_drop_sender C =
     (wake_opt (bc_waker_receiver C), C\<lparr>bc_terminated := True, bc_waker_sender := None, bc_waker_receiver := None\<rparr>)"

definition bc_try_recv :: "u64 \<Rightarrow> 'a bounded_chan \<Rightarrow> (('a, recv_err) result \<times> 'a bounded_chan) rust" where
  "bc_try_recv now C =
     and_then (bc_garbage_collect now C) (\<lambda>C.
     and_then (rq_pop (bc_queue C)) (\<lambda>(x, q).
     let C = C\<lparr>bc_queue := q\<rparr> in
     case x of
       Some d \<Rightarrow> Inr (Ok (cd_data d), C)
     | None \<Rightarrow> if bc_terminated C then Inr (Err Recv_ChannelClosed, C) else Inr (Err Recv_NoData, C)))"

definition bc_poll_recv ::
    "u64 \<Rightarrow> nat \<Rightarrow> 'a bounded_chan \<Rightarrow> (('a, recv_err) result poll \<times> nat list \<times> 'a bounded_chan) rust" where
  "bc_poll_recv now waker C =
     and_then (bc_garbage_collect now C) (\<lambda>C.
     and_then (rq_pop (bc_queue C)) (\<lambda>(x, q).
     let C = C\<lparr>bc_queue := q\<rparr> in
     case x of
       Some d \<Rightarrow> Inr (Ready (Ok (cd_data d)), wake_opt (bc_waker_sender C), C\<lparr>bc_waker_sender := None\<rparr>)
     | None \<Rightarrow>
         if bc_terminated C then Inr (Ready (Err Recv_ChannelClosed), [], C)
         else Inr (Pending, [], C\<lparr>bc_waker_receiver := Some waker\<rparr>)))"

definition bc_drop_receiver :: "'a bounded_chan \<Rightarrow> nat list \<times> 'a bounded_chan" where
  "bc_drop_receiver C =
     (wake_opt (bc_waker_sender C), C\<lparr>bc_terminated := True, bc_waker_receiver := None, bc_waker_sender := None\<rparr>)"

definition bc_is_full :: "'a bounded_chan \<Rightarrow> bool" where
  "bc_is_full C \<longleftrightarrow> rq_is_full (bc_queue C)"

definition bc_is_terminated :: "'a bounded_chan \<Rightarrow> bool" where
  "bc_is_terminated C \<longleftrightarrow> bc_terminated C"

section \<open>Unbounded channels\<close>

record 'a unbounded_chan =
  uc_queue :: "'a list"
  uc_waker_receiver :: "nat option"
  uc_terminated :: bool

definition uc_new :: "'a unbounded_chan" where
  "uc_new = \<lparr>uc_queue = [], uc_waker_receiver = None, uc_terminated = False\<rparr>"

definition uc_send_no_yield :: "'a \<Rightarrow> 'a unbounded_chan \<Rightarrow> (unit, string) result \<times> nat list \<times> 'a unbounded_chan" where
  "uc_send_no_yield x C =
     (if uc_terminated C then (Err ''Connection closed'', [], C)
      else (Ok (), wake_opt (uc_waker_receiver C), C\<lparr>uc_queue := uc_queue C @ [x], uc_waker_receiver := None\<rparr>))"

definition uc_drop_sender :: "'a unbounded_chan \<Rightarrow> nat list \<times> 'a unbounded_chan" where
  "uc_drop_sender C = (wake_opt (uc_waker_receiver C), C\<lparr>uc_terminated := True, uc_waker_receiver := None\<rparr>)"

definition uc_is_terminated :: "'a unbounded_chan \<Rightarrow> bool" where
  "uc_is_terminated C \<longleftrightarrow> uc_terminated C"

definition uc_try_recv :: "'a unbounded_chan \<Rightarrow> ('a, recv_err) result \<times> 'a unbounded_chan" where
  "uc_try_recv C =
     (case uc_queue C of
        e # es \<Rightarrow> (Ok e, C\<lparr>uc_queue := es\<rparr>)
      | [] \<Rightarrow> if uc_terminated C then (Err Recv_ChannelClosed, C) else (Err Recv_NoData, C))"

definition uc_poll_recv :: "nat \<Rightarrow> 'a unbounded_chan \<Rightarrow> ('a, recv_err) result poll \<times> 'a unbounded_chan" where
  "uc_poll_recv waker C =
     (case uc_queue C of
        e # es \<Rightarrow> (Ready (Ok e), C\<lparr>uc_queue := es\<rparr>)
      | [] \<Rightarrow> if uc_terminated C then (Ready (Err Recv_ChannelClosed), C) else (Pending, C\<lparr>uc_waker_receiver := Some waker\<rparr>))"

definition uc_drop_receiver :: "'a unbounded_chan \<Rightarrow> 'a unbounded_chan" where
  "uc_drop_receiver C = C\<lparr>uc_terminated := True\<rparr>"

section \<open>What a channel promises\<close>

text \<open>An observable event of a channel: a message that a send accepted, or that a receive returned.\<close>

datatype 'a chan_event = Sent 'a | Received 'a | Internal

inductive run :: "('s \<Rightarrow> 'e \<Rightarrow> 's \<Rightarrow> bool) \<Rightarrow> 's \<Rightarrow> 'e list \<Rightarrow> 's \<Rightarrow> bool" for step where
  nil: "run step s [] s"
| snoc: "run step s es s' \<Longrightarrow> step s' e s'' \<Longrightarrow> run step s (es @ [e]) s''"

fun sent :: "'a chan_event list \<Rightarrow> 'a list" where
  "sent [] = []"
| "sent (Sent x # es) = x # sent es"
| "sent (_ # es) = sent es"

fun received :: "'a chan_event list \<Rightarrow> 'a list" where
  "received [] = []"
| "received (Received x # es) = x # received es"
| "received (_ # es) = received es"

lemma sent_append [simp]: "sent (es @ fs) = sent es @ sent fs"
  by (induction es rule: sent.induct) simp_all

lemma received_append [simp]: "received (es @ fs) = received es @ received fs"
  by (induction es rule: received.induct) simp_all

text \<open>
  A channel that may lose messages at its front, but never reorders, duplicates or invents one; and one that loses
  none.
\<close>

locale lossy_channel =
  fixes step :: "'s \<Rightarrow> 'a chan_event \<Rightarrow> 's \<Rightarrow> bool"
    and contents :: "'s \<Rightarrow> 'a list"
    and inv :: "'s \<Rightarrow> bool"
  assumes step_inv: "step s e s' \<Longrightarrow> inv s \<Longrightarrow> inv s'"
    and step_suffix: "step s e s' \<Longrightarrow> inv s \<Longrightarrow> \<exists>k. received [e] @ contents s' = drop k (contents s) @ sent [e]"
begin

lemma run_subseq:
  assumes "run step s es s'" "inv s"
  shows "inv s' \<and> subseq (received es @ contents s') (contents s @ sent es)"
  using assms
proof (induction rule: run.induct)
  case (snoc s es s' e s'')
  then have ih: "inv s'" "subseq (received es @ contents s') (contents s @ sent es)" by simp_all
  obtain k where k: "received [e] @ contents s'' = drop k (contents s') @ sent [e]"
    using step_suffix[OF snoc(2) ih(1)] by blast
  have "subseq (received es @ drop k (contents s')) (received es @ contents s')"
    by (intro list_emb_append_mono) (simp_all add: suffix_imp_subseq suffix_drop)
  then have "subseq (received es @ drop k (contents s')) (contents s @ sent es)" using ih(2) subseq_order.order_trans by blast
  then have "subseq ((received es @ drop k (contents s')) @ sent [e]) ((contents s @ sent es) @ sent [e])"
    by (rule list_emb_append_mono) simp
  then show ?case using k step_inv[OF snoc(2) ih(1)] by simp
qed simp

end

locale fifo_channel = lossy_channel +
  assumes step_exact: "step s e s' \<Longrightarrow> inv s \<Longrightarrow> received [e] @ contents s' = contents s @ sent [e]"
begin

lemma run_fifo:
  assumes "run step s es s'" "inv s"
  shows "received es @ contents s' = contents s @ sent es"
  using assms
proof (induction rule: run.induct)
  case (snoc s es s' e s'')
  then have "inv s'" using run_subseq by blast
  then show ?case using snoc step_exact[OF snoc(2)] by (metis append.assoc sent_append received_append)
qed simp

end

section \<open>Steps of a bounded channel\<close>

definition send_event :: "'a \<Rightarrow> ('b, 'e) result \<Rightarrow> 'a chan_event" where
  "send_event x r = (case r of Ok _ \<Rightarrow> Sent x | Err _ \<Rightarrow> Internal)"

definition recv_event :: "('a, 'e) result \<Rightarrow> 'a chan_event" where
  "recv_event r = (case r of Ok x \<Rightarrow> Received x | Err _ \<Rightarrow> Internal)"

text \<open>One call of any method by any task at any time, with its event and the wakers it calls.\<close>

inductive bc_step :: "'a bounded_chan \<Rightarrow> 'a chan_event \<Rightarrow> nat list \<Rightarrow> 'a bounded_chan \<Rightarrow> bool" where
  try_send: "bc_try_send stamp now x C = Inr (r, ws, C') \<Longrightarrow> bc_step C (send_event x r) ws C'"
| poll_send: "bc_poll_send now waker (Some d) C = Inr (Ready r, d', ws, C') \<Longrightarrow> bc_step C (send_event (cd_data d) r) ws C'"
| wait_send: "bc_poll_send now waker (Some d) C = Inr (Pending, d', ws, C') \<Longrightarrow> bc_step C Internal ws C'"
| try_recv: "bc_try_recv now C = Inr (r, C') \<Longrightarrow> bc_step C (recv_event r) [] C'"
| poll_recv: "bc_poll_recv now waker C = Inr (Ready r, ws, C') \<Longrightarrow> bc_step C (recv_event r) ws C'"
| wait_recv: "bc_poll_recv now waker C = Inr (Pending, ws, C') \<Longrightarrow> bc_step C Internal ws C'"
| drop_sender: "bc_drop_sender C = (ws, C') \<Longrightarrow> bc_step C Internal ws C'"
| drop_receiver: "bc_drop_receiver C = (ws, C') \<Longrightarrow> bc_step C Internal ws C'"

definition bc_contents :: "'a bounded_chan \<Rightarrow> 'a list" where
  "bc_contents C = map cd_data (rq_list (bc_queue C))"

text \<open>A receiver sleeps only while the channel is empty and open.\<close>

definition bc_ok :: "'a bounded_chan \<Rightarrow> bool" where
  "bc_ok C \<longleftrightarrow> queue_ok (bc_queue C) \<and> (bc_waker_receiver C \<noteq> None \<longrightarrow> bc_contents C = [] \<and> \<not> bc_terminated C)"

definition bc_lossless :: "'a bounded_chan \<Rightarrow> bool" where
  "bc_lossless C \<longleftrightarrow> ba_flow_control (bc_attribute C) \<and> ba_lifespan (bc_attribute C) = Permanent"

lemma bc_new_ok: "bc_ok (bc_new attr)"
  by (simp add: bc_ok_def bc_new_def queue_ok_new)

text \<open>How a method leaves the channel: some messages dropped at the front, the rest as given.\<close>

definition bc_frame :: "'a bounded_chan \<Rightarrow> 'a bounded_chan \<Rightarrow> bool" where
  "bc_frame C C' \<longleftrightarrow> queue_ok (bc_queue C') \<and> bc_attribute C' = bc_attribute C
     \<and> rq_queue_size (bc_queue C') = rq_queue_size (bc_queue C) \<and> bc_waker_receiver C' = bc_waker_receiver C
     \<and> bc_waker_sender C' = bc_waker_sender C \<and> bc_terminated C' = bc_terminated C"

lemma bc_garbage_collect_cases:
  assumes "bc_ok C" "bc_garbage_collect now C = Inr C'"
  shows "bc_frame C C' \<and> (\<exists>k. bc_contents C' = drop k (bc_contents C)) \<and> (bc_lossless C \<longrightarrow> C' = C)"
proof (cases "ba_lifespan (bc_attribute C)")
  case Permanent
  then have "C' = C" using assms(2) by (simp add: bc_garbage_collect_def)
  then show ?thesis using assms(1) by (auto simp: bc_frame_def bc_ok_def intro: exI[of _ 0])
next
  case (Span dur)
  let ?gc = "and_then (returns (gc_loop (bc_expired now dur) (bc_queue C))) (\<lambda>r. r)"
  obtain q where q: "?gc = Inr q" "C' = C\<lparr>bc_queue := q\<rparr>"
    using assms(2) Span by (cases ?gc) (simp_all add: bc_garbage_collect_def)
  have ok: "queue_ok (bc_queue C)" using assms(1) by (simp add: bc_ok_def)
  obtain k where "dropWhile (bc_expired now dur) (rq_list (bc_queue C)) = drop k (rq_list (bc_queue C))"
    using dropWhile_eq_drop by blast
  then have "bc_contents C' = drop k (bc_contents C)" using gc_loop_cases[OF ok q(1)] q(2) by (simp add: bc_contents_def drop_map)
  then show ?thesis using gc_loop_cases[OF ok q(1)] q(2) Span by (auto simp: bc_frame_def bc_lossless_def)
qed

lemma bc_frame_ok: "bc_ok C \<Longrightarrow> bc_frame C C' \<Longrightarrow> bc_contents C' = drop k (bc_contents C) \<Longrightarrow> bc_ok C'"
  by (auto simp: bc_ok_def bc_frame_def)

lemma bc_pop_cases:
  assumes "bc_ok C" "rq_pop (bc_queue C) = Inr (x, q)"
  shows "bc_frame C (C\<lparr>bc_queue := q\<rparr>) \<and> (case x of None \<Rightarrow> bc_contents C = [] \<and> q = bc_queue C
      | Some d \<Rightarrow> bc_contents C = cd_data d # bc_contents (C\<lparr>bc_queue := q\<rparr>))"
proof -
  have ok: "queue_ok (bc_queue C)" using assms(1) by (simp add: bc_ok_def)
  show ?thesis by (rule pop_cases[OF ok]) (use assms(2) ok in \<open>auto simp: bc_frame_def bc_contents_def\<close>)
qed

lemma bc_make_room_cases:
  assumes "bc_ok C" "bc_make_room now C = Inr (room, C')"
  shows "bc_frame C C' \<and> (\<exists>k. bc_contents C' = drop k (bc_contents C)) \<and> (bc_lossless C \<longrightarrow> C' = C)"
proof -
  obtain D where D: "bc_garbage_collect now C = Inr D" using assms(2) by (cases "bc_garbage_collect now C") (simp_all add: bc_make_room_def)
  note gc = bc_garbage_collect_cases[OF assms(1) D]
  then obtain k where k: "bc_contents D = drop k (bc_contents C)" by blast
  have ok: "bc_ok D" using bc_frame_ok[OF assms(1) _ k] gc by blast
  show ?thesis
  proof (cases "rq_is_full (bc_queue D) \<and> \<not> ba_flow_control (bc_attribute D)")
    case True
    then have lossy: "\<not> bc_lossless C" using gc by (simp add: bc_lossless_def bc_frame_def)
    obtain x q where pop: "rq_pop (bc_queue D) = Inr (x, q)" using pop_cases[of "bc_queue D"] ok by (metis bc_ok_def)
    have C': "C' = D\<lparr>bc_queue := q\<rparr>" using assms(2) D True pop by (simp add: bc_make_room_def)
    note p = bc_pop_cases[OF ok pop]
    have "\<exists>k. bc_contents C' = drop k (bc_contents D)"
      using p C' by (cases x) (auto simp: bc_contents_def intro: exI[of _ 0] exI[of _ 1])
    then have "\<exists>k. bc_contents C' = drop k (bc_contents C)" using k by (metis drop_drop)
    moreover have "bc_frame C C'" using gc p C' by (simp add: bc_frame_def)
    ultimately show ?thesis using lossy by blast
  next
    case False
    then have "C' = D" using assms(2) D by (simp add: bc_make_room_def split: if_splits)
    then show ?thesis using gc by blast
  qed
qed

lemma bc_push_cases:
  assumes "queue_ok (bc_queue C)" "bc_push d C = Inr C'"
  shows "bc_frame C C'" "bc_contents C' = bc_contents C @ [cd_data d]"
  by (rule push_cases[OF assms(1), of d]; use assms(2) in \<open>auto simp: bc_push_def bc_frame_def bc_contents_def\<close>)+

text \<open>The methods branch by branch.\<close>

lemma bc_try_send_cases:
  assumes "bc_ok C" "bc_try_send stamp now x C = Inr (r, ws, C')"
  obtains (refused) e where "r = Err e" "ws = []" "bc_frame C C'" "\<exists>k. bc_contents C' = drop k (bc_contents C)" "bc_lossless C \<Longrightarrow> C' = C"
    | (sent) k D where "r = Ok ()" "ws = wake_opt (bc_waker_receiver C)" "bc_frame C D" "C' = D\<lparr>bc_waker_receiver := None\<rparr>"
        "bc_contents D = drop k (bc_contents C) @ [x]" "bc_lossless C \<Longrightarrow> k = 0" "\<not> bc_terminated C"
proof (cases "bc_terminated C")
  case True
  have "\<exists>k. bc_contents C = drop k (bc_contents C)" by (rule exI[of _ 0]) simp
  then show ?thesis using True refused[of Send_ChannelClosed] assms by (auto simp: bc_try_send_def bc_frame_def bc_ok_def)
next
  case False
  let ?d = "\<lparr>cd_time_stamp = stamp, cd_data = x\<rparr>"
  obtain m where "bc_make_room now C = Inr m" using assms(2) False by (cases "bc_make_room now C") (simp_all add: bc_try_send_def)
  then obtain room D where D: "bc_make_room now C = Inr (room, D)" by (cases m) simp
  note m = bc_make_room_cases[OF assms(1) D]
  obtain k where k: "bc_contents D = drop k (bc_contents C)" "bc_lossless C \<Longrightarrow> k = 0" using m by (cases "bc_lossless C") auto
  show ?thesis
  proof (cases room)
    case True
    obtain E where E: "bc_push ?d D = Inr E" using assms(2) False D True by (cases "bc_push ?d D") (simp_all add: bc_try_send_def)
    have "queue_ok (bc_queue D)" using m by (simp add: bc_frame_def)
    note p = bc_push_cases[OF this E]
    have "r = Ok ()" "ws = wake_opt (bc_waker_receiver E)" "C' = E\<lparr>bc_waker_receiver := None\<rparr>"
      using assms(2) False D True E by (simp_all add: bc_try_send_def)
    moreover have "bc_frame C E" using m p(1) by (simp add: bc_frame_def)
    ultimately show ?thesis using sent[of E k] k p(2) False by (simp add: bc_frame_def)
  next
    case False
    then show ?thesis using refused[of Send_Full] assms(2) \<open>\<not> bc_terminated C\<close> D m by (simp add: bc_try_send_def)
  qed
qed

text \<open>Polling the future of \<open>send\<close> is \<open>try_send\<close>, except that a full queue makes the sender wait.\<close>

lemma bc_push_waker: "bc_push d (C\<lparr>bc_waker_receiver := w\<rparr>) = and_then (bc_push d C) (\<lambda>C. Inr (C\<lparr>bc_waker_receiver := w\<rparr>))"
  by (cases "rq_push (bc_queue C) d") (auto simp: bc_push_def split: result.splits)

lemma bc_push_keeps: "bc_push d C = Inr C' \<Longrightarrow> bc_waker_receiver C' = bc_waker_receiver C"
  by (cases "rq_push (bc_queue C) d") (auto simp: bc_push_def split: result.splits)

definition send_poll :: "nat \<Rightarrow> 'a channel_data \<Rightarrow> (unit, send_err) result \<times> nat list \<times> 'a bounded_chan
    \<Rightarrow> (bool, send_err) result poll \<times> 'a channel_data option \<times> nat list \<times> 'a bounded_chan" where
  "send_poll waker d = (\<lambda>(r, ws, C).
     case r of
       Ok _ \<Rightarrow> (Ready (Ok (rq_queue_size (bc_queue C) div 4 < rq_len (bc_queue C))), None, ws, C)
     | Err Send_Full \<Rightarrow> (Pending, Some d, ws, C\<lparr>bc_waker_sender := Some waker\<rparr>)
     | Err Send_ChannelClosed \<Rightarrow> (Ready (Err Send_ChannelClosed), Some d, ws, C))"

lemma cd_eta: "\<lparr>cd_time_stamp = cd_time_stamp d, cd_data = cd_data d\<rparr> = d"
  by simp

lemma bc_poll_send_eq:
  "bc_poll_send now waker (Some d) C = and_then (bc_try_send (cd_time_stamp d) now (cd_data d) C) (\<lambda>r. Inr (send_poll waker d r))"
proof (cases "bc_terminated C")
  case True
  then show ?thesis by (simp add: bc_poll_send_def bc_try_send_def send_poll_def)
next
  case False
  show ?thesis
  proof (cases "bc_make_room now C")
    case (Inr m)
    then obtain room D where m: "bc_make_room now C = Inr (room, D)" by (cases m) simp
    show ?thesis using m False
      by (cases room; cases "bc_push d D") (simp_all add: bc_poll_send_def bc_try_send_def send_poll_def bc_push_waker bc_push_keeps cd_eta)
  qed (use False in \<open>simp add: bc_poll_send_def bc_try_send_def\<close>)
qed

lemma bc_frame_refl: "bc_ok C \<Longrightarrow> bc_frame C C"
  by (simp add: bc_frame_def bc_ok_def)

text \<open>Receiving, polled or not, up to the wakers.\<close>

definition recv_poll :: "nat \<Rightarrow> ('a, recv_err) result \<times> 'a bounded_chan \<Rightarrow> ('a, recv_err) result poll \<times> nat list \<times> 'a bounded_chan" where
  "recv_poll waker = (\<lambda>(r, C).
     case r of
       Ok x \<Rightarrow> (Ready (Ok x), wake_opt (bc_waker_sender C), C\<lparr>bc_waker_sender := None\<rparr>)
     | Err Recv_ChannelClosed \<Rightarrow> (Ready (Err Recv_ChannelClosed), [], C)
     | Err Recv_NoData \<Rightarrow> (Pending, [], C\<lparr>bc_waker_receiver := Some waker\<rparr>))"

lemma bc_poll_recv_eq: "bc_poll_recv now waker C = and_then (bc_try_recv now C) (\<lambda>r. Inr (recv_poll waker r))"
proof (cases "bc_garbage_collect now C")
  case (Inr D)
  show ?thesis
  proof (cases "rq_pop (bc_queue D)")
    case (Inr p)
    then obtain x q where "rq_pop (bc_queue D) = Inr (x, q)" by (cases p) simp
    then show ?thesis using \<open>bc_garbage_collect now C = Inr D\<close>
      by (cases x; cases "bc_terminated D") (simp_all add: bc_poll_recv_def bc_try_recv_def recv_poll_def Let_def)
  qed (use Inr in \<open>simp add: bc_poll_recv_def bc_try_recv_def\<close>)
qed (simp add: bc_poll_recv_def bc_try_recv_def)

lemma bc_try_recv_cases:
  assumes "bc_ok C" "bc_try_recv now C = Inr (r, C')"
  obtains (got) x k where "r = Ok x" "bc_frame C C'" "drop k (bc_contents C) = x # bc_contents C'" "bc_lossless C \<Longrightarrow> k = 0"
    | (none) k e where "r = Err e" "bc_frame C C'" "bc_contents C' = []" "drop k (bc_contents C) = []" "bc_lossless C \<Longrightarrow> k = 0"
        "e = (if bc_terminated C then Recv_ChannelClosed else Recv_NoData)"
proof -
  obtain D where D: "bc_garbage_collect now C = Inr D" using assms(2) by (cases "bc_garbage_collect now C") (simp_all add: bc_try_recv_def)
  note gc = bc_garbage_collect_cases[OF assms(1) D]
  then obtain k where k: "bc_contents D = drop k (bc_contents C)" "bc_lossless C \<Longrightarrow> k = 0" by (cases "bc_lossless C") auto
  have ok: "bc_ok D" using bc_frame_ok[OF assms(1) _ k(1)] gc by blast
  obtain x q where pop: "rq_pop (bc_queue D) = Inr (x, q)" using pop_cases[of "bc_queue D"] ok by (metis bc_ok_def)
  note p = bc_pop_cases[OF ok pop]
  have f: "bc_frame C (D\<lparr>bc_queue := q\<rparr>)" using gc p by (simp add: bc_frame_def)
  show ?thesis
  proof (cases x)
    case None
    then have "q = bc_queue D" "bc_contents D = []" using p by simp_all
    then have "bc_contents (D\<lparr>bc_queue := q\<rparr>) = []" by (simp add: bc_contents_def)
    moreover have "bc_terminated D = bc_terminated C" using gc by (simp add: bc_frame_def)
    ultimately show ?thesis using none[of _ k] f k assms(2) D pop None \<open>bc_contents D = []\<close> by (auto simp: bc_try_recv_def Let_def split: if_splits)
  next
    case (Some d)
    then show ?thesis using got[of "cd_data d" k] f p k assms(2) D pop by (simp add: bc_try_recv_def Let_def)
  qed
qed

section \<open>Invariant\<close>

lemma bc_waker_sender_irrelevant [simp]:
  "bc_ok (C\<lparr>bc_waker_sender := w\<rparr>) = bc_ok C" "bc_contents (C\<lparr>bc_waker_sender := w\<rparr>) = bc_contents C"
  "bc_contents (C\<lparr>bc_waker_receiver := w\<rparr>) = bc_contents C" "bc_contents (C\<lparr>bc_terminated := b\<rparr>) = bc_contents C"
  by (simp_all add: bc_ok_def bc_contents_def)

text \<open>What one step does to the contents and the attributes.\<close>

definition moved :: "bool \<Rightarrow> 'a list \<Rightarrow> 'a chan_event \<Rightarrow> 'a list \<Rightarrow> bool" where
  "moved lossless xs e ys \<longleftrightarrow> (\<exists>k. received [e] @ ys = drop k xs @ sent [e] \<and> (lossless \<longrightarrow> k = 0))"

lemma moved_refl [simp]: "moved l xs Internal xs"
  unfolding moved_def by (rule exI[of _ 0]) simp

definition bc_trans :: "'a bounded_chan \<Rightarrow> 'a chan_event \<Rightarrow> 'a bounded_chan \<Rightarrow> bool" where
  "bc_trans C e C' \<longleftrightarrow> bc_ok C' \<and> bc_attribute C' = bc_attribute C \<and> rq_queue_size (bc_queue C') = rq_queue_size (bc_queue C)
     \<and> moved (bc_lossless C) (bc_contents C) e (bc_contents C')"

lemma try_send_trans:
  assumes "bc_ok C" "bc_try_send stamp now x C = Inr (r, ws, C')"
  shows "bc_trans C (send_event x r) C'"
  using assms
proof (cases rule: bc_try_send_cases)
  case (refused e)
  then obtain k where k: "bc_contents C' = drop k (bc_contents C)" "bc_lossless C \<Longrightarrow> k = 0" by (cases "bc_lossless C") auto
  then show ?thesis using refused bc_frame_ok[OF assms(1) refused(3) k(1)]
    by (auto simp: bc_trans_def moved_def send_event_def bc_frame_def)
next
  case (sent k D)
  then show ?thesis by (auto simp: bc_trans_def moved_def send_event_def bc_frame_def bc_ok_def)
qed

lemma try_recv_trans:
  assumes "bc_ok C" "bc_try_recv now C = Inr (r, C')"
  shows "bc_trans C (recv_event r) C'" "r = Err Recv_NoData \<Longrightarrow> bc_contents C' = [] \<and> \<not> bc_terminated C'"
proof -
  have "bc_trans C (recv_event r) C' \<and> (r = Err Recv_NoData \<longrightarrow> bc_contents C' = [] \<and> \<not> bc_terminated C')"
    using assms
  proof (cases rule: bc_try_recv_cases)
    case (got x k)
    have "bc_contents C' = drop (Suc k) (bc_contents C)" using got(3) by (metis drop_Suc list.sel(3) tl_drop)
    from bc_frame_ok[OF assms(1) got(2) this] have "bc_ok C'" .
    moreover have "\<exists>k. x # bc_contents C' = drop k (bc_contents C) \<and> (bc_lossless C \<longrightarrow> k = 0)" using got(3,4) by metis
    ultimately show ?thesis using got(1,2) by (simp add: bc_trans_def moved_def recv_event_def bc_frame_def)
  next
    case (none k e)
    have "bc_ok C'" using assms(1) none(2,3) by (auto simp: bc_ok_def bc_frame_def)
    then show ?thesis using none by (auto simp: bc_trans_def moved_def recv_event_def bc_frame_def)
  qed
  then show "bc_trans C (recv_event r) C'" "r = Err Recv_NoData \<Longrightarrow> bc_contents C' = [] \<and> \<not> bc_terminated C'" by blast+
qed

lemma poll_send_trans:
  assumes "bc_ok C" "bc_poll_send now waker (Some d) C = Inr (p, d', ws, C')"
  shows "bc_trans C (case p of Pending \<Rightarrow> Internal | Ready r \<Rightarrow> send_event (cd_data d) r) C'"
proof -
  let ?t = "bc_try_send (cd_time_stamp d) now (cd_data d) C"
  obtain t where "?t = Inr t" using assms(2) unfolding bc_poll_send_eq by (cases ?t) simp_all
  then obtain r vs D where t: "?t = Inr (r, vs, D)" by (cases t) auto
  from try_send_trans[OF assms(1) t] show ?thesis
    using assms(2) unfolding bc_poll_send_eq t
    by (auto simp: send_poll_def bc_trans_def send_event_def split: result.splits send_err.splits)
qed

lemma poll_recv_trans:
  assumes "bc_ok C" "bc_poll_recv now waker C = Inr (p, ws, C')"
  shows "bc_trans C (case p of Pending \<Rightarrow> Internal | Ready r \<Rightarrow> recv_event r) C'"
proof -
  let ?t = "bc_try_recv now C"
  obtain t where "?t = Inr t" using assms(2) unfolding bc_poll_recv_eq by (cases ?t) simp_all
  then obtain r D where t: "?t = Inr (r, D)" by (cases t) auto
  have ok: "bc_ok (D\<lparr>bc_waker_receiver := Some waker\<rparr>)" if "r = Err Recv_NoData"
    using try_recv_trans[OF assms(1) t] that by (simp add: bc_trans_def bc_ok_def)
  from try_recv_trans(1)[OF assms(1) t] show ?thesis
    using assms(2) ok unfolding bc_poll_recv_eq t
    by (auto simp: recv_poll_def bc_trans_def recv_event_def split: result.splits recv_err.splits)
qed

lemma drop_trans: "bc_ok C \<Longrightarrow> bc_trans C Internal (C\<lparr>bc_terminated := True, bc_waker_sender := None, bc_waker_receiver := None\<rparr>)"
  by (simp add: bc_trans_def bc_ok_def)

lemma bc_step_trans: "bc_step C e ws C' \<Longrightarrow> bc_ok C \<Longrightarrow> bc_trans C e C'"
proof (induction rule: bc_step.induct)
  case (drop_receiver C ws C')
  have "C\<lparr>bc_terminated := True, bc_waker_receiver := None, bc_waker_sender := None\<rparr> =
    C\<lparr>bc_terminated := True, bc_waker_sender := None, bc_waker_receiver := None\<rparr>" by (cases C) simp
  then show ?case using drop_receiver drop_trans[of C] unfolding bc_drop_receiver_def by (simp only: prod.inject)
qed (use try_send_trans poll_send_trans try_recv_trans(1) poll_recv_trans drop_trans in \<open>fastforce simp: bc_drop_sender_def\<close>)+

text \<open>The invariant of a channel with given attributes.\<close>

definition bc_inv :: "bc_attribute \<Rightarrow> 'a bounded_chan \<Rightarrow> bool" where
  "bc_inv attr C \<longleftrightarrow> bc_ok C \<and> bc_attribute C = attr \<and> rq_queue_size (bc_queue C) = ba_queue_size attr"

lemma bc_inv_new: "bc_inv attr (bc_new attr)" "bc_contents (bc_new attr) = []"
  using bc_new_ok[of attr] by (simp_all add: bc_inv_def bc_contents_def) (simp_all add: bc_new_def rq_queue_size_new rq_list_new)

interpretation bounded: lossy_channel "\<lambda>C e C'. \<exists>ws. bc_step C e ws C'" bc_contents "bc_inv attr" for attr
  by unfold_locales (auto dest!: bc_step_trans simp: bc_inv_def bc_trans_def moved_def)

interpretation lossless: fifo_channel "\<lambda>C e C'. \<exists>ws. bc_step C e ws C'" bc_contents
    "\<lambda>C. bc_inv attr C \<and> ba_flow_control attr \<and> ba_lifespan attr = Permanent" for attr
proof unfold_locales
  show "bc_inv attr C' \<and> ba_flow_control attr \<and> ba_lifespan attr = Permanent"
    if "\<exists>ws. bc_step C e ws C'" "bc_inv attr C \<and> ba_flow_control attr \<and> ba_lifespan attr = Permanent" for C e C'
    using that bounded.step_inv by blast
  show "\<exists>k. received [e] @ bc_contents C' = drop k (bc_contents C) @ sent [e]"
    if "\<exists>ws. bc_step C e ws C'" "bc_inv attr C \<and> ba_flow_control attr \<and> ba_lifespan attr = Permanent" for C e C'
    using that bounded.step_suffix by blast
  show "received [e] @ bc_contents C' = bc_contents C @ sent [e]"
    if "\<exists>ws. bc_step C e ws C'" "bc_inv attr C \<and> ba_flow_control attr \<and> ba_lifespan attr = Permanent" for C e C'
    using that by (auto dest!: bc_step_trans simp: bc_inv_def bc_trans_def moved_def bc_lossless_def)
qed

section \<open>Steps of an unbounded channel\<close>

inductive uc_step :: "'a unbounded_chan \<Rightarrow> 'a chan_event \<Rightarrow> nat list \<Rightarrow> 'a unbounded_chan \<Rightarrow> bool" where
  send: "uc_send_no_yield x C = (r, ws, C') \<Longrightarrow> uc_step C (send_event x r) ws C'"
| try_recv: "uc_try_recv C = (r, C') \<Longrightarrow> uc_step C (recv_event r) [] C'"
| poll_recv: "uc_poll_recv waker C = (Ready r, C') \<Longrightarrow> uc_step C (recv_event r) [] C'"
| wait_recv: "uc_poll_recv waker C = (Pending, C') \<Longrightarrow> uc_step C Internal [] C'"
| drop_sender: "uc_drop_sender C = (ws, C') \<Longrightarrow> uc_step C Internal ws C'"
| drop_receiver: "uc_step C Internal [] (uc_drop_receiver C)"

definition uc_ok :: "'a unbounded_chan \<Rightarrow> bool" where
  "uc_ok C \<longleftrightarrow> (uc_waker_receiver C \<noteq> None \<longrightarrow> uc_queue C = [])"

lemma uc_step_exact: "uc_step C e ws C' \<Longrightarrow> uc_ok C \<Longrightarrow> uc_ok C' \<and> received [e] @ uc_queue C' = uc_queue C @ sent [e]"
  by (induction rule: uc_step.induct)
    (auto simp: uc_ok_def uc_send_no_yield_def uc_try_recv_def uc_poll_recv_def uc_drop_sender_def uc_drop_receiver_def
      send_event_def recv_event_def split: if_splits list.splits)

interpretation unbounded: fifo_channel "\<lambda>C e C'. \<exists>ws. uc_step C e ws C'" uc_queue uc_ok
proof unfold_locales
  show "uc_ok C'" if "\<exists>ws. uc_step C e ws C'" "uc_ok C" for C C' :: "'a unbounded_chan" and e using that uc_step_exact by blast
  show ex: "received [e] @ uc_queue C' = uc_queue C @ sent [e]"
    if "\<exists>ws. uc_step C e ws C'" "uc_ok C" for C C' :: "'a unbounded_chan" and e using that uc_step_exact by blast
  show "\<exists>k. received [e] @ uc_queue C' = drop k (uc_queue C) @ sent [e]"
    if "\<exists>ws. uc_step C e ws C'" "uc_ok C" for C C' :: "'a unbounded_chan" and e
    using ex[OF that] by (intro exI[of _ 0]) simp
qed

section \<open>Properties\<close>

text \<open>A channel for one message: a message passes through it, and the receiver waits for the next one.\<close>

definition one_slot :: bc_attribute where
  "one_slot = \<lparr>ba_queue_size = 1, ba_flow_control = True, ba_lifespan = Permanent\<rparr>"

definition one_full :: "nat bounded_chan" where
  "one_full = \<lparr>bc_queue = \<lparr>rq_queue = [Some \<lparr>cd_time_stamp = 0, cd_data = 7\<rparr>], rq_len = 1, rq_head = 0, rq_tail = 0\<rparr>,
     bc_waker_receiver = None, bc_waker_sender = None, bc_terminated = False, bc_attribute = one_slot\<rparr>"

definition one_wait :: "nat bounded_chan" where
  "one_wait = (bc_new one_slot)\<lparr>bc_waker_receiver := Some 5\<rparr>"

lemmas one_defs = one_slot_def one_full_def one_wait_def bc_new_def bc_garbage_collect_def bc_make_room_def bc_push_def
  rq_new_def rq_push_def rq_pop_def rq_is_full_def rq_queue_size_def wake_opt_def Let_def

lemma one_runs:
  "bc_try_send 0 0 7 (bc_new one_slot) = Inr (Ok (), [], one_full)"
  "bc_poll_recv 0 5 one_full = Inr (Ready (Ok 7), [], bc_new one_slot)"
  "bc_poll_recv 0 5 (bc_new one_slot :: nat bounded_chan) = Inr (Pending, [], one_wait)"
  by (simp_all add: bc_try_send_def bc_poll_recv_def one_defs panic_simps)

lemma one_run: "run (\<lambda>C e C'. \<exists>ws. bc_step C e ws C') (bc_new one_slot) [Sent 7, Received 7, Internal] one_wait"
proof -
  let ?step = "\<lambda>C e C'. \<exists>ws. bc_step C e ws C'"
  have "?step (bc_new one_slot) (Sent 7) one_full" using bc_step.try_send[OF one_runs(1)] by (auto simp: send_event_def)
  from run.snoc[of ?step, OF run.nil this] have 1: "run ?step (bc_new one_slot) [Sent 7] one_full" by simp
  have "?step one_full (Received 7) (bc_new one_slot)" using bc_step.poll_recv[OF one_runs(2)] by (auto simp: recv_event_def)
  from run.snoc[of ?step, OF 1 this] have 2: "run ?step (bc_new one_slot) [Sent (7 :: nat), Received 7] (bc_new one_slot)" by simp
  have "?step (bc_new one_slot) Internal one_wait" using bc_step.wait_recv[OF one_runs(3)] by auto
  from run.snoc[of ?step, OF 2 this] show ?thesis by simp
qed

text \<open>
  C14. Whatever the tasks call on a bounded channel, in any order and at any times, the received messages followed by the
  waiting ones are a subsequence of the sent ones: no message is invented, duplicated or overtaken. At most
  \<open>queue_size\<close> messages wait. With flow control and no lifespan nothing is lost either: the sent messages are
  exactly the received ones followed by the waiting ones.
\<close>

theorem bounded_channel_in_order:
  assumes "run (\<lambda>C e C'. \<exists>ws. bc_step C e ws C') (bc_new attr) es C"
  shows "subseq (received es @ bc_contents C) (sent es)
    \<and> length (bc_contents C) \<le> ba_queue_size attr
    \<and> (ba_flow_control attr \<and> ba_lifespan attr = Permanent \<longrightarrow> sent es = received es @ bc_contents C)"
proof -
  have run: "bc_inv attr C \<and> subseq (received es @ bc_contents C) (sent es)"
    using bounded.run_subseq[OF assms bc_inv_new(1)] by (simp add: bc_inv_new(2))
  then have "length (bc_contents C) \<le> ba_queue_size attr"
    using rq_invD(1)[of "bc_queue C"] by (simp add: bc_inv_def bc_ok_def bc_contents_def queue_ok_def rq_queue_size_def)
  moreover have "sent es = received es @ bc_contents C" if "ba_flow_control attr" "ba_lifespan attr = Permanent"
    using lossless.run_fifo[OF assms, of attr] by (simp add: bc_inv_new that)
  ultimately show ?thesis using run by blast
qed

theorem bounded_channel_in_order_witness:
  "run (\<lambda>C e C'. \<exists>ws. bc_step C e ws C') (bc_new one_slot) [Sent 7, Received 7, Internal] one_wait
    \<and> sent [Sent 7, Received 7, Internal] = received [Sent 7, Received 7, Internal] @ bc_contents one_wait"
  using bounded_channel_in_order[OF one_run] one_run by (simp add: one_slot_def)

text \<open>
  C32. A task that sleeps in \<open>recv\<close> of a bounded channel misses nothing: while its waker is registered the channel is
  empty and open, every call that puts a message into the channel calls the waker, and so does dropping the
  sender.
\<close>

theorem bounded_receiver_is_woken:
  assumes "run (\<lambda>C e C'. \<exists>ws. bc_step C e ws C') (bc_new attr) es C" "bc_waker_receiver C = Some w"
  shows "bc_contents C = [] \<and> \<not> bc_terminated C
    \<and> (\<forall>x ws C'. bc_step C (Sent x) ws C' \<longrightarrow> ws = [w]) \<and> fst (bc_drop_sender C) = [w]"
proof -
  have ok: "bc_ok C" using bounded.run_subseq[OF assms(1) bc_inv_new(1)] by (simp add: bc_inv_def)
  have sent: "ws = [w]" if "bc_try_send stamp now x C = Inr (Ok (), ws, C')" for stamp now x ws C'
    using ok that by (cases rule: bc_try_send_cases) (simp_all add: assms(2) wake_opt_def)
  have "ws = [w]" if "bc_step C (Sent x) ws C'" for x ws C'
    using that
  proof cases
    case (try_send stamp now y r)
    then show ?thesis using sent by (cases r) (auto simp: send_event_def)
  next
    case (poll_send now waker d r d')
    let ?t = "bc_try_send (cd_time_stamp d) now (cd_data d) C"
    obtain t where "?t = Inr t" using poll_send unfolding bc_poll_send_eq by (cases ?t) simp_all
    then obtain r' vs D where t: "?t = Inr (r', vs, D)" by (cases t) auto
    then show ?thesis using poll_send sent[of "cd_time_stamp d" now "cd_data d" vs D] unfolding bc_poll_send_eq t
      by (cases r) (auto simp: send_event_def send_poll_def split: result.splits send_err.splits)
  qed (auto simp: recv_event_def split: result.splits)
  then show ?thesis using ok assms(2) by (simp add: bc_ok_def bc_drop_sender_def wake_opt_def)
qed

theorem bounded_receiver_is_woken_witness:
  "run (\<lambda>C e C'. \<exists>ws. bc_step C e ws C') (bc_new one_slot) [Sent 7, Received 7, Internal] one_wait
    \<and> bc_waker_receiver one_wait = Some 5 \<and> fst (bc_drop_sender one_wait) = [5]"
  using bounded_receiver_is_woken[OF one_run, of 5] one_run by (simp add: one_wait_def)

text \<open>
  C39. \<open>try_recv\<close> of a bounded channel never wakes the sender that waits for room. In a channel for one message that
  is full, a sender that waits in \<open>send\<close>, followed by a receiver that takes the message by \<open>try_recv\<close> and then waits in
  \<open>recv\<close>, leaves both asleep on an empty channel, and neither was woken.
\<close>

theorem try_recv_strands_sender:
  assumes "bc_ok C" "bc_contents C = [x]" "rq_queue_size (bc_queue C) = 1" "bc_lossless C" "\<not> bc_terminated C"
  shows "\<exists>C1 C2 C3. bc_poll_send now1 s (Some d) C = Inr (Pending, Some d, [], C1)
    \<and> bc_try_recv now2 C1 = Inr (Ok x, C2) \<and> bc_poll_recv now3 r C2 = Inr (Pending, [], C3)
    \<and> bc_contents C3 = [] \<and> \<not> bc_terminated C3 \<and> bc_waker_sender C3 = Some s \<and> bc_waker_receiver C3 = Some r"
proof -
  have gc: "bc_garbage_collect now D = Inr D" if "bc_lossless D" for now and D :: "'a bounded_chan"
    using that by (simp add: bc_garbage_collect_def bc_lossless_def)
  have q: "queue_ok (bc_queue C)" using assms(1) by (simp add: bc_ok_def)
  have full: "rq_is_full (bc_queue C)"
    using assms(2,3) by (auto simp: rq_is_full_def rq_queue_size_def bc_contents_def length_rq_list[symmetric] simp del: length_rq_list)
  let ?C1 = "C\<lparr>bc_waker_sender := Some s\<rparr>"
  have 1: "bc_poll_send now1 s (Some d) C = Inr (Pending, Some d, [], ?C1)"
    using assms(4,5) full by (simp add: bc_poll_send_def bc_make_room_def gc) (simp add: bc_lossless_def)
  obtain y q' where pop: "rq_list (bc_queue C) = [y]" "cd_data y = x" "rq_pop (bc_queue C) = Inr (Some y, q')" "queue_ok q'" "rq_list q' = []"
    by (rule pop_cases[OF q]) (use assms(2) in \<open>auto simp: bc_contents_def\<close>)
  let ?C2 = "?C1\<lparr>bc_queue := q'\<rparr>"
  have 2: "bc_try_recv now2 ?C1 = Inr (Ok x, ?C2)"
    using assms(4) pop gc[of ?C1] by (simp add: bc_try_recv_def bc_lossless_def)
  have "rq_pop q' = Inr (None, q')" by (rule pop_cases[OF pop(4)]) (use pop(5) in simp_all)
  then have 3: "bc_poll_recv now3 r ?C2 = Inr (Pending, [], ?C2\<lparr>bc_waker_receiver := Some r\<rparr>)"
    using assms(4,5) gc[of ?C2] by (simp add: bc_poll_recv_def bc_lossless_def)
  show ?thesis using 1 2 3 assms(5) pop(5) by (simp add: bc_contents_def)
qed

theorem try_recv_strands_sender_witness:
  "\<exists>C1 C2 C3. bc_poll_send 0 3 (Some \<lparr>cd_time_stamp = 0, cd_data = 8\<rparr>) one_full = Inr (Pending, Some \<lparr>cd_time_stamp = 0, cd_data = 8\<rparr>, [], C1)
    \<and> bc_try_recv 0 C1 = Inr (Ok 7, C2) \<and> bc_poll_recv 0 5 C2 = Inr (Pending, [], C3)
    \<and> bc_contents C3 = [] \<and> \<not> bc_terminated C3 \<and> bc_waker_sender C3 = Some 3 \<and> bc_waker_receiver C3 = Some 5"
proof -
  have "bc_inv one_slot one_full"
    using bounded.step_inv[OF _ bc_inv_new(1)] bc_step.try_send[OF one_runs(1)] by blast
  then have "bc_ok one_full" by (simp add: bc_inv_def)
  moreover have "bc_contents one_full = [7]" by (simp add: bc_contents_def rq_list_def rq_slot_def one_full_def)
  ultimately show ?thesis
    by (intro try_recv_strands_sender) (simp_all add: one_full_def rq_queue_size_def bc_lossless_def one_slot_def)
qed

text \<open>
  An unbounded channel delivers every message that a send accepted exactly once and in order, and a receiver sleeps only
  while the channel is empty.
\<close>

theorem unbounded_channel_in_order:
  assumes "run (\<lambda>C e C'. \<exists>ws. uc_step C e ws C') uc_new es C"
  shows "sent es = received es @ uc_queue C \<and> (uc_waker_receiver C \<noteq> None \<longrightarrow> uc_queue C = [])"
proof -
  have new: "uc_ok uc_new" by (simp add: uc_ok_def uc_new_def)
  show ?thesis using unbounded.run_fifo[OF assms new] unbounded.run_subseq[OF assms new] by (simp add: uc_ok_def) (simp add: uc_new_def)
qed

theorem unbounded_channel_in_order_witness:
  "\<exists>C. run (\<lambda>C e C'. \<exists>ws. uc_step C e ws C') uc_new [Sent 7] C \<and> sent [Sent (7 :: nat)] = received [Sent 7] @ uc_queue C"
proof -
  let ?step = "\<lambda>C e C'. \<exists>ws. uc_step C e ws C'" and ?C = "uc_new\<lparr>uc_queue := [7 :: nat]\<rparr>"
  have "uc_send_no_yield (7 :: nat) uc_new = (Ok (), [], ?C)" by (simp add: uc_send_no_yield_def uc_new_def wake_opt_def)
  from uc_step.send[OF this] have "?step uc_new (Sent 7) ?C" by (auto simp: send_event_def)
  from run.snoc[of ?step, OF run.nil this] have "run ?step uc_new [Sent 7] ?C" by simp
  then show ?thesis using unbounded_channel_in_order by blast
qed

end
