(* ===== verification/Sleeping.thy ===== *)
theory Sleeping
  imports Delta_List Channels
begin

text \<open>
  Sleeping tasks: the timer queue \<open>SleepingTasks\<close> of \<open>awkernel_async_lib/src/scheduler.rs\<close> on the delta list, the
  futures \<open>Sleep\<close> and \<open>SleepUntil\<close> (\<open>sleep_task.rs\<close>, \<open>sleep_until_task.rs\<close>), \<open>Timeout\<close> (\<open>timeout_call.rs\<close>) and the
  periodic \<open>Interval\<close> (\<open>time_interval.rs\<close>). The shared state of a sleep is an address; a handler of the timer queue is the
  address and the waker that its closure captured. The clock is an argument of every operation, one for each reading.
\<close>

section \<open>The timer queue\<close>

record 'h sleeping_tasks =
  st_delta_list :: "'h delta_list"
  st_base_time :: instant

definition sleeping_new :: "'h sleeping_tasks" where
  "sleeping_new = \<lparr>st_delta_list = DNil, st_base_time = instant_zero\<rparr>"

definition sleep_task :: "nat \<Rightarrow> 'h \<Rightarrow> duration \<Rightarrow> 'h sleeping_tasks \<Rightarrow> 'h sleeping_tasks" where
  "sleep_task now handler dur S =
     (let (S, dur) =
        (if dl_is_empty (st_delta_list S) then (S\<lparr>st_base_time := now\<rparr>, dur)
         else (S, dur + elapsed now (st_base_time S)))
      in S\<lparr>st_delta_list := dl_insert (st_delta_list S) (word_of_nat dur) handler\<rparr>)"

definition sleep_until_task :: "nat \<Rightarrow> 'h \<Rightarrow> instant \<Rightarrow> 'h sleeping_tasks \<Rightarrow> 'h sleeping_tasks" where
  "sleep_until_task now handler next_time S =
     (let S = (if dl_is_empty (st_delta_list S) then S\<lparr>st_base_time := now\<rparr> else S);
          dur = instant_diff next_time (st_base_time S)
      in S\<lparr>st_delta_list := dl_insert (st_delta_list S) (word_of_nat dur) handler\<rparr>)"

text \<open>
  The loop of \<open>wake_task\<close>; iteration \<open>i\<close> reads the clock as \<open>clock i\<close>. The first result is the list of handlers that were
  invoked.
\<close>

fun wake_loop :: "(nat \<Rightarrow> nat) \<Rightarrow> 'h delta_list \<Rightarrow> instant \<Rightarrow> 'h list \<times> 'h delta_list \<times> instant" where
  "wake_loop clock DNil base = ([], DNil, base)"
| "wake_loop clock (DCons d handler rest) base =
     (if unat d \<le> elapsed (clock 0) base
      then (case wake_loop (\<lambda>i. clock (Suc i)) rest (instant_add base (unat d)) of
              (handlers, l, b) \<Rightarrow> (handler # handlers, l, b))
      else ([], DCons d handler rest, base))"

definition sleeping_wake_task :: "(nat \<Rightarrow> nat) \<Rightarrow> 'h sleeping_tasks \<Rightarrow> 'h list \<times> 'h sleeping_tasks" where
  "sleeping_wake_task clock S =
     (case wake_loop clock (st_delta_list S) (st_base_time S) of
        (handlers, l, b) \<Rightarrow> (handlers, S\<lparr>st_delta_list := l, st_base_time := b\<rparr>))"

definition time_to_wait :: "nat \<Rightarrow> 'h sleeping_tasks \<Rightarrow> duration option" where
  "time_to_wait now S =
     (case dl_front (st_delta_list S) of
        None \<Rightarrow> None
      | Some (dur, _) \<Rightarrow>
          (let elapsed = word_of_nat (elapsed now (st_base_time S)) in
           if elapsed \<ge> dur then Some 0 else Some (unat (dur - elapsed))))"

section \<open>The futures\<close>

datatype sleep_state = Sl_Ready | Sl_Wait | Sl_Canceled | Sl_Finished

record timers =
  tm_sleeping :: "(nat \<times> nat) sleeping_tasks"
  tm_state :: "nat \<Rightarrow> sleep_state"
  tm_next :: nat
  tm_wakes :: "nat list"

record sleep =
  sl_state :: nat
  sl_dur :: duration

record sleep_until =
  su_state :: nat
  su_next :: instant

definition set_state :: "nat \<Rightarrow> sleep_state \<Rightarrow> timers \<Rightarrow> timers" where
  "set_state a s T = T\<lparr>tm_state := (tm_state T)(a := s)\<rparr>"

definition sleep_new :: "duration \<Rightarrow> timers \<Rightarrow> sleep \<times> timers" where
  "sleep_new dur T =
     (\<lparr>sl_state = tm_next T, sl_dur = dur\<rparr>, (set_state (tm_next T) Sl_Ready T)\<lparr>tm_next := Suc (tm_next T)\<rparr>)"

definition sleep_poll :: "nat \<Rightarrow> nat \<Rightarrow> sleep \<Rightarrow> timers \<Rightarrow> sleep_state poll \<times> timers" where
  "sleep_poll now waker sl T =
     (case tm_state T (sl_state sl) of
        Sl_Wait \<Rightarrow> (Pending, T)
      | Sl_Canceled \<Rightarrow> (Ready Sl_Canceled, T)
      | Sl_Finished \<Rightarrow> (Ready Sl_Finished, T)
      | Sl_Ready \<Rightarrow>
          (Pending, (set_state (sl_state sl) Sl_Wait T)
             \<lparr>tm_sleeping := sleep_task now (sl_state sl, waker) (sl_dur sl) (tm_sleeping T)\<rparr>))"

text \<open>The closure that the futures register.\<close>

definition sleep_handler :: "nat \<times> nat \<Rightarrow> timers \<Rightarrow> timers" where
  "sleep_handler = (\<lambda>(a, waker) T.
     if tm_state T a = Sl_Wait then (set_state a Sl_Finished T)\<lparr>tm_wakes := tm_wakes T @ [waker]\<rparr> else T)"

definition sleep_cancel :: "nat \<Rightarrow> timers \<Rightarrow> timers" where
  "sleep_cancel a T =
     (case tm_state T a of
        Sl_Ready \<Rightarrow> set_state a Sl_Canceled T
      | Sl_Wait \<Rightarrow> set_state a Sl_Canceled T
      | _ \<Rightarrow> T)"

definition sleep_is_terminated :: "nat \<Rightarrow> timers \<Rightarrow> bool" where
  "sleep_is_terminated a T \<longleftrightarrow> tm_state T a = Sl_Finished \<or> tm_state T a = Sl_Canceled"

definition sleep_drop :: "nat \<Rightarrow> timers \<Rightarrow> timers" where
  "sleep_drop a T = (if tm_state T a = Sl_Wait then set_state a Sl_Canceled T else T)"

definition sleep_until_new :: "instant \<Rightarrow> timers \<Rightarrow> sleep_until \<times> timers" where
  "sleep_until_new next_time T =
     (\<lparr>su_state = tm_next T, su_next = next_time\<rparr>, (set_state (tm_next T) Sl_Ready T)\<lparr>tm_next := Suc (tm_next T)\<rparr>)"

definition sleep_until_poll :: "nat \<Rightarrow> nat \<Rightarrow> sleep_until \<Rightarrow> timers \<Rightarrow> sleep_state poll \<times> timers" where
  "sleep_until_poll now waker su T =
     (case tm_state T (su_state su) of
        Sl_Wait \<Rightarrow> (Pending, T)
      | Sl_Canceled \<Rightarrow> (Ready Sl_Canceled, T)
      | Sl_Finished \<Rightarrow> (Ready Sl_Finished, T)
      | Sl_Ready \<Rightarrow>
          (Pending, (set_state (su_state su) Sl_Wait T)
             \<lparr>tm_sleeping := sleep_until_task now (su_state su, waker) (su_next su) (tm_sleeping T)\<rparr>))"

text \<open>The part of \<open>scheduler::wake_task\<close> that serves the sleeping tasks.\<close>

definition timers_wake :: "(nat \<Rightarrow> nat) \<Rightarrow> timers \<Rightarrow> timers" where
  "timers_wake clock T =
     (case sleeping_wake_task clock (tm_sleeping T) of
        (handlers, S) \<Rightarrow> fold sleep_handler handlers (T\<lparr>tm_sleeping := S\<rparr>))"

section \<open>Timeouts\<close>

text \<open>The wrapped future is a function \<open>poll_future\<close> from its state to its answer and its next state.\<close>

datatype timeout_state = To_Start | To_Await | To_Finished

record 'f timeout =
  to_future :: 'f
  to_sleep :: sleep
  to_state :: timeout_state

definition timeout_new :: "duration \<Rightarrow> 'f \<Rightarrow> timers \<Rightarrow> 'f timeout \<times> timers" where
  "timeout_new dur future T =
     (let (sl, T) = sleep_new dur T in (\<lparr>to_future = future, to_sleep = sl, to_state = To_Start\<rparr>, T))"

definition timeout_poll ::
    "('f \<Rightarrow> 'r poll \<times> 'f) \<Rightarrow> nat \<Rightarrow> nat \<Rightarrow> 'f timeout \<Rightarrow> timers \<Rightarrow> ('r option poll \<times> 'f timeout \<times> timers) rust" where
  "timeout_poll poll_future now waker to T =
     (case to_state to of
        To_Start \<Rightarrow>
          (case poll_future (to_future to) of
             (Ready result, f) \<Rightarrow> Inr (Ready (Some result), to\<lparr>to_future := f\<rparr>, T)
           | (Pending, f) \<Rightarrow>
               (case sleep_poll now waker (to_sleep to) T of
                  (_, T) \<Rightarrow> Inr (Pending, to\<lparr>to_future := f, to_state := To_Await\<rparr>, T)))
      | To_Await \<Rightarrow>
          (case poll_future (to_future to) of
             (Ready result, f) \<Rightarrow>
               Inr (Ready (Some result), to\<lparr>to_future := f, to_state := To_Finished\<rparr>, sleep_cancel (sl_state (to_sleep to)) T)
           | (Pending, f) \<Rightarrow>
               if sleep_is_terminated (sl_state (to_sleep to)) T
               then Inr (Ready None, to\<lparr>to_future := f, to_state := To_Finished\<rparr>, T)
               else Inr (Pending, to\<lparr>to_future := f\<rparr>, T))
      | To_Finished \<Rightarrow> Inl Unreachable_Reached)"

section \<open>Intervals\<close>

datatype missed_tick_behavior = Burst | Delay | Skip

record interval =
  iv_next_tick_target :: instant
  iv_delay :: "sleep option"
  iv_period :: duration
  iv_missed_tick_behavior :: missed_tick_behavior

definition interval_at :: "instant \<Rightarrow> duration \<Rightarrow> interval rust" where
  "interval_at start period =
     (if period = 0 then Inl Assertion_Failed
      else Inr \<lparr>iv_next_tick_target = start, iv_delay = None, iv_period = period, iv_missed_tick_behavior = Burst\<rparr>)"

definition interval_new :: "nat \<Rightarrow> duration \<Rightarrow> interval rust" where
  "interval_new now period = (if period = 0 then Inl Assertion_Failed else interval_at now period)"

text \<open>The target of the tick after the one at \<open>tick_time\<close>; the count of missed ticks is cut to 32 bits.\<close>

definition next_target :: "nat \<Rightarrow> instant \<Rightarrow> interval \<Rightarrow> instant" where
  "next_target now tick_time iv =
     (if now > tick_time
      then (case iv_missed_tick_behavior iv of
              Burst \<Rightarrow> instant_add tick_time (iv_period iv)
            | Delay \<Rightarrow> instant_add now (iv_period iv)
            | Skip \<Rightarrow>
                (let ticks_missed = word_of_nat (saturating_duration_since now tick_time div iv_period iv) :: u32
                 in instant_add tick_time (iv_period iv * unat (ticks_missed + 1))))
      else instant_add tick_time (iv_period iv))"

text \<open>The readings of the clock: one before the sleep is created, one when it is registered, one for the next target.\<close>

definition interval_poll_next ::
    "nat \<Rightarrow> nat \<Rightarrow> nat \<Rightarrow> nat \<Rightarrow> interval \<Rightarrow> timers \<Rightarrow> (instant poll \<times> interval \<times> timers) rust" where
  "interval_poll_next now1 now2 now3 waker iv T =
     (let (iv, T) =
        (case iv_delay iv of
           None \<Rightarrow>
             (let (sl, T) = sleep_new (saturating_duration_since (iv_next_tick_target iv) now1) T
              in (iv\<lparr>iv_delay := Some sl\<rparr>, T))
         | Some _ \<Rightarrow> (iv, T));
        tick_time = iv_next_tick_target iv
      in
      and_then (unwrap (iv_delay iv)) (\<lambda>sl.
      case sleep_poll now2 waker sl T of
        (Pending, T) \<Rightarrow> Inr (Pending, iv, T)
      | (Ready _, T) \<Rightarrow>
          Inr (Ready tick_time, iv\<lparr>iv_next_tick_target := next_target now3 tick_time iv, iv_delay := None\<rparr>,
            sleep_drop (sl_state sl) T)))"

section \<open>The agenda of the timer queue\<close>

definition agenda :: "'h sleeping_tasks \<Rightarrow> (nat \<times> 'h) list" where
  "agenda S = dl_times (st_base_time S) (st_delta_list S)"

lemma dl_is_empty_iff [simp]: "dl_is_empty l \<longleftrightarrow> l = DNil"
  by (cases l) simp_all

lemma agenda_Nil [simp]: "agenda S = [] \<longleftrightarrow> st_delta_list S = DNil"
  by (cases "st_delta_list S") (simp_all add: agenda_def)

lemma set_agenda_insert [simp]: "set (agenda_insert t x as) = insert (t, x) (set as)"
  using agenda_insert_mset[of t x as] by (metis set_mset_add_mset_insert set_mset_mset)

lemma unat_of_dur: "dur < 2 ^ 64 \<Longrightarrow> unat (word_of_nat dur :: u64) = dur"
  by (simp add: unsigned_of_nat take_bit_nat_eq_self)

lemma dl_insert_times: "dur < 2 ^ 64 \<Longrightarrow> dl_times b (dl_insert l (word_of_nat dur) x) = agenda_insert (b + dur) x (dl_times b l)"
  by (simp add: dl_insert_def insert_delta_times unat_of_dur)

text \<open>A handler that sleeps for \<open>dur\<close> gets the time \<open>now + dur\<close>; nothing else moves.\<close>

lemma sleep_task_agenda:
  assumes "agenda S \<noteq> [] \<Longrightarrow> st_base_time S \<le> now" "now + dur < 2 ^ 64"
  shows "agenda (sleep_task now h dur S) = agenda_insert (now + dur) h (agenda S)" "st_base_time (sleep_task now h dur S) \<le> now"
proof -
  have "agenda (sleep_task now h dur S) = agenda_insert (now + dur) h (agenda S) \<and> st_base_time (sleep_task now h dur S) \<le> now"
  proof (cases "st_delta_list S = DNil")
    case True
    then show ?thesis using assms(2) by (simp add: sleep_task_def agenda_def dl_insert_times)
  next
    case False
    then have "st_base_time S \<le> now" using assms(1) by simp
    then have "elapsed now (st_base_time S) = now - st_base_time S" using assms(2) by (simp add: elapsed_def)
    moreover define d where "d = dur + (now - st_base_time S)"
    ultimately have "sleep_task now h dur S = S\<lparr>st_delta_list := dl_insert (st_delta_list S) (word_of_nat d) h\<rparr>"
      using False by (simp add: sleep_task_def Let_def del: of_nat_add)
    moreover have "d < 2 ^ 64" "st_base_time S + d = now + dur" using assms(2) \<open>st_base_time S \<le> now\<close> by (simp_all add: d_def)
    ultimately show ?thesis using \<open>st_base_time S \<le> now\<close> by (simp add: agenda_def dl_insert_times)
  qed
  then show "agenda (sleep_task now h dur S) = agenda_insert (now + dur) h (agenda S)" "st_base_time (sleep_task now h dur S) \<le> now"
    by blast+
qed

lemma sleep_until_task_agenda:
  assumes "agenda S \<noteq> [] \<Longrightarrow> st_base_time S \<le> now" "next_time < 2 ^ 64"
  shows "\<exists>t. next_time \<le> t \<and> agenda (sleep_until_task now h next_time S) = agenda_insert t h (agenda S)
    \<and> t \<le> max now next_time \<and> st_base_time (sleep_until_task now h next_time S) \<le> now"
proof -
  let ?b = "if st_delta_list S = DNil then now else st_base_time S"
  let ?d = "instant_diff next_time ?b"
  have b: "?b \<le> now" using assms(1) by simp
  have d: "instant_diff next_time c < 2 ^ 64 \<and> c + instant_diff next_time c = max c next_time" for c
    using assms(2) by (auto simp: instant_diff_def saturating_duration_since_def max_def)
  have "agenda (sleep_until_task now h next_time S) = dl_times ?b (dl_insert (st_delta_list S) (word_of_nat ?d) h)"
    "st_base_time (sleep_until_task now h next_time S) = ?b"
    by (simp_all add: sleep_until_task_def agenda_def Let_def)
  moreover have "dl_times ?b (st_delta_list S) = agenda S" by (simp add: agenda_def)
  ultimately show ?thesis using b dl_insert_times[of ?d ?b "st_delta_list S" h] d[of ?b]
    by (intro exI[of _ "max ?b next_time"]) auto
qed

text \<open>Waking invokes the handlers at the front whose time has come, in the order of their times, and no other.\<close>

lemma wake_loop_agenda:
  assumes "wake_loop clock l b = (hs, l', b')" "b \<le> clock 0" "mono clock" "\<And>i. clock i \<le> t" "t < 2 ^ 64"
  shows "\<exists>k. hs = map snd (take k (dl_times b l)) \<and> dl_times b' l' = drop k (dl_times b l)
    \<and> (\<forall>x \<in> set (take k (dl_times b l)). fst x \<le> t) \<and> (\<forall>x \<in> set (drop k (dl_times b l)). clock 0 < fst x) \<and> b' \<le> t"
  using assms
proof (induction l arbitrary: clock b hs)
  case DNil
  then show ?case using DNil.prems(4)[of 0] by (auto intro: order_trans)
next
  case (DCons d h rest)
  have el: "elapsed (clock 0) b = clock 0 - b" using DCons.prems(4)[of 0] DCons.prems(5) by (auto simp: elapsed_def)
  show ?case
  proof (cases "unat d \<le> clock 0 - b")
    case True
    obtain gs where gs: "wake_loop (\<lambda>i. clock (Suc i)) rest (b + unat d) = (gs, l', b')" "hs = h # gs"
      using DCons.prems(1) True el by (auto simp: instant_add_def split: prod.splits)
    have le: "b + unat d \<le> clock 0" "clock 0 \<le> clock (Suc 0)" using True DCons.prems(2,3) by (simp_all add: monoD)
    have "\<exists>k. gs = map snd (take k (dl_times (b + unat d) rest)) \<and> dl_times b' l' = drop k (dl_times (b + unat d) rest)
      \<and> (\<forall>x \<in> set (take k (dl_times (b + unat d) rest)). fst x \<le> t)
      \<and> (\<forall>x \<in> set (drop k (dl_times (b + unat d) rest)). clock (Suc 0) < fst x) \<and> b' \<le> t"
      using DCons.IH[OF gs(1)] le DCons.prems(3-5) by (simp add: mono_def)
    then obtain k where k: "gs = map snd (take k (dl_times (b + unat d) rest))" "dl_times b' l' = drop k (dl_times (b + unat d) rest)"
      "\<forall>x \<in> set (take k (dl_times (b + unat d) rest)). fst x \<le> t"
      "\<forall>x \<in> set (drop k (dl_times (b + unat d) rest)). clock (Suc 0) < fst x" "b' \<le> t" by blast
    show ?thesis
      using k gs(2) le DCons.prems(4)[of 0] by (intro exI[of _ "Suc k"]) auto
  next
    case False
    have "clock 0 < b + unat d" using False DCons.prems(2) by linarith
    then have "\<forall>x \<in> set (dl_times b (DCons d h rest)). clock 0 < fst x"
      using dl_times_lower[of _ _ "b + unat d" rest] by (auto intro: less_le_trans)
    moreover have "hs = []" "l' = DCons d h rest" "b' = b" using DCons.prems(1) False el by simp_all
    ultimately show ?thesis using DCons.prems(2) DCons.prems(4)[of 0] by (intro exI[of _ 0]) (auto intro: order_trans)
  qed
qed

section \<open>Steps\<close>

text \<open>
  One operation of any task on the timers, from one time to a later one. Uptimes stay below \<open>2 ^ 64\<close> nanoseconds, which is
  584 years.
\<close>

inductive timer_step :: "nat \<times> timers \<Rightarrow> nat \<times> timers \<Rightarrow> bool" where
  new: "sleep_new dur T = (sl, T') \<Longrightarrow> t \<le> t' \<Longrightarrow> timer_step (t, T) (t', T')"
| until_new: "sleep_until_new next_time T = (su, T') \<Longrightarrow> t \<le> t' \<Longrightarrow> timer_step (t, T) (t', T')"
| poll: "sleep_poll t' waker sl T = (p, T') \<Longrightarrow> t \<le> t' \<Longrightarrow> t' + sl_dur sl < 2 ^ 64 \<Longrightarrow> sl_state sl < tm_next T \<Longrightarrow>
    timer_step (t, T) (t', T')"
| until_poll: "sleep_until_poll t' waker su T = (p, T') \<Longrightarrow> t \<le> t' \<Longrightarrow> su_next su < 2 ^ 64 \<Longrightarrow> su_state su < tm_next T \<Longrightarrow>
    timer_step (t, T) (t', T')"
| cancel: "t \<le> t' \<Longrightarrow> timer_step (t, T) (t', sleep_cancel a T)"
| drop: "t \<le> t' \<Longrightarrow> timer_step (t, T) (t', sleep_drop a T)"
| wake: "t \<le> clock 0 \<Longrightarrow> mono clock \<Longrightarrow> (\<And>i. clock i \<le> t') \<Longrightarrow> t' < 2 ^ 64 \<Longrightarrow> timer_step (t, T) (t', timers_wake clock T)"

definition timers_boot :: timers where
  "timers_boot = \<lparr>tm_sleeping = sleeping_new, tm_state = (\<lambda>_. Sl_Ready), tm_next = 0, tm_wakes = []\<rparr>"

definition timers_ok :: "nat \<times> timers \<Rightarrow> bool" where
  "timers_ok = (\<lambda>(t, T).
     (agenda (tm_sleeping T) \<noteq> [] \<longrightarrow> st_base_time (tm_sleeping T) \<le> t)
     \<and> (\<forall>(d, a, w) \<in> set (agenda (tm_sleeping T)). a < tm_next T \<and> tm_state T a \<noteq> Sl_Ready))"

text \<open>The registration of one sleep: its entry stays in the agenda, at its time, until it is finished or cancelled.\<close>

definition registered :: "nat \<Rightarrow> nat \<Rightarrow> nat \<Rightarrow> nat \<times> timers \<Rightarrow> bool" where
  "registered a w d = (\<lambda>(t, T).
     a < tm_next T \<and> tm_state T a \<noteq> Sl_Ready
     \<and> (tm_state T a = Sl_Wait \<longrightarrow> (d, a, w) \<in> set (agenda (tm_sleeping T)))
     \<and> (\<forall>d' w'. (d', a, w') \<in> set (agenda (tm_sleeping T)) \<longrightarrow> d' = d \<and> w' = w)
     \<and> (tm_state T a = Sl_Finished \<longrightarrow> d \<le> t))"

lemma timers_okI:
  assumes "agenda (tm_sleeping T) \<noteq> [] \<Longrightarrow> st_base_time (tm_sleeping T) \<le> t"
    "\<And>d a w. (d, a, w) \<in> set (agenda (tm_sleeping T)) \<Longrightarrow> a < tm_next T \<and> tm_state T a \<noteq> Sl_Ready"
  shows "timers_ok (t, T)"
  using assms unfolding timers_ok_def by blast

lemma timers_okD:
  assumes "timers_ok (t, T)"
  shows "agenda (tm_sleeping T) \<noteq> [] \<Longrightarrow> st_base_time (tm_sleeping T) \<le> t"
    "(d, a, w) \<in> set (agenda (tm_sleeping T)) \<Longrightarrow> a < tm_next T \<and> tm_state T a \<noteq> Sl_Ready"
  using assms unfolding timers_ok_def by blast+

lemma set_state_simps [simp]:
  "tm_sleeping (set_state a s T) = tm_sleeping T" "tm_next (set_state a s T) = tm_next T" "tm_wakes (set_state a s T) = tm_wakes T"
  "tm_state (set_state a s T) b = (if b = a then s else tm_state T b)"
  by (simp_all add: set_state_def)

lemma sleep_handler_simps [simp]:
  "tm_state (sleep_handler h T) a = (if tm_state T a = Sl_Wait \<and> a = fst h then Sl_Finished else tm_state T a)"
  "tm_sleeping (sleep_handler h T) = tm_sleeping T" "tm_next (sleep_handler h T) = tm_next T"
  by (cases h; auto simp: sleep_handler_def)+

lemma handlers_result:
  "tm_state (fold sleep_handler hs T) a = (if tm_state T a = Sl_Wait \<and> a \<in> fst ` set hs then Sl_Finished else tm_state T a)"
  "tm_sleeping (fold sleep_handler hs T) = tm_sleeping T" "tm_next (fold sleep_handler hs T) = tm_next T"
  by (induction hs arbitrary: T) auto

lemma handlers_wakes_mono: "w \<in> set (tm_wakes T) \<Longrightarrow> w \<in> set (tm_wakes (fold sleep_handler hs T))"
  by (induction hs arbitrary: T) (auto simp: sleep_handler_def)

lemma handlers_wake:
  assumes "tm_state T a = Sl_Wait" "(a, w) \<in> set hs" "\<forall>(a', w') \<in> set hs. a' = a \<longrightarrow> w' = w"
  shows "w \<in> set (tm_wakes (fold sleep_handler hs T))"
  using assms
proof (induction hs arbitrary: T)
  case (Cons h hs)
  obtain b v where h: "h = (b, v)" by (cases h)
  show ?case
  proof (cases "b = a")
    case True
    then have "v = w" using Cons.prems(3) h by auto
    then have "w \<in> set (tm_wakes (sleep_handler h T))" using h True Cons.prems(1) by (simp add: sleep_handler_def)
    then show ?thesis using handlers_wakes_mono by simp
  next
    case False
    then have "tm_state (sleep_handler h T) a = Sl_Wait" "(a, w) \<in> set hs" using h Cons.prems by (auto simp: sleep_handler_def)
    then show ?thesis using Cons.IH Cons.prems(3) by simp
  qed
qed simp

text \<open>What \<open>timers_wake\<close> does to the agenda and the states.\<close>

lemma timers_wake_result:
  assumes "timers_ok (t, T)" "t \<le> clock 0" "mono clock" "\<And>i. clock i \<le> t'" "t' < 2 ^ 64"
  obtains k where
    "agenda (tm_sleeping (timers_wake clock T)) = drop k (agenda (tm_sleeping T))"
    "st_base_time (tm_sleeping (timers_wake clock T)) \<le> t' \<or> agenda (tm_sleeping (timers_wake clock T)) = []"
    "timers_wake clock T = fold sleep_handler (map snd (take k (agenda (tm_sleeping T)))) (T\<lparr>tm_sleeping := tm_sleeping (timers_wake clock T)\<rparr>)"
    "\<forall>x \<in> set (take k (agenda (tm_sleeping T))). fst x \<le> t'" "\<forall>x \<in> set (drop k (agenda (tm_sleeping T))). clock 0 < fst x"
proof (cases "st_delta_list (tm_sleeping T) = DNil")
  case True
  then have "timers_wake clock T = T" by (simp add: timers_wake_def sleeping_wake_task_def)
  moreover have "agenda (tm_sleeping T) = []" using True by simp
  ultimately show ?thesis using that[of 0] by (simp del: agenda_Nil)
next
  case False
  let ?S = "tm_sleeping T"
  have "st_base_time ?S \<le> clock 0" using assms(1,2) False by (auto simp: timers_ok_def)
  moreover obtain hs l b where w: "wake_loop clock (st_delta_list ?S) (st_base_time ?S) = (hs, l, b)"
    by (cases "wake_loop clock (st_delta_list ?S) (st_base_time ?S)") auto
  ultimately obtain k where k: "hs = map snd (take k (agenda ?S))" "dl_times b l = drop k (agenda ?S)"
    "\<forall>x \<in> set (take k (agenda ?S)). fst x \<le> t'" "\<forall>x \<in> set (drop k (agenda ?S)). clock 0 < fst x" "b \<le> t'"
    using wake_loop_agenda[OF w _ assms(3-5)] by (auto simp: agenda_def)
  have T': "timers_wake clock T = fold sleep_handler hs (T\<lparr>tm_sleeping := ?S\<lparr>st_delta_list := l, st_base_time := b\<rparr>\<rparr>)"
    using w by (simp add: timers_wake_def sleeping_wake_task_def)
  then have S': "tm_sleeping (timers_wake clock T) = ?S\<lparr>st_delta_list := l, st_base_time := b\<rparr>" by (simp add: handlers_result)
  show ?thesis
  proof (rule that[of k])
    show "agenda (tm_sleeping (timers_wake clock T)) = drop k (agenda ?S)" unfolding S' using k(2) by (simp add: agenda_def)
    show "timers_wake clock T = fold sleep_handler (map snd (take k (agenda ?S))) (T\<lparr>tm_sleeping := tm_sleeping (timers_wake clock T)\<rparr>)"
      unfolding S' using T' k(1) by simp
  qed (use k S' in simp_all)
qed

lemma register_ok:
  assumes "timers_ok (t, T)" "t \<le> t'" "tm_state T a = Sl_Ready" "a < tm_next T"
    "agenda S = agenda_insert d (a, w) (agenda (tm_sleeping T))" "st_base_time S \<le> t'"
  shows "timers_ok (t', (set_state a Sl_Wait T)\<lparr>tm_sleeping := S\<rparr>)" "registered a w d (t', (set_state a Sl_Wait T)\<lparr>tm_sleeping := S\<rparr>)"
proof -
  have "\<forall>(d', a', w') \<in> set (agenda (tm_sleeping T)). a' < tm_next T \<and> a' \<noteq> a"
    using timers_okD(2)[OF assms(1)] assms(3) by blast
  then show "timers_ok (t', (set_state a Sl_Wait T)\<lparr>tm_sleeping := S\<rparr>)" "registered a w d (t', (set_state a Sl_Wait T)\<lparr>tm_sleeping := S\<rparr>)"
    using assms by (auto simp: timers_ok_def registered_def split: prod.splits)
qed

lemma timers_ok_later: "timers_ok (t, T) \<Longrightarrow> t \<le> t' \<Longrightarrow> timers_ok (t', T)"
  by (rule timers_okI) (auto dest: timers_okD)

lemma alloc_ok:
  assumes "timers_ok (t, T)" "t \<le> t'"
  shows "timers_ok (t', (set_state (tm_next T) Sl_Ready T)\<lparr>tm_next := Suc (tm_next T)\<rparr>)"
  by (rule timers_okI) (use timers_okD[OF assms(1)] assms(2) in fastforce)+

lemma sleep_poll_ok:
  assumes "timers_ok (t, T)" "sleep_poll t' w sl T = (p, T')" "t \<le> t'" "t' + sl_dur sl < 2 ^ 64" "sl_state sl < tm_next T"
  shows "timers_ok (t', T')" "tm_state T (sl_state sl) = Sl_Ready \<Longrightarrow> registered (sl_state sl) w (t' + sl_dur sl) (t', T')"
proof -
  let ?S = "sleep_task t' (sl_state sl, w) (sl_dur sl) (tm_sleeping T)"
  have S: "agenda ?S = agenda_insert (t' + sl_dur sl) (sl_state sl, w) (agenda (tm_sleeping T))" "st_base_time ?S \<le> t'"
    using sleep_task_agenda[of "tm_sleeping T" t' "sl_dur sl" "(sl_state sl, w)"] timers_okD(1)[OF assms(1)] assms(3,4)
    by (blast intro: order_trans)+
  show "timers_ok (t', T')" "tm_state T (sl_state sl) = Sl_Ready \<Longrightarrow> registered (sl_state sl) w (t' + sl_dur sl) (t', T')"
    using assms(2) register_ok[OF assms(1,3) _ assms(5) S] timers_ok_later[OF assms(1,3)]
    by (auto simp: sleep_poll_def split: sleep_state.splits)
qed

lemma sleep_until_poll_ok:
  assumes "timers_ok (t, T)" "sleep_until_poll t' w su T = (p, T')" "t \<le> t'" "su_next su < 2 ^ 64" "su_state su < tm_next T"
  shows "timers_ok (t', T')"
proof -
  let ?S = "sleep_until_task t' (su_state su, w) (su_next su) (tm_sleeping T)"
  obtain d where S: "agenda ?S = agenda_insert d (su_state su, w) (agenda (tm_sleeping T))" "st_base_time ?S \<le> t'"
    using sleep_until_task_agenda[of "tm_sleeping T" t' "su_next su" "(su_state su, w)"] timers_okD(1)[OF assms(1)] assms(3,4) by (blast intro: order_trans)
  show ?thesis
    using assms(2) register_ok(1)[OF assms(1,3) _ assms(5) S] timers_ok_later[OF assms(1,3)]
    by (auto simp: sleep_until_poll_def split: sleep_state.splits)
qed

lemma wake_ok:
  assumes "timers_ok (t, T)" "t \<le> clock 0" "mono clock" "\<And>i. clock i \<le> t'" "t' < 2 ^ 64"
  shows "timers_ok (t', timers_wake clock T)"
proof -
  obtain k where k: "agenda (tm_sleeping (timers_wake clock T)) = drop k (agenda (tm_sleeping T))"
    "st_base_time (tm_sleeping (timers_wake clock T)) \<le> t' \<or> agenda (tm_sleeping (timers_wake clock T)) = []"
    "timers_wake clock T = fold sleep_handler (map snd (take k (agenda (tm_sleeping T)))) (T\<lparr>tm_sleeping := tm_sleeping (timers_wake clock T)\<rparr>)"
    by (rule timers_wake_result[OF assms])
  have keep: "tm_next (timers_wake clock T) = tm_next T" "tm_state T a \<noteq> Sl_Ready \<Longrightarrow> tm_state (timers_wake clock T) a \<noteq> Sl_Ready" for a
    by (subst k(3); simp add: handlers_result)+
  have sub: "x \<in> set (agenda (tm_sleeping (timers_wake clock T))) \<Longrightarrow> x \<in> set (agenda (tm_sleeping T))" for x
    unfolding k(1) by (rule in_set_dropD)
  show ?thesis
  proof (rule timers_okI)
    show "a < tm_next (timers_wake clock T) \<and> tm_state (timers_wake clock T) a \<noteq> Sl_Ready"
      if "(d, a, w) \<in> set (agenda (tm_sleeping (timers_wake clock T)))" for d a w
      using timers_okD(2)[OF assms(1) sub[OF that]] keep(2)[of a] unfolding keep(1) by blast
  qed (use k(2) in blast)
qed

lemma cancel_ok:
  assumes "timers_ok (t, T)" "t \<le> t'"
  shows "timers_ok (t', sleep_cancel a T)" "timers_ok (t', sleep_drop a T)"
proof -
  have "timers_ok (t', set_state a Sl_Canceled T)"
    by (rule timers_okI) (use timers_okD[OF assms(1)] assms(2) in \<open>auto intro: order_trans\<close>)
  then show "timers_ok (t', sleep_cancel a T)" "timers_ok (t', sleep_drop a T)"
    using timers_ok_later[OF assms] by (simp_all add: sleep_cancel_def sleep_drop_def split: sleep_state.splits)
qed

lemma timer_step_ok: "timer_step s s' \<Longrightarrow> timers_ok s \<Longrightarrow> timers_ok s'"
proof (induction rule: timer_step.induct)
  case (new dur T sl T' t t')
  then show ?case using alloc_ok by (auto simp: sleep_new_def)
next
  case (until_new next_time T su T' t t')
  then show ?case using alloc_ok by (auto simp: sleep_until_new_def)
qed (blast intro: cancel_ok sleep_poll_ok sleep_until_poll_ok wake_ok)+

lemma registeredI:
  assumes "a < tm_next T" "tm_state T a \<noteq> Sl_Ready" "tm_state T a = Sl_Wait \<Longrightarrow> (d, a, w) \<in> set (agenda (tm_sleeping T))"
    "\<And>d' w'. (d', a, w') \<in> set (agenda (tm_sleeping T)) \<Longrightarrow> d' = d \<and> w' = w" "tm_state T a = Sl_Finished \<Longrightarrow> d \<le> t"
  shows "registered a w d (t, T)"
  unfolding registered_def prod.case by (intro conjI allI impI) (use assms(1-3,5) assms(4) in blast)+

lemma registeredD:
  assumes "registered a w d (t, T)"
  shows "a < tm_next T" "tm_state T a \<noteq> Sl_Ready" "tm_state T a = Sl_Wait \<Longrightarrow> (d, a, w) \<in> set (agenda (tm_sleeping T))"
    "(d', a, w') \<in> set (agenda (tm_sleeping T)) \<Longrightarrow> d' = d \<and> w' = w" "tm_state T a = Sl_Finished \<Longrightarrow> d \<le> t"
  using assms unfolding registered_def prod.case by simp_all

text \<open>A step that keeps the entries of a sleep and its state, or cancels it, keeps its registration.\<close>

lemma registered_keep:
  assumes "registered a w d (t, T)" "t \<le> t'" "tm_next T \<le> tm_next T'" "tm_state T' a = tm_state T a \<or> tm_state T' a = Sl_Canceled"
    "\<And>d w. (d, a, w) \<in> set (agenda (tm_sleeping T')) \<longleftrightarrow> (d, a, w) \<in> set (agenda (tm_sleeping T))"
  shows "registered a w d (t', T')"
proof (rule registeredI)
  note r = registeredD[OF assms(1)]
  show "a < tm_next T'" using r(1) assms(3) by simp
  show "tm_state T' a \<noteq> Sl_Ready" using r(2) assms(4) by auto
  show "d' = d \<and> w' = w" if "(d', a, w') \<in> set (agenda (tm_sleeping T'))" for d' w'
    using that r(4) unfolding assms(5) by blast
  show "(d, a, w) \<in> set (agenda (tm_sleeping T'))" if "tm_state T' a = Sl_Wait"
    using that r(3) assms(4) unfolding assms(5) by (metis sleep_state.distinct(7))
  show "d \<le> t'" if "tm_state T' a = Sl_Finished"
    using that r(5) assms(2,4) by (metis order_trans sleep_state.distinct(11))
qed

lemma registered_later: "registered a w d (t, T) \<Longrightarrow> t \<le> t' \<Longrightarrow> registered a w d (t', T)"
  by (erule registered_keep) simp_all

lemma registered_alloc:
  assumes "registered a w d (t, T)" "t \<le> t'"
  shows "registered a w d (t', (set_state (tm_next T) Sl_Ready T)\<lparr>tm_next := Suc (tm_next T)\<rparr>)"
  using assms by (rule registered_keep) (use registeredD(1)[OF assms(1)] in simp_all)

lemma registered_other:
  assumes "registered a w d (t, T)" "t \<le> t'" "tm_state T b = Sl_Ready"
    "agenda S = agenda_insert d' (b, w') (agenda (tm_sleeping T))"
  shows "registered a w d (t', (set_state b Sl_Wait T)\<lparr>tm_sleeping := S\<rparr>)"
proof -
  have "b \<noteq> a" using assms(3) registeredD(2)[OF assms(1)] by blast
  then show ?thesis using assms(4) by (intro registered_keep[OF assms(1,2)]) simp_all
qed

lemma registered_cancel:
  assumes "registered a w d (t, T)" "t \<le> t'"
  shows "registered a w d (t', sleep_cancel b T)" "registered a w d (t', sleep_drop b T)"
proof -
  have "registered a w d (t', set_state b Sl_Canceled T)" by (rule registered_keep[OF assms]) simp_all
  then show "registered a w d (t', sleep_cancel b T)" "registered a w d (t', sleep_drop b T)"
    using registered_later[OF assms] by (simp_all add: sleep_cancel_def sleep_drop_def split: sleep_state.splits)
qed

lemma registered_poll:
  assumes "timers_ok (t, T)" "registered a w d (t, T)" "t \<le> t'"
  shows "sleep_poll t' w' sl T = (p, T') \<Longrightarrow> t' + sl_dur sl < 2 ^ 64 \<Longrightarrow> registered a w d (t', T')"
    and "sleep_until_poll t' w' su T = (p', T') \<Longrightarrow> su_next su < 2 ^ 64 \<Longrightarrow> registered a w d (t', T')"
proof -
  have b: "agenda (tm_sleeping T) \<noteq> [] \<Longrightarrow> st_base_time (tm_sleeping T) \<le> t'" using timers_okD(1)[OF assms(1)] assms(3) by (blast intro: order_trans)
  show "sleep_poll t' w' sl T = (p, T') \<Longrightarrow> t' + sl_dur sl < 2 ^ 64 \<Longrightarrow> registered a w d (t', T')"
    using registered_other[OF assms(2,3) _ sleep_task_agenda(1)[OF b, of "sl_dur sl" "(sl_state sl, w')"]] registered_later[OF assms(2,3)]
    by (auto simp: sleep_poll_def split: sleep_state.splits)
  assume su: "sleep_until_poll t' w' su T = (p', T')" "su_next su < 2 ^ 64"
  obtain e where "agenda (sleep_until_task t' (su_state su, w') (su_next su) (tm_sleeping T)) = agenda_insert e (su_state su, w') (agenda (tm_sleeping T))"
    using sleep_until_task_agenda[OF b su(2)] by blast
  then show "registered a w d (t', T')"
    using su(1) registered_other[OF assms(2,3), of "su_state su" _ e w'] registered_later[OF assms(2,3)]
    by (auto simp: sleep_until_poll_def split: sleep_state.splits)
qed

text \<open>Waking finishes the sleep when its time has come, and calls its waker.\<close>

lemma registered_wake:
  assumes "timers_ok (t, T)" "registered a w d (t, T)" "t \<le> clock 0" "mono clock" "\<And>i. clock i \<le> t'" "t' < 2 ^ 64"
  shows "registered a w d (t', timers_wake clock T)"
    and "tm_state T a = Sl_Wait \<Longrightarrow> d \<le> clock 0 \<Longrightarrow> tm_state (timers_wake clock T) a = Sl_Finished \<and> w \<in> set (tm_wakes (timers_wake clock T))"
proof -
  let ?A = "agenda (tm_sleeping T)" and ?T' = "timers_wake clock T"
  obtain k where k: "agenda (tm_sleeping ?T') = drop k ?A"
    "?T' = fold sleep_handler (map snd (take k ?A)) (T\<lparr>tm_sleeping := tm_sleeping ?T'\<rparr>)"
    "\<forall>x \<in> set (take k ?A). fst x \<le> t'" "\<forall>x \<in> set (drop k ?A). clock 0 < fst x"
    by (rule timers_wake_result[OF assms(1,3-6)])
  note r = registeredD[OF assms(2)]
  have kept: "x \<in> set ?A \<Longrightarrow> x \<notin> set (take k ?A) \<Longrightarrow> x \<in> set (drop k ?A)" for x
    by (metis append_take_drop_id Un_iff set_append)
  have fired: "(d, a, w) \<in> set (take k ?A) \<and> v = w" if "(e, a, v) \<in> set (take k ?A)" for e v
    using r(4)[OF in_set_takeD[OF that]] that by blast
  have st: "tm_state ?T' a = (if tm_state T a = Sl_Wait \<and> a \<in> fst ` snd ` set (take k ?A) then Sl_Finished else tm_state T a)"
    "tm_next ?T' = tm_next T" by (subst k(2), simp add: handlers_result)+
  have mem: "a \<in> fst ` snd ` set (take k ?A) \<longleftrightarrow> (d, a, w) \<in> set (take k ?A)"
    using fired by force
  show "registered a w d (t', ?T')"
  proof (rule registeredI)
    show "(d, a, w) \<in> set (agenda (tm_sleeping ?T'))" if "tm_state ?T' a = Sl_Wait"
      using that kept[of "(d, a, w)"] r(3) unfolding k(1) st(1) mem by (metis sleep_state.distinct(9))
    show "d \<le> t'" if "tm_state ?T' a = Sl_Finished"
    proof (cases "tm_state T a = Sl_Finished")
      case True
      then show ?thesis using r(5) assms(3) assms(5)[of 0] by simp
    next
      case False
      then have "(d, a, w) \<in> set (take k ?A)" using that unfolding st(1) mem by metis
      then show ?thesis using k(3) by fastforce
    qed
    show "d' = d \<and> w' = w" if "(d', a, w') \<in> set (agenda (tm_sleeping ?T'))" for d' w'
      using r(4) in_set_dropD that unfolding k(1) by fast
  qed (use r(1,2) st in \<open>auto split: if_splits\<close>)
  assume wait: "tm_state T a = Sl_Wait" "d \<le> clock 0"
  have m: "(d, a, w) \<in> set (take k ?A)" using kept[OF r(3)[OF wait(1)]] k(4) wait(2) by fastforce
  have "tm_state ?T' a = Sl_Finished" using wait(1) m unfolding st(1) mem by simp
  moreover have "w \<in> set (tm_wakes ?T')"
  proof (subst k(2), rule handlers_wake)
    show "(a, w) \<in> set (map snd (take k ?A))" using m by force
    show "\<forall>(a', w') \<in> set (map snd (take k ?A)). a' = a \<longrightarrow> w' = w" using fired by fastforce
  qed (use wait(1) in simp)
  ultimately show "tm_state ?T' a = Sl_Finished \<and> w \<in> set (tm_wakes ?T')" by blast
qed

lemma registered_step: "timer_step s s' \<Longrightarrow> timers_ok s \<Longrightarrow> registered a w d s \<Longrightarrow> registered a w d s'"
proof (induction rule: timer_step.induct)
  case (new dur T sl T' t t')
  then show ?case using registered_alloc by (auto simp: sleep_new_def)
next
  case (until_new next_time T su T' t t')
  then show ?case using registered_alloc by (auto simp: sleep_until_new_def)
next
  case (poll t' waker sl T p T' t)
  then show ?case using registered_poll(1) by blast
next
  case (until_poll t' waker su T p T' t)
  then show ?case using registered_poll(2) by blast
next
  case (wake t clock t' T)
  then show ?case using registered_wake(1) by blast
qed (blast intro: registered_cancel)+

lemma registered_run: "timer_step\<^sup>*\<^sup>* s s' \<Longrightarrow> timers_ok s \<Longrightarrow> registered a w d s \<Longrightarrow> registered a w d s' \<and> timers_ok s'"
  by (induction rule: rtranclp_induct) (use registered_step timer_step_ok in blast)+

lemma timers_reachable_ok: "timer_step\<^sup>*\<^sup>* (t0, timers_boot) s \<Longrightarrow> timers_ok s"
proof (induction rule: rtranclp_induct)
  case base
  show ?case by (rule timers_okI) (simp_all add: timers_boot_def sleeping_new_def agenda_def)
qed (use timer_step_ok in blast)

section \<open>Properties\<close>

lemma sleep_registers:
  assumes "timers_ok (t0, T)" "tm_state T (sl_state sl) = Sl_Ready" "sl_state sl < tm_next T" "t0 \<le> t1" "t1 + sl_dur sl < 2 ^ 64"
    "sleep_poll t1 w sl T = (p, T1)" "timer_step\<^sup>*\<^sup>* (t1, T1) (t, T2)"
  shows "p = Pending \<and> registered (sl_state sl) w (t1 + sl_dur sl) (t, T2) \<and> timers_ok (t, T2)"
proof -
  have "p = Pending" using assms(2,6) by (simp add: sleep_poll_def)
  moreover have "timers_ok (t1, T1)" "registered (sl_state sl) w (t1 + sl_dur sl) (t1, T1)"
    using sleep_poll_ok[OF assms(1,6,4,5,3)] assms(2) by blast+
  ultimately show ?thesis using registered_run[OF assms(7)] by blast
qed

lemma poll_finished: "tm_state T (sl_state sl) = Sl_Finished \<Longrightarrow> sleep_poll t w sl T = (Ready Sl_Finished, T)"
  "tm_state T (sl_state sl) = Sl_Wait \<Longrightarrow> sleep_poll t w sl T = (Pending, T)"
  by (simp_all add: sleep_poll_def)

text \<open>A sleep of 5 nanoseconds by task 9, from the start of the machine: created, polled, and woken at the time 5.\<close>

definition nap :: sleep where
  "nap = \<lparr>sl_state = 0, sl_dur = 5\<rparr>"

definition nap_new :: timers where
  "nap_new = snd (sleep_new 5 timers_boot)"

definition nap_wait :: timers where
  "nap_wait = snd (sleep_poll 0 9 nap nap_new)"

definition nap_done :: timers where
  "nap_done = timers_wake (\<lambda>_. 5) nap_wait"

lemma nap_states:
  "sleep_new 5 timers_boot = (nap, nap_new)" "tm_state nap_new 0 = Sl_Ready" "tm_next nap_new = 1"
  "sleep_poll 0 9 nap nap_new = (Pending, nap_wait)" "tm_state nap_wait 0 = Sl_Wait" "tm_state nap_done 0 = Sl_Finished"
  by (simp_all add: nap_def nap_new_def nap_wait_def nap_done_def sleep_new_def timers_boot_def sleep_poll_def timers_wake_def
    sleeping_wake_task_def sleep_task_def sleeping_new_def dl_insert_def elapsed_def sleep_handler_def)

lemma nap_run: "timer_step\<^sup>*\<^sup>* (0, timers_boot) (0, nap_new)" "timer_step\<^sup>*\<^sup>* (0, nap_wait) (5, nap_done)"
proof -
  show "timer_step\<^sup>*\<^sup>* (0, timers_boot) (0, nap_new)" using timer_step.new[OF nap_states(1) le_refl] by blast
  have "timer_step (0, nap_wait) (5, timers_wake (\<lambda>_. 5) nap_wait)" by (rule timer_step.wake) (simp_all add: mono_def)
  then show "timer_step\<^sup>*\<^sup>* (0, nap_wait) (5, nap_done)" unfolding nap_done_def by blast
qed

text \<open>
  C20. A sleep is neither early nor late. A task polls \<open>sleep(dur)\<close> at the time \<open>t0\<close>; other tasks then sleep, cancel and wake in any
  way. As long as the sleep is not cancelled, it stays pending before \<open>t0 + dur\<close>; and the first call of \<open>wake_task\<close> at
  \<open>t0 + dur\<close> or later finishes it and calls the waker of the task if that has not happened before.
\<close>

theorem sleep_wakes_on_time:
  assumes "timer_step\<^sup>*\<^sup>* (0, timers_boot) (t0, T)" "tm_state T (sl_state sl) = Sl_Ready" "sl_state sl < tm_next T"
    "t0 + sl_dur sl < 2 ^ 64" "sleep_poll t0 w sl T = (p, T1)" "timer_step\<^sup>*\<^sup>* (t0, T1) (t, T2)"
    "tm_state T2 (sl_state sl) \<noteq> Sl_Canceled" "t \<le> t'" "t' < 2 ^ 64"
  shows "p = Pending
    \<and> (t < t0 + sl_dur sl \<longrightarrow> sleep_poll t w' sl T2 = (Pending, T2))
    \<and> (t0 + sl_dur sl \<le> t' \<longrightarrow> fst (sleep_poll t' w' sl (timers_wake (\<lambda>_. t') T2)) = Ready Sl_Finished
        \<and> (tm_state T2 (sl_state sl) = Sl_Wait \<longrightarrow> w \<in> set (tm_wakes (timers_wake (\<lambda>_. t') T2))))"
proof -
  let ?a = "sl_state sl" and ?d = "t0 + sl_dur sl" and ?T = "timers_wake (\<lambda>_. t') T2"
  have reg: "p = Pending" "registered ?a w ?d (t, T2)" "timers_ok (t, T2)"
    using sleep_registers[OF timers_reachable_ok[OF assms(1)] assms(2,3) le_refl assms(4-6)] by blast+
  consider (wait) "tm_state T2 ?a = Sl_Wait" | (finished) "tm_state T2 ?a = Sl_Finished"
    using registeredD(2)[OF reg(2)] assms(7) by (cases "tm_state T2 ?a") auto
  then show ?thesis
  proof cases
    case wait
    have "?d \<le> t' \<Longrightarrow> tm_state ?T ?a = Sl_Finished \<and> w \<in> set (tm_wakes ?T)"
      using registered_wake(2)[OF reg(3,2) _ _ _ assms(9), of "\<lambda>_. t'"] wait assms(8) by (simp add: mono_def)
    then show ?thesis using reg(1) wait by (auto simp: poll_finished)
  next
    case finished
    have "?d \<le> t" using registeredD(5)[OF reg(2) finished] .
    moreover have "tm_state ?T ?a = Sl_Finished"
      using finished by (simp add: timers_wake_def handlers_result split: prod.splits)
    ultimately show ?thesis using reg(1) finished by (simp add: poll_finished)
  qed
qed

theorem sleep_wakes_on_time_witness:
  "timer_step\<^sup>*\<^sup>* (0, timers_boot) (0, nap_new) \<and> sleep_poll 0 9 nap nap_new = (Pending, nap_wait)
    \<and> sleep_poll 0 9 nap nap_wait = (Pending, nap_wait) \<and> fst (sleep_poll 5 9 nap nap_done) = Ready Sl_Finished
    \<and> 9 \<in> set (tm_wakes nap_done)"
proof -
  have "sl_state nap = 0" "sl_dur nap = 5" by (simp_all add: nap_def)
  then show ?thesis
    using sleep_wakes_on_time[OF nap_run(1) _ _ _ nap_states(4) rtranclp.rtrancl_refl, of 5 9] nap_run(1) nap_states
    by (simp add: nap_done_def)
qed

text \<open>
  C33. An interval ticks on schedule. Polling an interval whose next tick is due at \<open>target\<close> waits at first, even if that time has passed;
  the poll that later returns the tick returns exactly \<open>target\<close>, not before \<open>target\<close>, and sets the next target to one
  period after it, however late the poll was. So tick number \<open>k\<close> of an interval reports its start plus \<open>k\<close> periods.
\<close>

theorem interval_ticks_on_schedule:
  assumes "timer_step\<^sup>*\<^sup>* (0, timers_boot) (t0, T)" "iv_delay iv = None" "iv_missed_tick_behavior iv = Burst"
    "iv_next_tick_target iv + t1 < 2 ^ 64" "t0 \<le> t1"
    "interval_poll_next t0 t1 u w iv T = Inr (p, iv1, T1)" "timer_step\<^sup>*\<^sup>* (t1, T1) (t, T2)"
    "tm_state T2 (sl_state (the (iv_delay iv1))) \<noteq> Sl_Canceled"
    "interval_poll_next v t t w' iv1 T2 = Inr (Ready tick, iv2, T3)"
  shows "p = Pending \<and> tick = iv_next_tick_target iv \<and> tick \<le> t
    \<and> iv2 = iv\<lparr>iv_next_tick_target := iv_next_tick_target iv + iv_period iv\<rparr>"
proof -
  let ?target = "iv_next_tick_target iv"
  obtain sl T' where new: "sleep_new (saturating_duration_since ?target t0) T = (sl, T')"
    by (cases "sleep_new (saturating_duration_since ?target t0) T")
  have sl: "tm_state T' (sl_state sl) = Sl_Ready" "sl_state sl < tm_next T'" "sl_dur sl = ?target - t0"
    using new assms(4) by (auto simp: sleep_new_def saturating_duration_since_def)
  have ok: "timers_ok (t0, T')" using timer_step_ok[OF timer_step.new[OF new le_refl]] timers_reachable_ok[OF assms(1)] by blast
  have T1: "p = Pending" "iv1 = iv\<lparr>iv_delay := Some sl\<rparr>" "sleep_poll t1 w sl T' = (Pending, T1)"
    using assms(2,6) new sl(1) by (auto simp: interval_poll_next_def sleep_poll_def)
  have "t1 + sl_dur sl < 2 ^ 64" using sl(3) assms(4) by simp
  then have reg: "registered (sl_state sl) w (t1 + sl_dur sl) (t, T2)"
    using sleep_registers[OF ok sl(1,2) assms(5) _ T1(3) assms(7)] by blast
  have iv2: "tm_state T2 (sl_state sl) \<noteq> Sl_Wait" "tick = ?target"
      "iv2 = iv1\<lparr>iv_next_tick_target := next_target t ?target iv1, iv_delay := None\<rparr>"
    using assms(9) T1(2) registeredD(2)[OF reg] by (auto simp: interval_poll_next_def sleep_poll_def Let_def split: sleep_state.splits)
  have "tm_state T2 (sl_state sl) = Sl_Finished"
    using iv2(1) registeredD(2)[OF reg] assms(8) T1(2) by (cases "tm_state T2 (sl_state sl)") simp_all
  then have "?target \<le> t" using registeredD(5)[OF reg] sl(3) assms(5) by linarith
  moreover have "iv2 = iv\<lparr>iv_next_tick_target := ?target + iv_period iv\<rparr>"
    using iv2(3) T1(2) assms(2,3) by (cases iv) (simp add: next_target_def instant_add_def)
  ultimately show ?thesis using T1(1) iv2(2) by blast
qed

theorem interval_ticks_on_schedule_witness:
  "\<exists>iv. interval_at 5 10 = Inr iv
    \<and> interval_poll_next 0 0 0 9 iv timers_boot = Inr (Pending, iv\<lparr>iv_delay := Some nap\<rparr>, nap_wait)
    \<and> interval_poll_next 5 5 5 9 (iv\<lparr>iv_delay := Some nap\<rparr>) nap_done = Inr (Ready 5, iv\<lparr>iv_next_tick_target := 15\<rparr>, nap_done)"
proof -
  let ?iv = "\<lparr>iv_next_tick_target = 5, iv_delay = None, iv_period = 10, iv_missed_tick_behavior = Burst\<rparr>"
  let ?iv1 = "?iv\<lparr>iv_delay := Some nap\<rparr>"
  have at: "interval_at 5 10 = Inr ?iv" by (simp add: interval_at_def)
  have nap: "sl_state nap = 0" "sl_dur nap = 5" by (simp_all add: nap_def)
  have 1: "interval_poll_next 0 0 0 9 ?iv timers_boot = Inr (Pending, ?iv1, nap_wait)"
    using nap_states(1,4) by (simp add: interval_poll_next_def saturating_duration_since_def)
  have drop: "sleep_drop 0 nap_done = nap_done" using nap_states(6) by (simp add: sleep_drop_def)
  have "\<exists>iv2. interval_poll_next 5 5 5 9 ?iv1 nap_done = Inr (Ready 5, iv2, nap_done)"
    using nap_states(6) nap drop by (simp add: interval_poll_next_def poll_finished Let_def)
  then obtain iv2 where 2: "interval_poll_next 5 5 5 9 ?iv1 nap_done = Inr (Ready 5, iv2, nap_done)" by blast
  have "iv2 = ?iv\<lparr>iv_next_tick_target := 15\<rparr>"
    using interval_ticks_on_schedule[OF rtranclp.rtrancl_refl _ _ _ _ 1 nap_run(2) _ 2] nap_states(6) nap by simp
  then show ?thesis using at 1 2 by blast
qed

end
