(* ===== verification/Async_Sync.thy ===== *)
theory Async_Sync
  imports Channels
begin

text \<open>
  Synchronization between tasks: the asynchronous lock \<open>AsyncLock\<close> (\<open>awkernel_async_lib/src/sync/mutex.rs\<close>) and the \<open>Barrier\<close>
  (\<open>sync/barrier.rs\<close>), which is built from an asynchronous lock and a topic of the publish and subscribe module. The data that the
  lock protects is kept beside it.
\<close>

section \<open>The asynchronous lock\<close>

record async_lock =
  al_lock_var :: bool
  al_wakers :: "nat list"

definition al_new :: async_lock where
  "al_new = \<lparr>al_lock_var = False, al_wakers = []\<rparr>"

text \<open>\<open>AsyncLockFuture::poll\<close>; \<open>Ready\<close> stands for the guard.\<close>

definition al_poll :: "nat \<Rightarrow> async_lock \<Rightarrow> unit poll \<times> async_lock" where
  "al_poll waker L =
     (if \<not> al_lock_var L then (Ready (), L\<lparr>al_lock_var := True\<rparr>)
      else (Pending, L\<lparr>al_wakers := al_wakers L @ [waker]\<rparr>))"

text \<open>Dropping the guard; the first result are the called wakers.\<close>

definition al_drop_guard :: "async_lock \<Rightarrow> nat list \<times> async_lock" where
  "al_drop_guard L =
     (let L = L\<lparr>al_lock_var := False\<rparr> in
      case al_wakers L of [] \<Rightarrow> ([], L) | w # ws \<Rightarrow> ([w], L\<lparr>al_wakers := ws\<rparr>))"

section \<open>The barrier\<close>









section \<open>Mutual exclusion\<close>

text \<open>
  The tasks around a lock: those that hold a guard, and those that were woken and have not polled since. A task polls the future of
  \<open>lock\<close>, or drops its guard.
\<close>

record lock_sys =
  ls_lock :: async_lock
  ls_holders :: "nat list"
  ls_woken :: "nat list"

inductive al_step :: "lock_sys \<Rightarrow> lock_sys \<Rightarrow> bool" where
  acquire: "al_poll t (ls_lock s) = (Ready g, L) \<Longrightarrow>
    al_step s \<lparr>ls_lock = L, ls_holders = t # ls_holders s, ls_woken = remove1 t (ls_woken s)\<rparr>"
| wait: "al_poll t (ls_lock s) = (Pending, L) \<Longrightarrow>
    al_step s \<lparr>ls_lock = L, ls_holders = ls_holders s, ls_woken = remove1 t (ls_woken s)\<rparr>"
| release: "t \<in> set (ls_holders s) \<Longrightarrow> al_drop_guard (ls_lock s) = (ws, L) \<Longrightarrow>
    al_step s \<lparr>ls_lock = L, ls_holders = remove1 t (ls_holders s), ls_woken = ls_woken s @ ws\<rparr>"

definition lock_boot :: lock_sys where
  "lock_boot = \<lparr>ls_lock = al_new, ls_holders = [], ls_woken = []\<rparr>"

definition lock_ok :: "lock_sys \<Rightarrow> bool" where
  "lock_ok s \<longleftrightarrow> length (ls_holders s) = (if al_lock_var (ls_lock s) then 1 else 0)
     \<and> (\<not> al_lock_var (ls_lock s) \<and> al_wakers (ls_lock s) \<noteq> [] \<longrightarrow> ls_woken s \<noteq> [])"

lemma al_step_ok: "al_step s s' \<Longrightarrow> lock_ok s \<Longrightarrow> lock_ok s'"
  by (induction rule: al_step.induct)
    (auto simp: lock_ok_def al_poll_def al_drop_guard_def Let_def length_remove1 split: if_splits list.splits)

text \<open>
  C21. At most one task holds the guard of an asynchronous lock, and exactly while the lock variable is set. Nobody is stranded:
  when tasks wait for the lock and nobody holds it, some task has been woken that has not polled the lock since.
\<close>

theorem async_lock_excludes:
  assumes "al_step\<^sup>*\<^sup>* lock_boot s"
  shows "length (ls_holders s) \<le> 1 \<and> (al_lock_var (ls_lock s) \<longleftrightarrow> ls_holders s \<noteq> [])
    \<and> (ls_holders s = [] \<and> al_wakers (ls_lock s) \<noteq> [] \<longrightarrow> ls_woken s \<noteq> [])"
proof -
  have "lock_ok s" using assms
  proof (induction rule: rtranclp_induct)
    case base
    show ?case by (simp add: lock_ok_def lock_boot_def al_new_def)
  qed (use al_step_ok in blast)
  then show ?thesis by (auto simp: lock_ok_def split: if_splits)
qed

theorem async_lock_excludes_witness:
  "\<exists>s. al_step\<^sup>*\<^sup>* lock_boot s \<and> ls_holders s = [4] \<and> al_lock_var (ls_lock s)"
proof -
  have "al_step lock_boot \<lparr>ls_lock = al_new\<lparr>al_lock_var := True\<rparr>, ls_holders = [4], ls_woken = []\<rparr>"
    using al_step.acquire[of 4 lock_boot "()"] by (simp add: al_poll_def lock_boot_def al_new_def)
  then have "al_step\<^sup>*\<^sup>* lock_boot \<lparr>ls_lock = al_new\<lparr>al_lock_var := True\<rparr>, ls_holders = [4], ls_woken = []\<rparr>" by blast
  then show ?thesis using async_lock_excludes by (intro exI[of _ "\<lparr>ls_lock = al_new\<lparr>al_lock_var := True\<rparr>, ls_holders = [4], ls_woken = []\<rparr>"]) auto
qed

section \<open>Using a barrier twice\<close>











end
