(* ===== verification/Slices.thy ===== *)
theory Slices
  imports Aw_Prelude
begin

text \<open>Slices of arrays, as the network stack uses them: borrowing a range, writing it back and copying into it, with the panics of Rust.\<close>

definition slice :: "'a list \<Rightarrow> nat \<Rightarrow> nat \<Rightarrow> 'a list rust" where
  "slice buf a b = (if a \<le> b \<and> b \<le> length buf then Inr (take (b - a) (drop a buf)) else Inl Index_Out_Of_Bounds)"

text \<open>Writing back a slice that was borrowed mutably.\<close>

definition put :: "'a list \<Rightarrow> nat \<Rightarrow> 'a list \<Rightarrow> 'a list" where
  "put buf a xs = take a buf @ xs @ drop (a + length xs) buf"

text \<open>\<open>buf[a..b].copy_from_slice(xs)\<close>.\<close>

definition copy_from_slice :: "nat \<Rightarrow> nat \<Rightarrow> 'a list \<Rightarrow> 'a list \<Rightarrow> 'a list rust" where
  "copy_from_slice a b xs buf =
     and_then (slice buf a b) (\<lambda>s. if length s = length xs then Inr (put buf a xs) else Inl Explicit_Panic)"

lemma length_put [simp]: "a + length xs \<le> length buf \<Longrightarrow> length (put buf a xs) = length buf"
  by (simp add: put_def)

lemma put_nil [simp]: "put buf a [] = buf"
  by (simp add: put_def)

lemma nth_put:
  "\<lbrakk>a + length xs \<le> length buf; i < length buf\<rbrakk>
   \<Longrightarrow> put buf a xs ! i = (if a \<le> i \<and> i < a + length xs then xs ! (i - a) else buf ! i)"
  by (auto simp: put_def nth_append)

lemma take_drop_put: "a + length xs \<le> length buf \<Longrightarrow> take (length xs) (drop a (put buf a xs)) = xs"
  by (simp add: put_def)

lemma put_put: "a + length xs + length ys \<le> length buf \<Longrightarrow> put (put buf a xs) (a + length xs) ys = put buf a (xs @ ys)"
  by (simp add: put_def ac_simps)

text \<open>A region of an array that is seen from position \<open>r\<close> on, round the end: the region at \<open>off\<close> of the rotated array is one of the array, if it does not cross the end.\<close>

lemma rotate_region_index:
  assumes "idx = (r + off) mod length s" "j < length s" "off + n \<le> length s" "idx + n \<le> length s"
  shows "off \<le> j \<and> j < off + n \<longleftrightarrow> idx \<le> (r + j) mod length s \<and> (r + j) mod length s < idx + n"
    "off \<le> j \<Longrightarrow> j < off + n \<Longrightarrow> (r + j) mod length s = idx + (j - off)"
proof -
  have fwd: "(r + (off + i)) mod length s = idx + i" if "i < n" for i
  proof -
    have "(r + (off + i)) mod length s = ((r + off) mod length s + i) mod length s" by (simp add: mod_simps add.assoc)
    then show ?thesis using assms(1,4) that by simp
  qed
  show eq: "off \<le> j \<Longrightarrow> j < off + n \<Longrightarrow> (r + j) mod length s = idx + (j - off)" using fwd[of "j - off"] by simp
  have "off \<le> j \<and> j < off + n" if "idx \<le> (r + j) mod length s" "(r + j) mod length s < idx + n"
  proof -
    let ?i = "(r + j) mod length s - idx"
    have "(r + (off + ?i)) mod length s = (r + j) mod length s" using fwd[of ?i] that by simp
    then have "(off + ?i) mod length s = j mod length s" by (simp only: nat_mod_eq_iff add.assoc add_left_cancel)
    then have "j = off + ?i" using assms(2,3) that by simp
    then show ?thesis using that by linarith
  qed
  then show "off \<le> j \<and> j < off + n \<longleftrightarrow> idx \<le> (r + j) mod length s \<and> (r + j) mod length s < idx + n" using eq by auto
qed

lemma rotate_region:
  assumes "idx = (r + off) mod length s" "off + n \<le> length s" "idx + n \<le> length s"
  shows "take n (drop idx s) = take n (drop off (rotate r s))"
    "length xs = n \<Longrightarrow> rotate r (put s idx xs) = put (rotate r s) off xs"
proof -
  show "take n (drop idx s) = take n (drop off (rotate r s))"
  proof (rule nth_equalityI)
    fix i
    assume "i < length (take n (drop idx s))"
    then have "i < n" by simp
    then have "off + i < length s" "idx + i < length s" using assms by simp_all
    moreover have "(r + (off + i)) mod length s = idx + i"
      using rotate_region_index(2)[OF assms(1) calculation(1) assms(2,3)] \<open>i < n\<close> by simp
    ultimately show "take n (drop idx s) ! i = take n (drop off (rotate r s)) ! i" using \<open>i < n\<close> by (simp add: nth_rotate)
  qed (use assms in simp)
  assume xs: "length xs = n"
  show "rotate r (put s idx xs) = put (rotate r s) off xs"
  proof (rule nth_equalityI)
    fix j
    assume "j < length (rotate r (put s idx xs))"
    then have j: "j < length s" using assms xs by simp
    let ?k = "(r + j) mod length s"
    have k: "?k < length s" using j by (intro mod_less_divisor) linarith
    have "rotate r (put s idx xs) ! j = (if idx \<le> ?k \<and> ?k < idx + n then xs ! (?k - idx) else s ! ?k)"
      using j k assms(3) xs by (simp only: nth_rotate nth_put length_put)
    also have "\<dots> = (if off \<le> j \<and> j < off + n then xs ! (j - off) else s ! ?k)"
      using rotate_region_index[OF assms(1) j assms(2,3)] by (cases "off \<le> j \<and> j < off + n") auto
    also have "\<dots> = put (rotate r s) off xs ! j" using j assms(2) xs by (simp add: nth_rotate nth_put)
    finally show "rotate r (put s idx xs) ! j = put (rotate r s) off xs ! j" .
  qed (use assms xs in simp)
qed

end
