(* ===== verification/Wire_Base.thy ===== *)
theory Wire_Base
  imports Slices
begin

text \<open>
  The basis of the wire formats of the network stack (\<open>smoltcp/src/wire\<close>): 16-bit fields of packet buffers in network byte
  order and the Internet checksum of \<open>wire/ip.rs\<close>.

  A packet is a wrapper around its buffer and is the buffer here, a list of octets. The methods of
  \<open>NetworkEndian\<close> come from the crate \<open>byteorder\<close> and are a parameter \<open>bo\<close> of the definitions; \<open>network_endian bo\<close> states
  their documentation.
\<close>

unbundle bit_operations_syntax

type_synonym buffer = "u8 list"

section \<open>Byte order\<close>

record byteorder =
  bo_read_u16 :: "buffer \<Rightarrow> u16 rust"
  bo_write_u16 :: "buffer \<Rightarrow> u16 \<Rightarrow> buffer rust"
  bo_write_u32 :: "buffer \<Rightarrow> u32 \<Rightarrow> buffer rust"

definition hi :: "u16 \<Rightarrow> u8" where
  "hi v = ucast (drop_bit 8 v)"

definition lo :: "u16 \<Rightarrow> u8" where
  "lo v = ucast v"

definition be16 :: "u8 \<Rightarrow> u8 \<Rightarrow> u16" where
  "be16 a b = push_bit 8 (ucast a) OR ucast b"

text \<open>Reading and writing at the front of a slice, big-endian; a slice that is too short panics.\<close>

definition network_endian :: "byteorder \<Rightarrow> bool" where
  "network_endian bo \<longleftrightarrow>
     (\<forall>a b s. bo_read_u16 bo (a # b # s) = Inr (be16 a b)) \<and> (\<forall>s. length s < 2 \<longrightarrow> bo_read_u16 bo s = Inl Explicit_Panic)
   \<and> (\<forall>a b s v. bo_write_u16 bo (a # b # s) v = Inr (hi v # lo v # s)) \<and> (\<forall>s v. length s < 2 \<longrightarrow> bo_write_u16 bo s v = Inl Explicit_Panic)
   \<and> (\<forall>a b c d s v. bo_write_u32 bo (a # b # c # d # s) v
        = Inr (hi (ucast (drop_bit 16 v)) # lo (ucast (drop_bit 16 v)) # hi (ucast v) # lo (ucast v) # s))
   \<and> (\<forall>s v. length s < 4 \<longrightarrow> bo_write_u32 bo s v = Inl Explicit_Panic)"

definition get_u16 :: "byteorder \<Rightarrow> nat \<Rightarrow> nat \<Rightarrow> buffer \<Rightarrow> u16 rust" where
  "get_u16 bo a b buf = and_then (slice buf a b) (bo_read_u16 bo)"

definition set_u16 :: "byteorder \<Rightarrow> nat \<Rightarrow> nat \<Rightarrow> u16 \<Rightarrow> buffer \<Rightarrow> buffer rust" where
  "set_u16 bo a b v buf = and_then (slice buf a b) (\<lambda>s. and_then (bo_write_u16 bo s v) (\<lambda>s. Inr (put buf a s)))"

text \<open>An implementation of the documentation.\<close>

definition big_endian :: byteorder where
  "big_endian = \<lparr>
     bo_read_u16 = (\<lambda>s. case s of a # b # _ \<Rightarrow> Inr (be16 a b) | _ \<Rightarrow> Inl Explicit_Panic),
     bo_write_u16 = (\<lambda>s v. case s of _ # _ # s \<Rightarrow> Inr (hi v # lo v # s) | _ \<Rightarrow> Inl Explicit_Panic),
     bo_write_u32 = (\<lambda>s v. case s of
        _ # _ # _ # _ # s \<Rightarrow> Inr (hi (ucast (drop_bit 16 v)) # lo (ucast (drop_bit 16 v)) # hi (ucast v) # lo (ucast v) # s)
      | _ \<Rightarrow> Inl Explicit_Panic)\<rparr>"

lemma big_endian_network: "network_endian big_endian"
  by (auto simp: network_endian_def big_endian_def split: list.splits)

lemma be16_hi_lo [simp]: "be16 (hi v) (lo v) = v"
  by (rule bit_word_eqI) (auto simp: be16_def hi_def lo_def bit_simps)

lemma hi_lo_be16 [simp]: "hi (be16 a b) = a" "lo (be16 a b) = b"
  by (rule bit_word_eqI; auto simp: be16_def hi_def lo_def bit_simps dest: bit_imp_le_length)+

lemma unat_be16: "unat (be16 a b) = 256 * unat a + unat b"
proof -
  have "be16 a b = push_bit 8 (ucast a) + ucast b"
    unfolding be16_def by (rule disjunctive_add[symmetric]) (auto simp: bit_simps dest: bit_imp_le_length)
  then have "be16 a b = word_of_nat (256 * unat a + unat b)" by (simp add: push_bit_eq_mult mult.commute)
  moreover have "256 * unat a + unat b < 2 ^ 16" using unsigned_less[where w = a and 'a = nat] unsigned_less[where w = b and 'a = nat] by simp
  ultimately show ?thesis by (simp only: unsigned_of_nat) (simp add: take_bit_nat_eq_self)
qed

section \<open>The Internet checksum\<close>

definition propagate_carries :: "u32 \<Rightarrow> u16" where
  "propagate_carries word =
     (let sum = drop_bit 16 word + (word AND 0xffff) in ucast (drop_bit 16 sum) + ucast sum)"

text \<open>The loop that adds two octets at a time; the result is the sum and what is left of the data.\<close>

function sum_words :: "byteorder \<Rightarrow> u32 \<Rightarrow> buffer \<Rightarrow> (u32 \<times> buffer) rust" where
  "sum_words bo accum d =
     (if length d \<ge> 2 then and_then (bo_read_u16 bo d) (\<lambda>w. sum_words bo (accum + ucast w) (drop 2 d)) else Inr (accum, d))"
  by pat_completeness auto
termination by (relation "measure (\<lambda>(bo, accum, d). length d)") auto

function sum_chunks :: "byteorder \<Rightarrow> u32 \<Rightarrow> buffer \<Rightarrow> (u32 \<times> buffer) rust" where
  "sum_chunks bo accum data =
     (if length data \<ge> 32
      then and_then (sum_words bo accum (take 32 data)) (\<lambda>(accum, _). sum_chunks bo accum (drop 32 data))
      else Inr (accum, data))"
  by pat_completeness auto
termination by (relation "measure (\<lambda>(bo, accum, data). length data)") auto

definition checksum_data :: "byteorder \<Rightarrow> buffer \<Rightarrow> u16 rust" where
  "checksum_data bo data =
     and_then (sum_chunks bo 0 data) (\<lambda>(accum, data).
     and_then (sum_words bo accum data) (\<lambda>(accum, data).
     Inr (propagate_carries (case data of [] \<Rightarrow> accum | value # _ \<Rightarrow> accum + push_bit 8 (ucast value)))))"

definition combine :: "u16 list \<Rightarrow> u16" where
  "combine checksums = propagate_carries (foldl (\<lambda>accum word. accum + ucast word) 0 checksums)"

declare sum_words.simps [simp del] sum_chunks.simps [simp del]

text \<open>The reference: the sum of the 16-bit words, with an odd octet padded by zero, as a natural number.\<close>

fun word_sum :: "buffer \<Rightarrow> nat" where
  "word_sum [] = 0"
| "word_sum [a] = 256 * unat a"
| "word_sum (a # b # s) = 256 * unat a + unat b + word_sum s"

lemma ucast_be16: "(ucast (be16 a b) :: u32) = word_of_nat (256 * unat a + unat b)"
proof -
  have "(ucast (be16 a b) :: u32) = word_of_nat (unat (be16 a b))" by simp
  then show ?thesis by (simp only: unat_be16)
qed

lemma ucast_odd: "push_bit 8 (ucast (v :: u8) :: u32) = word_of_nat (256 * unat v)"
  by (simp add: push_bit_eq_mult mult.commute)

lemma word_sum_append: "even (length xs) \<Longrightarrow> word_sum (xs @ ys) = word_sum xs + word_sum ys"
  by (induction xs rule: word_sum.induct) auto

lemma sum_words_result:
  assumes "network_endian bo"
  shows "\<exists>r. sum_words bo (word_of_nat n) d = Inr (word_of_nat (n + word_sum (take (2 * (length d div 2)) d)), r)
    \<and> r = drop (2 * (length d div 2)) d"
proof (induction d arbitrary: n rule: word_sum.induct)
  case (3 a b s)
  have "sum_words bo (word_of_nat n) (a # b # s) = sum_words bo (word_of_nat (n + (256 * unat a + unat b))) s"
    using assms by (subst sum_words.simps) (simp add: network_endian_def ucast_be16)
  then show ?case using 3[of "n + (256 * unat a + unat b)"] by (simp add: add.assoc)
qed (simp_all add: sum_words.simps)

text \<open>The two loops add up the reference sum, modulo \<open>2 ^ 32\<close>.\<close>

lemma sum_chunks_result:
  assumes "network_endian bo"
  shows "\<exists>k. even k \<and> k \<le> length d \<and> sum_chunks bo (word_of_nat n) d = Inr (word_of_nat (n + word_sum (take k d)), drop k d)"
proof (induction "length d" arbitrary: d n rule: less_induct)
  case less
  show ?case
  proof (cases "length d \<ge> 32")
    case True
    let ?m = "n + word_sum (take 32 d)"
    have len: "2 * (length (take 32 d) div 2) = 32" using True by simp
    have "sum_words bo (word_of_nat n) (take 32 d) = Inr (word_of_nat ?m, [])"
      using sum_words_result[OF assms, of n "take 32 d"] unfolding len take_take by (simp del: of_nat_add)
    then have step: "sum_chunks bo (word_of_nat n) d = sum_chunks bo (word_of_nat ?m) (drop 32 d)"
      using True by (subst sum_chunks.simps) simp
    obtain k where k: "even k" "k \<le> length (drop 32 d)"
      "sum_chunks bo (word_of_nat ?m) (drop 32 d) = Inr (word_of_nat (?m + word_sum (take k (drop 32 d))), drop k (drop 32 d))"
      using less[of "drop 32 d" ?m] True by fastforce
    have "word_sum (take (32 + k) d) = word_sum (take 32 d) + word_sum (take k (drop 32 d))"
      using word_sum_append[of "take 32 d" "take k (drop 32 d)"] True by (simp add: take_add)
    then have "n + word_sum (take (32 + k) d) = ?m + word_sum (take k (drop 32 d))" by simp
    then show ?thesis using k True unfolding step by (intro exI[of _ "32 + k"]) (simp only: drop_drop, simp add: add.commute)
  next
    case False
    then show ?thesis by (intro exI[of _ 0]) (subst sum_chunks.simps, simp)
  qed
qed

lemma checksum_data_eq:
  assumes "network_endian bo"
  shows "checksum_data bo d = Inr (propagate_carries (word_of_nat (word_sum d)))"
proof -
  obtain k where k: "even k" "k \<le> length d" "sum_chunks bo 0 d = Inr (word_of_nat (word_sum (take k d)), drop k d)"
    using sum_chunks_result[OF assms, of d 0] by auto
  define e where "e = drop k d"
  define j where "j = 2 * (length e div 2)"
  define m where "m = word_sum (take k d) + word_sum (take j e)"
  have w: "sum_words bo (word_of_nat (word_sum (take k d))) e = Inr (word_of_nat m, drop j e)"
    using sum_words_result[OF assms, of "word_sum (take k d)" e] unfolding j_def m_def by blast
  have "word_sum d = word_sum (take k d) + word_sum e"
    using word_sum_append[of "take k d" e] k(1,2) by (simp add: e_def)
  also have "word_sum e = word_sum (take j e) + word_sum (drop j e)"
    using word_sum_append[of "take j e" "drop j e"] by (simp add: j_def)
  finally have sum: "word_sum d = m + word_sum (drop j e)" by (simp add: m_def)
  have "length (drop j e) \<le> 1" by (simp add: j_def minus_mult_div_eq_mod)
  then have "drop j e = [] \<or> (\<exists>v. drop j e = [v])" by (cases "drop j e") auto
  then have "(case drop j e of [] \<Rightarrow> word_of_nat m | v # _ \<Rightarrow> word_of_nat m + push_bit 8 (ucast v)) = (word_of_nat (word_sum d) :: u32)"
    unfolding sum ucast_odd by auto
  then show ?thesis unfolding checksum_data_def k(3) e_def[symmetric] by (simp add: w)
qed

lemma unat_add_small:
  fixes x y :: "'a :: len word"
  assumes "unat x + unat y < 2 ^ LENGTH('a)"
  shows "unat (x + y) = unat x + unat y"
proof -
  have "x + y = word_of_nat (unat x + unat y)" by simp
  then show ?thesis using assms by (simp only: unsigned_of_nat) (simp add: take_bit_nat_eq_self)
qed

text \<open>
  \<open>propagate_carries\<close> reduces modulo 65535, and to zero only for zero: this is the sum in one's complement.
\<close>

lemma propagate_carries_nat:
  fixes w :: u32
  defines "s \<equiv> unat w div 65536 + unat w mod 65536"
  shows "unat (propagate_carries w) = s div 65536 + s mod 65536" "s \<le> 131070"
proof -
  have w: "unat w < 2 ^ 32" using unsigned_less[where w = w and 'a = nat] by simp
  have s: "unat w div 65536 \<le> 65535" "unat w mod 65536 \<le> 65535" using w by auto
  then show le: "s \<le> 131070" by (simp add: s_def)
  have hi_part: "unat (drop_bit 16 v) = unat v div 65536" for v :: u32 by (simp only: unat_drop_bit_eq drop_bit_nat_def) simp
  have "w AND 0xffff = take_bit 16 w" by (simp add: take_bit_eq_mask mask_eq_exp_minus_1)
  then have lo_part: "unat (w AND 0xffff) = unat w mod 65536" by (simp only: unsigned_take_bit_eq) (simp add: take_bit_eq_mod)
  let ?sum = "drop_bit 16 w + (w AND 0xffff)"
  have sum: "unat ?sum = s" using unat_add_small[of "drop_bit 16 w" "w AND 0xffff"] s unfolding hi_part lo_part s_def by simp
  have parts: "unat (ucast (drop_bit 16 ?sum) :: u16) = s div 65536" "unat (ucast ?sum :: u16) = s mod 65536"
    unfolding unsigned_ucast_eq hi_part sum take_bit_eq_mod using le by simp_all
  have "s div 65536 + s mod 65536 \<le> 65535"
  proof (cases "s < 65536")
    case False
    then have "s div 65536 = 1" "s mod 65536 = s - 65536" using le by (simp_all add: div_nat_eqI mod_if)
    then show ?thesis using le by simp
  qed simp
  then show "unat (propagate_carries w) = s div 65536 + s mod 65536"
    using unat_add_small[of "ucast (drop_bit 16 ?sum) :: u16" "ucast ?sum"] unfolding propagate_carries_def Let_def parts by simp
qed

lemma fold_mod_65535: "(n div 65536 + n mod 65536) mod 65535 = n mod (65535 :: nat)"
proof -
  have "n = (n div 65536 + n mod 65536) + 65535 * (n div 65536)" by simp
  then show ?thesis by (metis mod_mult_self2)
qed

definition ones_sum :: "nat \<Rightarrow> nat" where
  "ones_sum n = unat (propagate_carries (word_of_nat n))"

lemma ones_sum:
  assumes "n < 2 ^ 32"
  shows "ones_sum n mod 65535 = n mod 65535" "ones_sum n = 0 \<longleftrightarrow> n = 0" "ones_sum n \<le> 65535"
proof -
  let ?s = "n div 65536 + n mod 65536"
  have "unat (word_of_nat n :: u32) = n" using assms by (simp only: unsigned_of_nat) (simp add: take_bit_nat_eq_self)
  then have sum: "ones_sum n = ?s div 65536 + ?s mod 65536"
    using propagate_carries_nat[of "word_of_nat n"] by (simp add: ones_sum_def)
  show "ones_sum n mod 65535 = n mod 65535" unfolding sum fold_mod_65535 ..
  show "ones_sum n = 0 \<longleftrightarrow> n = 0" unfolding sum by (metis add_is_0 add_cancel_right_right div_0 div_mult_mod_eq mod_0 mult_is_0)
  show "ones_sum n \<le> 65535" using unsigned_less[where w = "propagate_carries (word_of_nat n)" and 'a = nat] by (simp add: ones_sum_def)
qed

lemma unat_complement: "unat (NOT c) = 65535 - unat c" for c :: u16
proof -
  have c: "unat c \<le> 65535" using unsigned_less[where w = c and 'a = nat] by simp
  have "NOT c = word_of_nat (65535 - unat c)" using c by (simp add: of_nat_diff not_eq_complement)
  then show ?thesis using c by (simp only: unsigned_of_nat) (simp add: take_bit_nat_eq_self)
qed

text \<open>Adding the complement of a checksum to what it was computed of makes the sum all ones.\<close>

lemma ones_complete:
  assumes "n < 2 ^ 32" "m < 2 ^ 32" "0 < m" "m mod 65535 = (n + c) mod 65535"
    "c = 65535 - ones_sum n \<or> (ones_sum n = 65535 \<and> c = 65535)"
  shows "propagate_carries (word_of_nat m) = 0xffff"
proof -
  have "(n + c) mod 65535 = (ones_sum n + c) mod 65535" using ones_sum(1)[OF assms(1)] by (metis mod_add_left_eq)
  also have "\<dots> = 0" using assms(5) ones_sum(3)[OF assms(1)] by auto
  finally have "ones_sum m mod 65535 = 0" using ones_sum(1)[OF assms(2)] assms(4) by simp
  moreover have "ones_sum m \<noteq> 0" "ones_sum m \<le> 65535" using ones_sum(2,3)[OF assms(2)] assms(3) by simp_all
  ultimately have "ones_sum m = 65535" by (metis le_antisym mod_less not_less)
  then show ?thesis by (simp add: ones_sum_def word_unat_eq_iff)
qed

lemma checksum_data_ones:
  "network_endian bo \<Longrightarrow> checksum_data bo d = Inr (word_of_nat (ones_sum (word_sum d)))"
  by (simp add: checksum_data_eq ones_sum_def)

lemma combine_ones: "combine cs = word_of_nat (ones_sum (sum_list (map unat cs)))"
proof -
  have "foldl (\<lambda>accum word. accum + ucast word) (word_of_nat n) cs = (word_of_nat (n + sum_list (map unat cs)) :: u32)" for n
  proof (induction cs arbitrary: n)
    case (Cons c cs)
    have "(word_of_nat n + ucast c :: u32) = word_of_nat (n + unat c)" by simp
    then show ?case using Cons[of "n + unat c"] by (simp add: add.assoc del: of_nat_add)
  qed simp
  from this[of 0] show ?thesis by (simp add: combine_def ones_sum_def)
qed

lemma word_sum_bound: "word_sum d \<le> 65535 * ((length d + 1) div 2)"
proof (induction d rule: word_sum.induct)
  case (2 a)
  then show ?case using unsigned_less[where w = a and 'a = nat] by simp
next
  case (3 a b s)
  then show ?case using unsigned_less[where w = a and 'a = nat] unsigned_less[where w = b and 'a = nat] by simp
qed simp

section \<open>Fields of an explicit buffer\<close>

named_theorems wire_simps \<open>evaluation of the fields of a buffer whose octets are given\<close>

lemma list_update_Cons_numeral [wire_simps]: "(x # xs)[numeral v := y] = x # xs[pred_numeral v := y]"
  by (simp add: numeral_eq_Suc)

lemma get_u16_eq [wire_simps]: "network_endian bo \<Longrightarrow> get_u16 bo a b buf =
    and_then (slice buf a b) (\<lambda>s. case s of x # y # _ \<Rightarrow> Inr (be16 x y) | _ \<Rightarrow> Inl Explicit_Panic)"
  by (cases "slice buf a b") (auto simp: get_u16_def network_endian_def split: list.splits)

lemma set_u16_eq [wire_simps]: "network_endian bo \<Longrightarrow> set_u16 bo a b v buf =
    and_then (slice buf a b) (\<lambda>s. case s of x # y # s \<Rightarrow> Inr (put buf a (hi v # lo v # s)) | _ \<Rightarrow> Inl Explicit_Panic)"
  by (cases "slice buf a b") (auto simp: set_u16_def network_endian_def split: list.splits)

lemmas [wire_simps] = slice_def put_def copy_from_slice_def vec_get_def vec_set_def

lemma Cons_of_length: "Suc n \<le> length xs \<Longrightarrow> \<exists>y ys. xs = y # ys \<and> n \<le> length ys"
  by (cases xs) simp_all

text \<open>Overwriting an aligned 16-bit word changes the sum by that word.\<close>

lemma word_sum_word: "even (length xs) \<Longrightarrow> word_sum (xs @ a # b # ys) = word_sum (xs @ 0 # 0 # ys) + unat (be16 a b)"
  by (simp add: word_sum_append unat_be16)

end
