(* ===== verification/Wire_Ip.thy ===== *)
theory Wire_Ip
  imports Wire_Base
begin

text \<open>
  Internet Protocol: the protocol numbers, the addresses and the pseudo header of \<open>smoltcp/src/wire/ip.rs\<close>, the checksum capabilities of
  \<open>phy/mod.rs\<close>, and the version 4 packet and its representation (\<open>wire/ipv4.rs\<close>). An error of the wire formats carries no
  information. The switch \<open>proto-ipv4-fragmentation\<close> of the build is the argument \<open>fragmentation\<close> of \<open>ipv4_parse\<close>.
\<close>

datatype wire_error = Wire_Error

section \<open>Protocols and addresses\<close>

datatype ip_protocol = HopByHop | Icmp | Igmp | Tcp | Udp | Ipv6Route | Ipv6Frag | IpSecEsp | IpSecAh | Icmpv6 | Ipv6NoNxt | Ipv6Opts
  | Unknown_Protocol u8

definition protocol_of :: "u8 \<Rightarrow> ip_protocol" where
  "protocol_of v =
     (if v = 0x00 then HopByHop else if v = 0x01 then Icmp else if v = 0x02 then Igmp else if v = 0x06 then Tcp
      else if v = 0x11 then Udp else if v = 0x2b then Ipv6Route else if v = 0x2c then Ipv6Frag else if v = 0x32 then IpSecEsp
      else if v = 0x33 then IpSecAh else if v = 0x3a then Icmpv6 else if v = 0x3b then Ipv6NoNxt else if v = 0x3c then Ipv6Opts
      else Unknown_Protocol v)"

fun protocol_into :: "ip_protocol \<Rightarrow> u8" where
  "protocol_into HopByHop = 0x00"
| "protocol_into Icmp = 0x01"
| "protocol_into Igmp = 0x02"
| "protocol_into Tcp = 0x06"
| "protocol_into Udp = 0x11"
| "protocol_into Ipv6Route = 0x2b"
| "protocol_into Ipv6Frag = 0x2c"
| "protocol_into IpSecEsp = 0x32"
| "protocol_into IpSecAh = 0x33"
| "protocol_into Icmpv6 = 0x3a"
| "protocol_into Ipv6NoNxt = 0x3b"
| "protocol_into Ipv6Opts = 0x3c"
| "protocol_into (Unknown_Protocol v) = v"

text \<open>The array of octets of an address, by its octets.\<close>

datatype ipv4_address = Ipv4_Address u8 u8 u8 u8

fun ipv4_as_bytes :: "ipv4_address \<Rightarrow> buffer" where
  "ipv4_as_bytes (Ipv4_Address a0 a1 a2 a3) = [a0, a1, a2, a3]"

fun ipv4_from_bytes :: "buffer \<Rightarrow> ipv4_address rust" where
  "ipv4_from_bytes [a0, a1, a2, a3] = Inr (Ipv4_Address a0 a1 a2 a3)"
| "ipv4_from_bytes _ = Inl Explicit_Panic"

text \<open>An IPv6 address is the list of its 16 octets.\<close>

datatype ip_address = Ip_V4 ipv4_address | Ip_V6 buffer

definition pseudo_header :: "byteorder \<Rightarrow> ip_address \<Rightarrow> ip_address \<Rightarrow> ip_protocol \<Rightarrow> u32 \<Rightarrow> u16 rust" where
  "pseudo_header bo src dst next_header len =
     (case (src, dst) of
        (Ip_V4 src, Ip_V4 dst) \<Rightarrow>
          and_then (set_u16 bo 2 4 (ucast len) ((replicate 4 0)[1 := protocol_into next_header])) (\<lambda>proto_len.
          and_then (checksum_data bo (ipv4_as_bytes src)) (\<lambda>c1.
          and_then (checksum_data bo (ipv4_as_bytes dst)) (\<lambda>c2.
          and_then (checksum_data bo proto_len) (\<lambda>c3. Inr (combine [c1, c2, c3])))))
      | (Ip_V6 src, Ip_V6 dst) \<Rightarrow>
          (let proto_len = (replicate 8 0)[7 := protocol_into next_header] in
           and_then (slice proto_len 0 4) (\<lambda>s.
           and_then (bo_write_u32 bo s len) (\<lambda>s.
           and_then (checksum_data bo src) (\<lambda>c1.
           and_then (checksum_data bo dst) (\<lambda>c2.
           and_then (checksum_data bo (put proto_len 0 s)) (\<lambda>c3. Inr (combine [c1, c2, c3])))))))
      | _ \<Rightarrow> Inl Explicit_Panic)"

section \<open>Checksum capabilities\<close>

datatype checksum_mode = Checksum_Both | Checksum_Rx | Checksum_Tx | Checksum_None

definition checksum_rx :: "checksum_mode \<Rightarrow> bool" where
  "checksum_rx c \<longleftrightarrow> c = Checksum_Both \<or> c = Checksum_Rx"

definition checksum_tx :: "checksum_mode \<Rightarrow> bool" where
  "checksum_tx c \<longleftrightarrow> c = Checksum_Both \<or> c = Checksum_Tx"

record checksum_caps =
  cc_ipv4 :: checksum_mode
  cc_udp :: checksum_mode
  cc_tcp :: checksum_mode
  cc_icmpv4 :: checksum_mode
  cc_icmpv6 :: checksum_mode

definition checksum_ignored :: checksum_caps where
  "checksum_ignored = \<lparr>cc_ipv4 = Checksum_None, cc_udp = Checksum_None, cc_tcp = Checksum_None, cc_icmpv4 = Checksum_None,
     cc_icmpv6 = Checksum_None\<rparr>"

section \<open>Fields of a version 4 packet\<close>

definition ipv4_HEADER_LEN :: nat where
  "ipv4_HEADER_LEN = 20"

definition ipv4_version :: "buffer \<Rightarrow> u8 rust" where
  "ipv4_version buf = and_then (vec_get buf 0) (\<lambda>b. Inr (drop_bit 4 b))"

definition ipv4_header_len :: "buffer \<Rightarrow> u8 rust" where
  "ipv4_header_len buf = and_then (vec_get buf 0) (\<lambda>b. Inr ((b AND 0x0f) * 4))"

definition ipv4_dscp :: "buffer \<Rightarrow> u8 rust" where
  "ipv4_dscp buf = and_then (vec_get buf 1) (\<lambda>b. Inr (drop_bit 2 b))"

definition ipv4_ecn :: "buffer \<Rightarrow> u8 rust" where
  "ipv4_ecn buf = and_then (vec_get buf 1) (\<lambda>b. Inr (b AND 0x03))"

definition ipv4_total_len :: "byteorder \<Rightarrow> buffer \<Rightarrow> u16 rust" where
  "ipv4_total_len bo buf = get_u16 bo 2 4 buf"

definition ipv4_ident :: "byteorder \<Rightarrow> buffer \<Rightarrow> u16 rust" where
  "ipv4_ident bo buf = get_u16 bo 4 6 buf"

definition ipv4_dont_frag :: "byteorder \<Rightarrow> buffer \<Rightarrow> bool rust" where
  "ipv4_dont_frag bo buf = and_then (get_u16 bo 6 8 buf) (\<lambda>v. Inr (v AND 0x4000 \<noteq> 0))"

definition ipv4_more_frags :: "byteorder \<Rightarrow> buffer \<Rightarrow> bool rust" where
  "ipv4_more_frags bo buf = and_then (get_u16 bo 6 8 buf) (\<lambda>v. Inr (v AND 0x2000 \<noteq> 0))"

definition ipv4_frag_offset :: "byteorder \<Rightarrow> buffer \<Rightarrow> u16 rust" where
  "ipv4_frag_offset bo buf = and_then (get_u16 bo 6 8 buf) (\<lambda>v. Inr (push_bit 3 v))"

definition ipv4_hop_limit :: "buffer \<Rightarrow> u8 rust" where
  "ipv4_hop_limit buf = vec_get buf 8"

definition ipv4_next_header :: "buffer \<Rightarrow> ip_protocol rust" where
  "ipv4_next_header buf = and_then (vec_get buf 9) (\<lambda>b. Inr (protocol_of b))"

definition ipv4_checksum :: "byteorder \<Rightarrow> buffer \<Rightarrow> u16 rust" where
  "ipv4_checksum bo buf = get_u16 bo 10 12 buf"

definition ipv4_src_addr :: "buffer \<Rightarrow> ipv4_address rust" where
  "ipv4_src_addr buf = and_then (slice buf 12 16) ipv4_from_bytes"

definition ipv4_dst_addr :: "buffer \<Rightarrow> ipv4_address rust" where
  "ipv4_dst_addr buf = and_then (slice buf 16 20) ipv4_from_bytes"

definition ipv4_verify_checksum :: "byteorder \<Rightarrow> buffer \<Rightarrow> bool rust" where
  "ipv4_verify_checksum bo buf =
     and_then (ipv4_header_len buf) (\<lambda>n.
     and_then (slice buf 0 (unat n)) (\<lambda>s.
     and_then (checksum_data bo s) (\<lambda>c. Inr (c = 0xffff))))"

definition ipv4_payload :: "byteorder \<Rightarrow> buffer \<Rightarrow> buffer rust" where
  "ipv4_payload bo buf =
     and_then (ipv4_header_len buf) (\<lambda>h. and_then (ipv4_total_len bo buf) (\<lambda>t. slice buf (unat h) (unat t)))"

definition ipv4_check_len :: "byteorder \<Rightarrow> buffer \<Rightarrow> (unit, wire_error) result rust" where
  "ipv4_check_len bo buf =
     (if length buf < ipv4_HEADER_LEN then Inr (Err Wire_Error)
      else
        and_then (ipv4_header_len buf) (\<lambda>h.
        and_then (ipv4_total_len bo buf) (\<lambda>t.
        if length buf < unat h then Inr (Err Wire_Error)
        else if ucast h > t then Inr (Err Wire_Error)
        else if length buf < unat t then Inr (Err Wire_Error)
        else Inr (Ok ()))))"

record ipv4_key =
  ik_id :: u16
  ik_src_addr :: ipv4_address
  ik_dst_addr :: ipv4_address
  ik_protocol :: ip_protocol

definition ipv4_get_key :: "byteorder \<Rightarrow> buffer \<Rightarrow> ipv4_key rust" where
  "ipv4_get_key bo buf =
     and_then (ipv4_ident bo buf) (\<lambda>i.
     and_then (ipv4_src_addr buf) (\<lambda>s.
     and_then (ipv4_dst_addr buf) (\<lambda>d.
     and_then (ipv4_next_header buf) (\<lambda>p. Inr \<lparr>ik_id = i, ik_src_addr = s, ik_dst_addr = d, ik_protocol = p\<rparr>))))"

definition ipv4_set_version :: "u8 \<Rightarrow> buffer \<Rightarrow> buffer rust" where
  "ipv4_set_version v buf = and_then (vec_get buf 0) (\<lambda>b. vec_set buf 0 ((b AND NOT 0xf0) OR push_bit 4 v))"

definition ipv4_set_header_len :: "u8 \<Rightarrow> buffer \<Rightarrow> buffer rust" where
  "ipv4_set_header_len v buf = and_then (vec_get buf 0) (\<lambda>b. vec_set buf 0 ((b AND NOT 0x0f) OR ((v div 4) AND 0x0f)))"

definition ipv4_set_dscp :: "u8 \<Rightarrow> buffer \<Rightarrow> buffer rust" where
  "ipv4_set_dscp v buf = and_then (vec_get buf 1) (\<lambda>b. vec_set buf 1 ((b AND NOT 0xfc) OR push_bit 2 v))"

definition ipv4_set_ecn :: "u8 \<Rightarrow> buffer \<Rightarrow> buffer rust" where
  "ipv4_set_ecn v buf = and_then (vec_get buf 1) (\<lambda>b. vec_set buf 1 ((b AND NOT 0x03) OR (v AND 0x03)))"

definition ipv4_set_total_len :: "byteorder \<Rightarrow> u16 \<Rightarrow> buffer \<Rightarrow> buffer rust" where
  "ipv4_set_total_len bo v buf = set_u16 bo 2 4 v buf"

definition ipv4_set_ident :: "byteorder \<Rightarrow> u16 \<Rightarrow> buffer \<Rightarrow> buffer rust" where
  "ipv4_set_ident bo v buf = set_u16 bo 4 6 v buf"

definition ipv4_clear_flags :: "byteorder \<Rightarrow> buffer \<Rightarrow> buffer rust" where
  "ipv4_clear_flags bo buf = and_then (get_u16 bo 6 8 buf) (\<lambda>raw. set_u16 bo 6 8 (raw AND NOT 0xe000) buf)"

definition ipv4_set_dont_frag :: "byteorder \<Rightarrow> bool \<Rightarrow> buffer \<Rightarrow> buffer rust" where
  "ipv4_set_dont_frag bo v buf =
     and_then (get_u16 bo 6 8 buf) (\<lambda>raw. set_u16 bo 6 8 (if v then raw OR 0x4000 else raw AND NOT 0x4000) buf)"

definition ipv4_set_more_frags :: "byteorder \<Rightarrow> bool \<Rightarrow> buffer \<Rightarrow> buffer rust" where
  "ipv4_set_more_frags bo v buf =
     and_then (get_u16 bo 6 8 buf) (\<lambda>raw. set_u16 bo 6 8 (if v then raw OR 0x2000 else raw AND NOT 0x2000) buf)"

definition ipv4_set_frag_offset :: "byteorder \<Rightarrow> u16 \<Rightarrow> buffer \<Rightarrow> buffer rust" where
  "ipv4_set_frag_offset bo v buf =
     and_then (get_u16 bo 6 8 buf) (\<lambda>raw. set_u16 bo 6 8 ((raw AND 0xe000) OR drop_bit 3 v) buf)"

definition ipv4_set_hop_limit :: "u8 \<Rightarrow> buffer \<Rightarrow> buffer rust" where
  "ipv4_set_hop_limit v buf = vec_set buf 8 v"

definition ipv4_set_next_header :: "ip_protocol \<Rightarrow> buffer \<Rightarrow> buffer rust" where
  "ipv4_set_next_header p buf = vec_set buf 9 (protocol_into p)"

definition ipv4_set_checksum :: "byteorder \<Rightarrow> u16 \<Rightarrow> buffer \<Rightarrow> buffer rust" where
  "ipv4_set_checksum bo v buf = set_u16 bo 10 12 v buf"

definition ipv4_set_src_addr :: "ipv4_address \<Rightarrow> buffer \<Rightarrow> buffer rust" where
  "ipv4_set_src_addr a buf = copy_from_slice 12 16 (ipv4_as_bytes a) buf"

definition ipv4_set_dst_addr :: "ipv4_address \<Rightarrow> buffer \<Rightarrow> buffer rust" where
  "ipv4_set_dst_addr a buf = copy_from_slice 16 20 (ipv4_as_bytes a) buf"

definition ipv4_fill_checksum :: "byteorder \<Rightarrow> buffer \<Rightarrow> buffer rust" where
  "ipv4_fill_checksum bo buf =
     and_then (ipv4_set_checksum bo 0 buf) (\<lambda>buf.
     and_then (ipv4_header_len buf) (\<lambda>n.
     and_then (slice buf 0 (unat n)) (\<lambda>s.
     and_then (checksum_data bo s) (\<lambda>c. ipv4_set_checksum bo (NOT c) buf))))"

section \<open>The representation of a version 4 header\<close>

record ipv4_repr =
  ir_src_addr :: ipv4_address
  ir_dst_addr :: ipv4_address
  ir_next_header :: ip_protocol
  ir_payload_len :: usize
  ir_hop_limit :: u8

definition ipv4_parse :: "byteorder \<Rightarrow> bool \<Rightarrow> buffer \<Rightarrow> checksum_caps \<Rightarrow> (ipv4_repr, wire_error) result rust" where
  "ipv4_parse bo fragmentation buf caps =
     and_then (ipv4_version buf) (\<lambda>version.
     if version \<noteq> 4 then Inr (Err Wire_Error)
     else
       and_then (if checksum_rx (cc_ipv4 caps) then ipv4_verify_checksum bo buf else Inr True) (\<lambda>valid.
       if \<not> valid then Inr (Err Wire_Error)
       else
         and_then (ipv4_more_frags bo buf) (\<lambda>more.
         and_then (ipv4_frag_offset bo buf) (\<lambda>off.
         if \<not> fragmentation \<and> (more \<or> off \<noteq> 0) then Inr (Err Wire_Error)
         else
           and_then (ipv4_total_len bo buf) (\<lambda>t.
           and_then (ipv4_header_len buf) (\<lambda>h.
           and_then (ipv4_src_addr buf) (\<lambda>s.
           and_then (ipv4_dst_addr buf) (\<lambda>d.
           and_then (ipv4_next_header buf) (\<lambda>p.
           and_then (ipv4_hop_limit buf) (\<lambda>l.
           if unat t < unat h then Inl Explicit_Panic
           else Inr (Ok \<lparr>ir_src_addr = s, ir_dst_addr = d, ir_next_header = p, ir_payload_len = unat t - unat h, ir_hop_limit = l\<rparr>)))))))))))"

definition ipv4_emit :: "byteorder \<Rightarrow> ipv4_repr \<Rightarrow> checksum_caps \<Rightarrow> buffer \<Rightarrow> buffer rust" where
  "ipv4_emit bo r caps buf =
     and_then (ipv4_set_version 4 buf) (\<lambda>buf.
     and_then (ipv4_set_header_len 20 buf) (\<lambda>buf.
     and_then (ipv4_set_dscp 0 buf) (\<lambda>buf.
     and_then (ipv4_set_ecn 0 buf) (\<lambda>buf.
     and_then (ipv4_header_len buf) (\<lambda>h.
     and_then (ipv4_set_total_len bo (ucast h + word_of_nat (ir_payload_len r)) buf) (\<lambda>buf.
     and_then (ipv4_set_ident bo 0 buf) (\<lambda>buf.
     and_then (ipv4_clear_flags bo buf) (\<lambda>buf.
     and_then (ipv4_set_more_frags bo False buf) (\<lambda>buf.
     and_then (ipv4_set_dont_frag bo True buf) (\<lambda>buf.
     and_then (ipv4_set_frag_offset bo 0 buf) (\<lambda>buf.
     and_then (ipv4_set_hop_limit (ir_hop_limit r) buf) (\<lambda>buf.
     and_then (ipv4_set_next_header (ir_next_header r) buf) (\<lambda>buf.
     and_then (ipv4_set_src_addr (ir_src_addr r) buf) (\<lambda>buf.
     and_then (ipv4_set_dst_addr (ir_dst_addr r) buf) (\<lambda>buf.
     if checksum_tx (cc_ipv4 caps) then ipv4_fill_checksum bo buf else ipv4_set_checksum bo 0 buf)))))))))))))))"

section \<open>Emitting and parsing a header\<close>

lemma protocol_round_trip: "protocol_into (protocol_of v) = v"
  by (simp add: protocol_of_def)

text \<open>A protocol is known by one value only: \<open>Unknown\<close> is not used for the number of a known protocol.\<close>

definition protocol_ok :: "ip_protocol \<Rightarrow> bool" where
  "protocol_ok p \<longleftrightarrow> protocol_of (protocol_into p) = p"

definition ipv4_bytes :: "ipv4_repr \<Rightarrow> u16 \<Rightarrow> u16 \<Rightarrow> buffer" where
  "ipv4_bytes r len c = [0x45, 0, hi len, lo len, 0, 0, 0x40, 0, ir_hop_limit r, protocol_into (ir_next_header r), hi c, lo c]
     @ ipv4_as_bytes (ir_src_addr r) @ ipv4_as_bytes (ir_dst_addr r)"

text \<open>The bit operations of the setters, in the form in which the simplifier leaves the masks.\<close>

lemma set_bits [wire_simps]:
  "(b AND - 241 OR 64) AND - 16 OR 5 = (69 :: u8)" "(b AND - 253) AND - 4 = (0 :: u8)"
  "((raw AND - 57345) AND - 8193 OR 16384) AND 57344 = (16384 :: u16)"
proof -
  have "(- 241 AND - 16 :: u8) = 0" "(- 253 AND - 4 :: u8) = 0" "(64 AND - 16 OR 5 :: u8) = 69" by code_simp+
  then show "(b AND - 241 OR 64) AND - 16 OR 5 = (69 :: u8)" "(b AND - 253) AND - 4 = (0 :: u8)"
    by (simp_all only: bit.conj_disj_distrib2 and.assoc and_zero_eq or.left_neutral)
  have "(- 57345 AND (- 8193 AND 57344) :: u16) = 0" "(16384 AND 57344 :: u16) = 16384" by code_simp+
  then show "((raw AND - 57345) AND - 8193 OR 16384) AND 57344 = (16384 :: u16)"
    by (simp only: bit.conj_disj_distrib2 and.assoc and_zero_eq or.left_neutral)
qed

lemma hi_lo_values [wire_simps]: "hi 0 = 0" "lo 0 = 0" "hi 16384 = 64" "lo 16384 = 0" "be16 64 0 AND 8192 = 0" "push_bit 3 (be16 64 0) = 0"
  by code_simp+

lemma explicit_20:
  assumes "20 \<le> length buf"
  obtains b0 b1 b2 b3 b4 b5 b6 b7 b8 b9 b10 b11 b12 b13 b14 b15 b16 b17 b18 b19 rest where
    "buf = b0 # b1 # b2 # b3 # b4 # b5 # b6 # b7 # b8 # b9 # b10 # b11 # b12 # b13 # b14 # b15 # b16 # b17 # b18 # b19 # rest"
  using assms by (auto simp: Suc_le_length_iff eval_nat_numeral)

lemmas ipv4_set_defs = ipv4_set_version_def ipv4_set_header_len_def ipv4_set_dscp_def ipv4_set_ecn_def ipv4_header_len_def
  ipv4_set_total_len_def ipv4_set_ident_def ipv4_clear_flags_def ipv4_set_more_frags_def ipv4_set_dont_frag_def ipv4_set_frag_offset_def
  ipv4_set_hop_limit_def ipv4_set_next_header_def ipv4_set_src_addr_def ipv4_set_dst_addr_def ipv4_set_checksum_def

lemma ipv4_emit_eq:
  assumes "network_endian bo" "20 \<le> length buf"
    "len = 20 + word_of_nat (ir_payload_len r)"
  shows "\<exists>c. ipv4_emit bo r caps buf = Inr (ipv4_bytes r len c @ drop 20 buf)
    \<and> c = (if checksum_tx (cc_ipv4 caps) then NOT (word_of_nat (ones_sum (word_sum (ipv4_bytes r len 0)))) else 0)"
proof -
  obtain b0 b1 b2 b3 b4 b5 b6 b7 b8 b9 b10 b11 b12 b13 b14 b15 b16 b17 b18 b19 rest where buf:
    "buf = b0 # b1 # b2 # b3 # b4 # b5 # b6 # b7 # b8 # b9 # b10 # b11 # b12 # b13 # b14 # b15 # b16 # b17 # b18 # b19 # rest"
    by (rule explicit_20[OF assms(2)])
  obtain s0 s1 s2 s3 where src: "ir_src_addr r = Ipv4_Address s0 s1 s2 s3" by (cases "ir_src_addr r")
  obtain d0 d1 d2 d3 where dst: "ir_dst_addr r = Ipv4_Address d0 d1 d2 d3" by (cases "ir_dst_addr r")
  show ?thesis
    unfolding buf ipv4_emit_def
    by (simp add: ipv4_set_defs wire_simps assms(1) src dst assms(3) ipv4_fill_checksum_def ipv4_bytes_def checksum_data_ones)
qed

lemma ipv4_bytes_sum: "word_sum (ipv4_bytes r len c) = word_sum (ipv4_bytes r len 0) + unat c" "0 < word_sum (ipv4_bytes r len 0)"
  "word_sum (ipv4_bytes r len c) < 2 ^ 32" "length (ipv4_bytes r len c) = 20"
proof -
  obtain s0 s1 s2 s3 where src: "ir_src_addr r = Ipv4_Address s0 s1 s2 s3" by (cases "ir_src_addr r")
  obtain d0 d1 d2 d3 where dst: "ir_dst_addr r = Ipv4_Address d0 d1 d2 d3" by (cases "ir_dst_addr r")
  show "word_sum (ipv4_bytes r len c) = word_sum (ipv4_bytes r len 0) + unat c"
    using unat_be16[of "hi c" "lo c"] by (simp add: ipv4_bytes_def src dst hi_lo_values)
  show "0 < word_sum (ipv4_bytes r len 0)" by (simp add: ipv4_bytes_def)
  show len: "length (ipv4_bytes r len c) = 20" by (simp add: ipv4_bytes_def src dst)
  show "word_sum (ipv4_bytes r len c) < 2 ^ 32" using word_sum_bound[of "ipv4_bytes r len c"] len by simp
qed

lemma unat_not_ones: "n < 2 ^ 32 \<Longrightarrow> unat (NOT (word_of_nat (ones_sum n) :: u16)) = 65535 - ones_sum n"
  by (simp add: unat_complement ones_sum_def)

lemma ipv4_checksum_valid:
  assumes "c = NOT (word_of_nat (ones_sum (word_sum (ipv4_bytes r len 0))))"
  shows "propagate_carries (word_of_nat (word_sum (ipv4_bytes r len c))) = 0xffff"
proof (rule ones_complete)
  show "word_sum (ipv4_bytes r len c) mod 65535 = (word_sum (ipv4_bytes r len 0) + unat c) mod 65535"
    "0 < word_sum (ipv4_bytes r len c)" using ipv4_bytes_sum(1)[of r len c] ipv4_bytes_sum(2)[of r len] by simp_all
  show "unat c = 65535 - ones_sum (word_sum (ipv4_bytes r len 0)) \<or> ones_sum (word_sum (ipv4_bytes r len 0)) = 65535 \<and> unat c = 65535"
    using unat_not_ones[OF ipv4_bytes_sum(3)[of r len 0]] assms by simp
qed (rule ipv4_bytes_sum)+

lemma ipv4_parse_bytes:
  assumes "network_endian bo" "protocol_ok (ir_next_header r)" "20 + ir_payload_len r < 65536"
    "len = 20 + word_of_nat (ir_payload_len r)" "ir_payload_len r \<le> length rest"
    "checksum_rx (cc_ipv4 caps) \<Longrightarrow> propagate_carries (word_of_nat (word_sum (ipv4_bytes r len c))) = 0xffff"
  shows "ipv4_parse bo fragmentation (ipv4_bytes r len c @ rest) caps = Inr (Ok r)"
    "ipv4_check_len bo (ipv4_bytes r len c @ rest) = Inr (Ok ())"
    "ipv4_payload bo (ipv4_bytes r len c @ rest) = Inr (take (ir_payload_len r) rest)"
proof -
  obtain s0 s1 s2 s3 where src: "ir_src_addr r = Ipv4_Address s0 s1 s2 s3" by (cases "ir_src_addr r")
  obtain d0 d1 d2 d3 where dst: "ir_dst_addr r = Ipv4_Address d0 d1 d2 d3" by (cases "ir_dst_addr r")
  have len: "unat len = 20 + ir_payload_len r"
    using assms(3) unat_add_small[of "20 :: u16" "word_of_nat (ir_payload_len r)"] unfolding assms(4)
    by (simp add: unsigned_of_nat take_bit_nat_eq_self)
  let ?buf = "ipv4_bytes r len c @ rest"
  have head: "slice ?buf 0 20 = Inr (ipv4_bytes r len c)" using ipv4_bytes_sum(4)[of r len c] by (simp add: slice_def)
  have hl: "ipv4_header_len ?buf = Inr 20" by (simp add: ipv4_header_len_def ipv4_bytes_def wire_simps)
  have valid: "checksum_rx (cc_ipv4 caps) \<Longrightarrow> ipv4_verify_checksum bo ?buf = Inr True"
    using assms(6) head hl by (simp add: ipv4_verify_checksum_def checksum_data_eq[OF assms(1)])
  have tl: "ipv4_total_len bo ?buf = Inr len" by (simp add: ipv4_total_len_def ipv4_bytes_def wire_simps assms(1))
  have fields: "ipv4_version ?buf = Inr 4" "ipv4_src_addr ?buf = Inr (ir_src_addr r)" "ipv4_dst_addr ?buf = Inr (ir_dst_addr r)"
    "ipv4_more_frags bo ?buf = Inr False" "ipv4_frag_offset bo ?buf = Inr 0"
    "ipv4_next_header ?buf = Inr (ir_next_header r)" "ipv4_hop_limit ?buf = Inr (ir_hop_limit r)"
    using assms(2)
    by (simp_all add: ipv4_version_def ipv4_src_addr_def ipv4_dst_addr_def ipv4_more_frags_def ipv4_frag_offset_def ipv4_next_header_def
      ipv4_hop_limit_def ipv4_bytes_def wire_simps src dst assms(1) protocol_ok_def)
  show "ipv4_parse bo fragmentation ?buf caps = Inr (Ok r)"
    using valid fields hl tl len by (cases "checksum_rx (cc_ipv4 caps)") (simp_all add: ipv4_parse_def)
  show "ipv4_check_len bo ?buf = Inr (Ok ())"
    using hl tl len assms(5) ipv4_bytes_sum(4)[of r len c] by (simp add: ipv4_check_len_def ipv4_HEADER_LEN_def word_less_nat_alt)
  show "ipv4_payload bo ?buf = Inr (take (ir_payload_len r) rest)"
    using hl tl len assms(5) ipv4_bytes_sum(4)[of r len c] by (simp add: ipv4_payload_def slice_def)
qed

text \<open>
  C23. Emitting the representation of an IPv4 header into any buffer that is long enough, whatever it holds, and parsing the buffer gives the
  representation back: the packet passes the length check and the checksum, its payload is the part of the buffer after the header, and
  nothing behind the header is touched. The receiver may verify the checksum whenever the sender computes it.
\<close>

theorem ipv4_emit_parse:
  assumes "network_endian bo" "20 + ir_payload_len r \<le> length buf" "20 + ir_payload_len r < 65536" "protocol_ok (ir_next_header r)"
    "checksum_rx (cc_ipv4 caps') \<Longrightarrow> checksum_tx (cc_ipv4 caps)"
  shows "\<exists>buf'. ipv4_emit bo r caps buf = Inr buf' \<and> ipv4_check_len bo buf' = Inr (Ok ())
    \<and> ipv4_parse bo fragmentation buf' caps' = Inr (Ok r)
    \<and> ipv4_payload bo buf' = Inr (take (ir_payload_len r) (drop 20 buf)) \<and> drop 20 buf' = drop 20 buf"
proof -
  define len :: u16 where "len = 20 + word_of_nat (ir_payload_len r)"
  have "20 \<le> length buf" using assms(2) by simp
  then obtain c where c: "ipv4_emit bo r caps buf = Inr (ipv4_bytes r len c @ drop 20 buf)"
    "c = (if checksum_tx (cc_ipv4 caps) then NOT (word_of_nat (ones_sum (word_sum (ipv4_bytes r len 0)))) else 0)"
    using ipv4_emit_eq[OF assms(1) _ len_def] by blast
  have valid: "checksum_rx (cc_ipv4 caps') \<Longrightarrow> propagate_carries (word_of_nat (word_sum (ipv4_bytes r len c))) = 0xffff"
    using assms(5) c(2) by (intro ipv4_checksum_valid) simp
  have "ir_payload_len r \<le> length (drop 20 buf)" using assms(2) by simp
  from ipv4_parse_bytes[OF assms(1,4,3) len_def this valid] show ?thesis
    using c(1) ipv4_bytes_sum(4)[of r len c] by simp
qed

theorem ipv4_emit_parse_witness:
  "\<exists>buf'. ipv4_emit big_endian \<lparr>ir_src_addr = Ipv4_Address 10 0 0 1, ir_dst_addr = Ipv4_Address 10 0 0 2, ir_next_header = Udp,
        ir_payload_len = 2, ir_hop_limit = 64\<rparr> (checksum_ignored\<lparr>cc_ipv4 := Checksum_Both\<rparr>) (replicate 22 7) = Inr buf'
    \<and> ipv4_parse big_endian False buf' (checksum_ignored\<lparr>cc_ipv4 := Checksum_Both\<rparr>) = Inr (Ok \<lparr>ir_src_addr = Ipv4_Address 10 0 0 1,
        ir_dst_addr = Ipv4_Address 10 0 0 2, ir_next_header = Udp, ir_payload_len = 2, ir_hop_limit = 64\<rparr>)"
  using ipv4_emit_parse[OF big_endian_network, of "\<lparr>ir_src_addr = Ipv4_Address 10 0 0 1, ir_dst_addr = Ipv4_Address 10 0 0 2,
      ir_next_header = Udp, ir_payload_len = 2, ir_hop_limit = 64\<rparr>" "replicate 22 7" "checksum_ignored\<lparr>cc_ipv4 := Checksum_Both\<rparr>"
      "checksum_ignored\<lparr>cc_ipv4 := Checksum_Both\<rparr>" False]
  by (simp add: protocol_ok_def protocol_of_def checksum_tx_def) blast

end
