(* ===== verification/Wire_Udp.thy ===== *)
theory Wire_Udp
  imports Wire_Ip
begin

text \<open>
  User Datagram Protocol: the packet and its representation (\<open>smoltcp/src/wire/udp.rs\<close>). The closure \<open>emit_payload\<close> that fills the
  payload is a function on its octets, which cannot change their number.
\<close>

section \<open>Fields\<close>

definition udp_HEADER_LEN :: nat where
  "udp_HEADER_LEN = 8"

definition udp_src_port :: "byteorder \<Rightarrow> buffer \<Rightarrow> u16 rust" where
  "udp_src_port bo buf = get_u16 bo 0 2 buf"

definition udp_dst_port :: "byteorder \<Rightarrow> buffer \<Rightarrow> u16 rust" where
  "udp_dst_port bo buf = get_u16 bo 2 4 buf"

definition udp_len :: "byteorder \<Rightarrow> buffer \<Rightarrow> u16 rust" where
  "udp_len bo buf = get_u16 bo 4 6 buf"

definition udp_checksum :: "byteorder \<Rightarrow> buffer \<Rightarrow> u16 rust" where
  "udp_checksum bo buf = get_u16 bo 6 8 buf"

definition udp_check_len :: "byteorder \<Rightarrow> buffer \<Rightarrow> (unit, wire_error) result rust" where
  "udp_check_len bo buf =
     (if length buf < udp_HEADER_LEN then Inr (Err Wire_Error)
      else
        and_then (udp_len bo buf) (\<lambda>n.
        if length buf < unat n \<or> unat n < udp_HEADER_LEN then Inr (Err Wire_Error) else Inr (Ok ())))"

text \<open>The sum over the pseudo header and the datagram, as \<open>verify_checksum\<close> and \<open>fill_checksum\<close> compute it.\<close>

definition udp_sum :: "byteorder \<Rightarrow> ip_address \<Rightarrow> ip_address \<Rightarrow> buffer \<Rightarrow> u16 rust" where
  "udp_sum bo src dst buf =
     and_then (udp_len bo buf) (\<lambda>n.
     and_then (pseudo_header bo src dst Udp (ucast n)) (\<lambda>p.
     and_then (slice buf 0 (unat n)) (\<lambda>s.
     and_then (checksum_data bo s) (\<lambda>d. Inr (combine [p, d])))))"

definition udp_verify_checksum :: "byteorder \<Rightarrow> ip_address \<Rightarrow> ip_address \<Rightarrow> buffer \<Rightarrow> bool rust" where
  "udp_verify_checksum bo src dst buf =
     and_then (udp_checksum bo buf) (\<lambda>c.
     if c = 0 then Inr True else and_then (udp_sum bo src dst buf) (\<lambda>s. Inr (s = 0xffff)))"

definition udp_payload :: "byteorder \<Rightarrow> buffer \<Rightarrow> buffer rust" where
  "udp_payload bo buf = and_then (udp_len bo buf) (\<lambda>n. slice buf 8 (unat n))"

definition udp_set_src_port :: "byteorder \<Rightarrow> u16 \<Rightarrow> buffer \<Rightarrow> buffer rust" where
  "udp_set_src_port bo v buf = set_u16 bo 0 2 v buf"

definition udp_set_dst_port :: "byteorder \<Rightarrow> u16 \<Rightarrow> buffer \<Rightarrow> buffer rust" where
  "udp_set_dst_port bo v buf = set_u16 bo 2 4 v buf"

definition udp_set_len :: "byteorder \<Rightarrow> u16 \<Rightarrow> buffer \<Rightarrow> buffer rust" where
  "udp_set_len bo v buf = set_u16 bo 4 6 v buf"

definition udp_set_checksum :: "byteorder \<Rightarrow> u16 \<Rightarrow> buffer \<Rightarrow> buffer rust" where
  "udp_set_checksum bo v buf = set_u16 bo 6 8 v buf"

definition udp_fill_checksum :: "byteorder \<Rightarrow> ip_address \<Rightarrow> ip_address \<Rightarrow> buffer \<Rightarrow> buffer rust" where
  "udp_fill_checksum bo src dst buf =
     and_then (udp_set_checksum bo 0 buf) (\<lambda>buf.
     and_then (udp_sum bo src dst buf) (\<lambda>s.
     let checksum = NOT s in udp_set_checksum bo (if checksum = 0 then 0xffff else checksum) buf))"

section \<open>The representation\<close>

record udp_repr =
  ur_src_port :: u16
  ur_dst_port :: u16

definition udp_parse ::
    "byteorder \<Rightarrow> buffer \<Rightarrow> ip_address \<Rightarrow> ip_address \<Rightarrow> checksum_caps \<Rightarrow> (udp_repr, wire_error) result rust" where
  "udp_parse bo buf src dst caps =
     and_then (udp_dst_port bo buf) (\<lambda>dst_port.
     if dst_port = 0 then Inr (Err Wire_Error)
     else
       and_then (if checksum_rx (cc_udp caps) then udp_verify_checksum bo src dst buf else Inr True) (\<lambda>valid.
       and_then (udp_checksum bo buf) (\<lambda>c.
       and_then (udp_src_port bo buf) (\<lambda>src_port.
       if valid \<or> (case (src, dst) of (Ip_V4 _, Ip_V4 _) \<Rightarrow> c = 0 | _ \<Rightarrow> False)
       then Inr (Ok \<lparr>ur_src_port = src_port, ur_dst_port = dst_port\<rparr>)
       else Inr (Err Wire_Error)))))"

definition udp_emit_header :: "byteorder \<Rightarrow> udp_repr \<Rightarrow> usize \<Rightarrow> buffer \<Rightarrow> buffer rust" where
  "udp_emit_header bo r payload_len buf =
     and_then (udp_set_src_port bo (ur_src_port r) buf) (\<lambda>buf.
     and_then (udp_set_dst_port bo (ur_dst_port r) buf) (\<lambda>buf.
     and_then (udp_set_len bo (word_of_nat (udp_HEADER_LEN + payload_len)) buf) (\<lambda>buf.
     udp_set_checksum bo 0 buf)))"

definition udp_emit ::
    "byteorder \<Rightarrow> udp_repr \<Rightarrow> ip_address \<Rightarrow> ip_address \<Rightarrow> usize \<Rightarrow> (buffer \<Rightarrow> buffer) \<Rightarrow> checksum_caps \<Rightarrow> buffer \<Rightarrow> buffer rust" where
  "udp_emit bo r src dst payload_len emit_payload caps buf =
     and_then (udp_set_src_port bo (ur_src_port r) buf) (\<lambda>buf.
     and_then (udp_set_dst_port bo (ur_dst_port r) buf) (\<lambda>buf.
     and_then (udp_set_len bo (word_of_nat (udp_HEADER_LEN + payload_len)) buf) (\<lambda>buf.
     and_then (udp_payload bo buf) (\<lambda>payload.
     let buf = put buf 8 (emit_payload payload) in
     if checksum_tx (cc_udp caps) then udp_fill_checksum bo src dst buf else udp_set_checksum bo 0 buf))))"

section \<open>Emitting and parsing\<close>

definition udp_bytes :: "udp_repr \<Rightarrow> u16 \<Rightarrow> u16 \<Rightarrow> buffer" where
  "udp_bytes r len c = [hi (ur_src_port r), lo (ur_src_port r), hi (ur_dst_port r), lo (ur_dst_port r), hi len, lo len, hi c, lo c]"

text \<open>The pseudo header of two addresses of one family never sums to zero: it contains the protocol number.\<close>

definition same_family :: "ip_address \<Rightarrow> ip_address \<Rightarrow> bool" where
  "same_family src dst \<longleftrightarrow> (case (src, dst) of (Ip_V4 _, Ip_V4 _) \<Rightarrow> True | (Ip_V6 s, Ip_V6 d) \<Rightarrow> length s = 16 \<and> length d = 16 | _ \<Rightarrow> False)"

lemma sum_u16_bound: "sum_list (map unat cs) \<le> 65535 * length (cs :: u16 list)"
proof (induction cs)
  case (Cons c cs)
  then show ?case using unsigned_less[where w = c and 'a = nat] by simp
qed simp

lemma combine_nonzero:
  assumes "c \<in> set cs" "c \<noteq> 0" "length cs \<le> 65536"
  shows "combine cs \<noteq> 0"
proof -
  have n: "sum_list (map unat cs) < 2 ^ 32" using sum_u16_bound[of cs] assms(3) by simp
  have "unat c \<noteq> 0" using assms(2) using unsigned_eq_0_iff by blast
  then have "sum_list (map unat cs) \<noteq> 0" using assms(1) by (auto simp: sum_list_eq_0_iff)
  then have "ones_sum (sum_list (map unat cs)) \<noteq> 0" using ones_sum(2)[OF n] by simp
  then show ?thesis by (auto simp: combine_ones ones_sum_def)
qed

lemma checksum_data_nonzero:
  assumes "network_endian bo" "word_sum d \<noteq> 0" "length d \<le> 65536"
  shows "\<exists>c. checksum_data bo d = Inr c \<and> c \<noteq> 0"
proof -
  have "word_sum d < 2 ^ 32" using word_sum_bound[of d] assms(3) by simp
  then show ?thesis using ones_sum(2)[of "word_sum d"] assms(2) by (auto simp: checksum_data_ones[OF assms(1)] ones_sum_def)
qed

lemma pseudo_header_nonzero:
  assumes "network_endian bo" "same_family src dst"
  shows "\<exists>p. pseudo_header bo src dst Udp n = Inr p \<and> p \<noteq> 0"
proof -
  have three: "\<exists>p. and_then (checksum_data bo a) (\<lambda>c1. and_then (checksum_data bo b) (\<lambda>c2.
      and_then (checksum_data bo c) (\<lambda>c3. Inr (combine [c1, c2, c3])))) = Inr p \<and> p \<noteq> 0"
    if nz: "word_sum c \<noteq> 0" "length c \<le> 65536" for a b c
  proof -
    obtain c3 where "checksum_data bo c = Inr c3" "c3 \<noteq> 0" using checksum_data_nonzero[OF assms(1) nz] by blast
    then show ?thesis using combine_nonzero[of c3 "[c1, c2, c3]" for c1 c2] by (simp add: checksum_data_eq[OF assms(1)])
  qed
  consider (v4) s d where "src = Ip_V4 s" "dst = Ip_V4 d" | (v6) s d where "src = Ip_V6 s" "dst = Ip_V6 d"
    using assms(2) by (cases src; cases dst) (auto simp: same_family_def)
  then show ?thesis
  proof cases
    case (v4 s d)
    have "replicate 4 (0 :: u8) = [0, 0, 0, 0]" by (simp add: numeral_eq_Suc)
    then have "set_u16 bo 2 4 (ucast n) ((replicate 4 0)[1 := protocol_into Udp]) = Inr [0, 0x11, hi (ucast n), lo (ucast n)]"
      by (simp add: wire_simps assms(1))
    then show ?thesis using three[of "[0, 0x11, hi (ucast n), lo (ucast n)]"] v4 by (simp add: pseudo_header_def)
  next
    case (v6 s d)
    have "replicate 8 (0 :: u8) = [0, 0, 0, 0, 0, 0, 0, 0]" by (simp add: numeral_eq_Suc)
    then have pl: "(replicate 8 0)[7 := protocol_into Udp] = [0, 0, 0, 0, 0, 0, 0, 0x11]" by (simp add: wire_simps)
    obtain w x y z where w: "bo_write_u32 bo [0, 0, 0, 0] n = Inr [w, x, y, z]" using assms(1) by (simp add: network_endian_def)
    show ?thesis using three[of "[w, x, y, z, 0, 0, 0, 0x11]"] w v6 unfolding pseudo_header_def Let_def pl by (simp add: slice_def put_def)
  qed
qed

lemma explicit_8:
  assumes "8 \<le> length buf"
  obtains b0 b1 b2 b3 b4 b5 b6 b7 rest where "buf = b0 # b1 # b2 # b3 # b4 # b5 # b6 # b7 # rest"
  using assms by (auto simp: Suc_le_length_iff eval_nat_numeral)

lemma unat_len: "8 + n < 65536 \<Longrightarrow> unat (word_of_nat (udp_HEADER_LEN + n) :: u16) = 8 + n"
  unfolding unsigned_of_nat by (simp add: udp_HEADER_LEN_def take_bit_nat_eq_self)

lemma length_udp_bytes [simp]: "length (udp_bytes r len c) = 8"
  by (simp add: udp_bytes_def)

lemma udp_fields:
  assumes "network_endian bo"
  shows "udp_src_port bo (udp_bytes r len c @ p) = Inr (ur_src_port r)" "udp_dst_port bo (udp_bytes r len c @ p) = Inr (ur_dst_port r)"
    "udp_len bo (udp_bytes r len c @ p) = Inr len" "udp_checksum bo (udp_bytes r len c @ p) = Inr c"
    "udp_set_checksum bo c' (udp_bytes r len c @ p) = Inr (udp_bytes r len c' @ p)"
  by (simp_all add: udp_src_port_def udp_dst_port_def udp_len_def udp_checksum_def udp_set_checksum_def udp_bytes_def wire_simps assms)

text \<open>The sum over a datagram with the checksum \<open>c\<close>, for a pseudo header that sums to \<open>p\<close>.\<close>

definition udp_total :: "u16 \<Rightarrow> udp_repr \<Rightarrow> u16 \<Rightarrow> u16 \<Rightarrow> buffer \<Rightarrow> nat" where
  "udp_total p r len c data = unat p + ones_sum (word_sum (udp_bytes r len c @ data))"

lemma udp_sum_bytes:
  assumes "network_endian bo" "pseudo_header bo src dst Udp (ucast len) = Inr p" "unat len = 8 + length data"
  shows "udp_sum bo src dst (udp_bytes r len c @ data @ rest) = Inr (word_of_nat (ones_sum (udp_total p r len c data)))"
proof -
  have "slice (udp_bytes r len c @ data @ rest) 0 (unat len) = Inr (udp_bytes r len c @ data)"
    using assms(3) by (simp add: slice_def)
  then show ?thesis
    using assms(2) udp_fields(3)[OF assms(1), of r len c "data @ rest"]
    by (simp add: udp_sum_def checksum_data_ones[OF assms(1)] combine_ones udp_total_def) (simp add: ones_sum_def)
qed

lemma udp_total_bounds:
  assumes "length data < 65528"
  shows "udp_total p r len c data < 2 ^ 32" "word_sum (udp_bytes r len c @ data) < 2 ^ 32"
proof -
  show w: "word_sum (udp_bytes r len c @ data) < 2 ^ 32"
    using word_sum_bound[of "udp_bytes r len c @ data"] assms by simp
  show "udp_total p r len c data < 2 ^ 32"
    using ones_sum(3)[OF w] unsigned_less[where w = p and 'a = nat] by (simp add: udp_total_def)
qed

text \<open>Filling in the complement makes the sum all ones.\<close>

lemma udp_checksum_valid:
  assumes "p \<noteq> 0" "length data < 65528" "s = word_of_nat (ones_sum (udp_total p r len 0 data))" "c = (if NOT s = 0 then 0xffff else NOT s)"
  shows "word_of_nat (ones_sum (udp_total p r len c data)) = (0xffff :: u16)"
proof -
  let ?n = "udp_total p r len 0 data" and ?m = "udp_total p r len c data"
  note b = udp_total_bounds[OF assms(2)]
  have s: "unat (NOT s) = 65535 - ones_sum ?n" using unat_not_ones[OF b(1)] assms(3) by simp
  have sum: "word_sum (udp_bytes r len c @ data) = word_sum (udp_bytes r len 0 @ data) + unat c"
    using word_sum_word[of "[hi (ur_src_port r), lo (ur_src_port r), hi (ur_dst_port r), lo (ur_dst_port r), hi len, lo len]" "hi c" "lo c" data]
    by (simp add: udp_bytes_def hi_lo_values)
  have "?m mod 65535 = (unat p + word_sum (udp_bytes r len c @ data)) mod 65535"
    unfolding udp_total_def by (rule mod_add_cong[OF refl ones_sum(1)[OF b(2)]])
  also have "\<dots> = ((unat p + word_sum (udp_bytes r len 0 @ data)) + unat c) mod 65535" by (simp add: sum add.assoc)
  also have "\<dots> = (?n + unat c) mod 65535"
    unfolding udp_total_def by (rule mod_add_cong[OF mod_add_cong[OF refl ones_sum(1)[OF b(2), symmetric]] refl])
  finally have mod: "?m mod 65535 = (?n + unat c) mod 65535" .
  have "unat p \<noteq> 0" using assms(1) unsigned_eq_0_iff by blast
  then have pos: "0 < ?m" by (simp add: udp_total_def)
  have c: "unat c = 65535 - ones_sum ?n \<or> ones_sum ?n = 65535 \<and> unat c = 65535"
  proof (cases "NOT s = 0")
    case True
    then have "ones_sum ?n = 65535" using s ones_sum(3)[OF b(1)[of p r len 0]] by simp
    then show ?thesis using True assms(4) by simp
  next
    case False
    then show ?thesis using s assms(4) by simp
  qed
  show ?thesis using ones_complete[OF b(1) b(1) pos mod c] by (simp add: ones_sum_def)
qed

lemma udp_emit_eq:
  assumes "network_endian bo" "8 + n \<le> length buf" "8 + n < 65536" "pseudo_header bo src dst Udp (ucast len) = Inr p"
    "len = word_of_nat (udp_HEADER_LEN + n)" "length (f (take n (drop 8 buf))) = n"
  shows "\<exists>c. udp_emit bo r src dst n f caps buf = Inr (udp_bytes r len c @ f (take n (drop 8 buf)) @ drop (8 + n) buf)
    \<and> (c = 0 \<or> word_of_nat (ones_sum (udp_total p r len c (f (take n (drop 8 buf))))) = (0xffff :: u16) \<or> p = 0)"
proof -
  have "8 \<le> length buf" using assms(2) by simp
  then obtain b0 b1 b2 b3 b4 b5 b6 b7 rest where buf: "buf = b0 # b1 # b2 # b3 # b4 # b5 # b6 # b7 # rest" by (rule explicit_8)
  have tail: "drop 8 buf = rest" "drop (8 + n) buf = drop n rest" using buf drop_drop[of n 8 buf] by (simp_all add: add.commute)
  let ?d = "f (take n rest)" and ?c0 = "be16 b6 b7"
  have len: "unat len = 8 + n" unfolding assms(5) by (rule unat_len[OF assms(3)])
  have lens: "n \<le> length rest" "length ?d = n" using assms(2,6) buf by simp_all
  have set: "and_then (udp_set_src_port bo (ur_src_port r) buf) (\<lambda>buf. and_then (udp_set_dst_port bo (ur_dst_port r) buf) (\<lambda>buf.
      and_then (udp_set_len bo len buf) g)) = g (udp_bytes r len ?c0 @ rest)" for g :: "buffer \<Rightarrow> buffer rust"
    by (simp add: buf udp_set_src_port_def udp_set_dst_port_def udp_set_len_def udp_bytes_def wire_simps assms(1))
  have pay: "udp_payload bo (udp_bytes r len ?c0 @ rest) = Inr (take n rest)"
    using len lens(1) by (simp add: udp_payload_def udp_fields[OF assms(1)] slice_def)
  have put: "put (udp_bytes r len ?c0 @ rest) 8 ?d = udp_bytes r len ?c0 @ ?d @ drop n rest" using lens(2) by (simp add: put_def)
  have emit: "udp_emit bo r src dst n f caps buf =
      (if checksum_tx (cc_udp caps) then udp_fill_checksum bo src dst (udp_bytes r len ?c0 @ ?d @ drop n rest)
       else Inr (udp_bytes r len 0 @ ?d @ drop n rest))"
    unfolding udp_emit_def assms(5)[symmetric] set pay and_then_simps Let_def put by (simp add: udp_fields[OF assms(1)])
  show ?thesis
  proof (cases "checksum_tx (cc_udp caps)")
    case True
    define s :: u16 where "s = word_of_nat (ones_sum (udp_total p r len 0 ?d))"
    define c where "c = (if NOT s = 0 then 0xffff else NOT s)"
    have "udp_sum bo src dst (udp_bytes r len 0 @ ?d @ drop n rest) = Inr s"
      unfolding s_def by (rule udp_sum_bytes[OF assms(1,4)]) (simp add: len lens(2))
    then have "udp_emit bo r src dst n f caps buf = Inr (udp_bytes r len c @ ?d @ drop n rest)"
      unfolding emit using True by (simp add: udp_fill_checksum_def udp_fields[OF assms(1)] Let_def c_def)
    moreover have "p \<noteq> 0 \<Longrightarrow> word_of_nat (ones_sum (udp_total p r len c ?d)) = (0xffff :: u16)"
      using udp_checksum_valid[OF _ _ s_def c_def] lens(2) assms(3) by simp
    ultimately show ?thesis unfolding tail by (intro exI[of _ c]) blast
  next
    case False
    then show ?thesis unfolding emit tail by (intro exI[of _ 0]) simp
  qed
qed

text \<open>
  C22. Emitting a UDP datagram and parsing it gives back the ports and the payload, for any two addresses of one family, whatever the buffer held
  before and whether or not sender and receiver use checksums: the packet passes the length check and its checksum is
  valid or absent.
\<close>

theorem udp_emit_parse:
  assumes "network_endian bo" "8 + n \<le> length buf" "8 + n < 65536" "same_family src dst" "ur_dst_port r \<noteq> 0"
    "length (f (take n (drop 8 buf))) = n"
  shows "\<exists>buf'. udp_emit bo r src dst n f caps buf = Inr buf' \<and> udp_check_len bo buf' = Inr (Ok ())
    \<and> udp_parse bo buf' src dst caps' = Inr (Ok r) \<and> udp_payload bo buf' = Inr (f (take n (drop 8 buf)))
    \<and> drop (8 + n) buf' = drop (8 + n) buf"
proof -
  define len :: u16 where "len = word_of_nat (udp_HEADER_LEN + n)"
  define d where "d = f (take n (drop 8 buf))"
  have len: "unat len = 8 + n" unfolding len_def by (rule unat_len[OF assms(3)])
  have d: "length d = n" using assms(6) by (simp add: d_def)
  obtain p where p: "pseudo_header bo src dst Udp (ucast len) = Inr p" "p \<noteq> 0"
    using pseudo_header_nonzero[OF assms(1,4), of "ucast len"] by blast
  obtain c where c: "udp_emit bo r src dst n f caps buf = Inr (udp_bytes r len c @ d @ drop (8 + n) buf)"
    "c = 0 \<or> word_of_nat (ones_sum (udp_total p r len c d)) = (0xffff :: u16)"
    using udp_emit_eq[where f = f and r = r and caps = caps, OF assms(1-3) p(1) len_def assms(6)] p(2) unfolding d_def by blast
  let ?buf = "udp_bytes r len c @ d @ drop (8 + n) buf"
  note fields = udp_fields(1-4)[OF assms(1), of r len c "d @ drop (8 + n) buf"]
  have "udp_sum bo src dst ?buf = Inr (word_of_nat (ones_sum (udp_total p r len c d)))"
    by (rule udp_sum_bytes[OF assms(1) p(1)]) (simp add: len d)
  then have "udp_verify_checksum bo src dst ?buf = Inr True" using c(2) fields(4) by (auto simp: udp_verify_checksum_def)
  then have "udp_parse bo ?buf src dst caps' = Inr (Ok r)" using fields assms(5) by (simp add: udp_parse_def)
  moreover have "udp_check_len bo ?buf = Inr (Ok ())" using fields(3) len d assms(2) by (simp add: udp_check_len_def udp_HEADER_LEN_def)
  moreover have "udp_payload bo ?buf = Inr d" using fields(3) len d by (simp add: udp_payload_def slice_def)
  moreover have "drop (8 + n) ?buf = drop (8 + n) buf" using d by simp
  ultimately show ?thesis using c(1) unfolding d_def by blast
qed

theorem udp_emit_parse_witness:
  "\<exists>buf'. udp_emit big_endian \<lparr>ur_src_port = 53, ur_dst_port = 9\<rparr> (Ip_V4 (Ipv4_Address 10 0 0 1)) (Ip_V4 (Ipv4_Address 10 0 0 2)) 3
      (\<lambda>_. [1, 2, 3]) (checksum_ignored\<lparr>cc_udp := Checksum_Both\<rparr>) (replicate 11 7) = Inr buf'
    \<and> udp_parse big_endian buf' (Ip_V4 (Ipv4_Address 10 0 0 1)) (Ip_V4 (Ipv4_Address 10 0 0 2)) (checksum_ignored\<lparr>cc_udp := Checksum_Both\<rparr>)
      = Inr (Ok \<lparr>ur_src_port = 53, ur_dst_port = 9\<rparr>)
    \<and> udp_payload big_endian buf' = Inr [1, 2, 3]"
  using udp_emit_parse[OF big_endian_network, of 3 "replicate 11 7" "Ip_V4 (Ipv4_Address 10 0 0 1)" "Ip_V4 (Ipv4_Address 10 0 0 2)"
    "\<lparr>ur_src_port = 53, ur_dst_port = 9\<rparr>" "\<lambda>_. [1, 2, 3]" "checksum_ignored\<lparr>cc_udp := Checksum_Both\<rparr>" "checksum_ignored\<lparr>cc_udp := Checksum_Both\<rparr>"]
  by (simp add: same_family_def) blast

end
