(* ===== verification/Wire_Link.thy ===== *)
theory Wire_Link
  imports Wire_Ip
begin

text \<open>
  The link layer: Ethernet II frames (\<open>smoltcp/src/wire/ethernet.rs\<close>) and packets of the Address Resolution Protocol
  (\<open>smoltcp/src/wire/arp.rs\<close>).
\<close>

section \<open>Ethernet\<close>

datatype ether_type = Et_Ipv4 | Et_Arp | Et_Ipv6 | Et_Unknown u16

definition ether_type_of :: "u16 \<Rightarrow> ether_type" where
  "ether_type_of v = (if v = 0x0800 then Et_Ipv4 else if v = 0x0806 then Et_Arp else if v = 0x86DD then Et_Ipv6 else Et_Unknown v)"

fun ether_type_into :: "ether_type \<Rightarrow> u16" where
  "ether_type_into Et_Ipv4 = 0x0800"
| "ether_type_into Et_Arp = 0x0806"
| "ether_type_into Et_Ipv6 = 0x86DD"
| "ether_type_into (Et_Unknown v) = v"

datatype eth_address = Eth_Address u8 u8 u8 u8 u8 u8

fun eth_as_bytes :: "eth_address \<Rightarrow> buffer" where
  "eth_as_bytes (Eth_Address a0 a1 a2 a3 a4 a5) = [a0, a1, a2, a3, a4, a5]"

fun eth_from_bytes :: "buffer \<Rightarrow> eth_address rust" where
  "eth_from_bytes [a0, a1, a2, a3, a4, a5] = Inr (Eth_Address a0 a1 a2 a3 a4 a5)"
| "eth_from_bytes _ = Inl Explicit_Panic"

definition eth_BROADCAST :: eth_address where
  "eth_BROADCAST = Eth_Address 0xff 0xff 0xff 0xff 0xff 0xff"

definition eth_is_broadcast :: "eth_address \<Rightarrow> bool" where
  "eth_is_broadcast a \<longleftrightarrow> a = eth_BROADCAST"

fun eth_is_multicast :: "eth_address \<Rightarrow> bool" where
  "eth_is_multicast (Eth_Address a0 _ _ _ _ _) \<longleftrightarrow> a0 AND 0x01 \<noteq> 0"

fun eth_is_local :: "eth_address \<Rightarrow> bool" where
  "eth_is_local (Eth_Address a0 _ _ _ _ _) \<longleftrightarrow> a0 AND 0x02 \<noteq> 0"

definition eth_is_unicast :: "eth_address \<Rightarrow> bool" where
  "eth_is_unicast a \<longleftrightarrow> \<not> (eth_is_broadcast a \<or> eth_is_multicast a)"

definition eth_HEADER_LEN :: nat where
  "eth_HEADER_LEN = 14"

definition eth_check_len :: "buffer \<Rightarrow> (unit, wire_error) result" where
  "eth_check_len buf = (if length buf < eth_HEADER_LEN then Err Wire_Error else Ok ())"

definition eth_buffer_len :: "usize \<Rightarrow> usize" where
  "eth_buffer_len payload_len = eth_HEADER_LEN + payload_len"

definition eth_dst_addr :: "buffer \<Rightarrow> eth_address rust" where
  "eth_dst_addr buf = and_then (slice buf 0 6) eth_from_bytes"

definition eth_src_addr :: "buffer \<Rightarrow> eth_address rust" where
  "eth_src_addr buf = and_then (slice buf 6 12) eth_from_bytes"

definition eth_ethertype :: "byteorder \<Rightarrow> buffer \<Rightarrow> ether_type rust" where
  "eth_ethertype bo buf = and_then (get_u16 bo 12 14 buf) (\<lambda>raw. Inr (ether_type_of raw))"

definition eth_payload :: "buffer \<Rightarrow> buffer rust" where
  "eth_payload buf = slice buf 14 (length buf)"

definition eth_set_dst_addr :: "eth_address \<Rightarrow> buffer \<Rightarrow> buffer rust" where
  "eth_set_dst_addr a buf = copy_from_slice 0 6 (eth_as_bytes a) buf"

definition eth_set_src_addr :: "eth_address \<Rightarrow> buffer \<Rightarrow> buffer rust" where
  "eth_set_src_addr a buf = copy_from_slice 6 12 (eth_as_bytes a) buf"

definition eth_set_ethertype :: "byteorder \<Rightarrow> ether_type \<Rightarrow> buffer \<Rightarrow> buffer rust" where
  "eth_set_ethertype bo t buf = set_u16 bo 12 14 (ether_type_into t) buf"

record eth_repr =
  er_src_addr :: eth_address
  er_dst_addr :: eth_address
  er_ethertype :: ether_type

definition eth_parse :: "byteorder \<Rightarrow> buffer \<Rightarrow> (eth_repr, wire_error) result rust" where
  "eth_parse bo buf =
     (case eth_check_len buf of
        Err e \<Rightarrow> Inr (Err e)
      | Ok _ \<Rightarrow>
          and_then (eth_src_addr buf) (\<lambda>s.
          and_then (eth_dst_addr buf) (\<lambda>d.
          and_then (eth_ethertype bo buf) (\<lambda>t.
          Inr (Ok \<lparr>er_src_addr = s, er_dst_addr = d, er_ethertype = t\<rparr>)))))"

definition eth_emit :: "byteorder \<Rightarrow> eth_repr \<Rightarrow> buffer \<Rightarrow> buffer rust" where
  "eth_emit bo r buf =
     and_then (eth_set_src_addr (er_src_addr r) buf) (\<lambda>buf.
     and_then (eth_set_dst_addr (er_dst_addr r) buf) (\<lambda>buf.
     eth_set_ethertype bo (er_ethertype r) buf))"

section \<open>Address resolution\<close>

datatype arp_hardware = Hw_Ethernet | Hw_Unknown u16

definition hardware_of :: "u16 \<Rightarrow> arp_hardware" where
  "hardware_of v = (if v = 1 then Hw_Ethernet else Hw_Unknown v)"

fun hardware_into :: "arp_hardware \<Rightarrow> u16" where
  "hardware_into Hw_Ethernet = 1"
| "hardware_into (Hw_Unknown v) = v"

datatype arp_operation = Op_Request | Op_Reply | Op_Unknown u16

definition operation_of :: "u16 \<Rightarrow> arp_operation" where
  "operation_of v = (if v = 1 then Op_Request else if v = 2 then Op_Reply else Op_Unknown v)"

fun operation_into :: "arp_operation \<Rightarrow> u16" where
  "operation_into Op_Request = 1"
| "operation_into Op_Reply = 2"
| "operation_into (Op_Unknown v) = v"

text \<open>The fields whose place depends on the lengths of the addresses, as their start and end.\<close>

definition arp_SHA :: "u8 \<Rightarrow> u8 \<Rightarrow> nat \<times> nat" where
  "arp_SHA hardware_len protocol_len = (8, 8 + unat hardware_len)"

definition arp_SPA :: "u8 \<Rightarrow> u8 \<Rightarrow> nat \<times> nat" where
  "arp_SPA hardware_len protocol_len = (let start = snd (arp_SHA hardware_len protocol_len) in (start, start + unat protocol_len))"

definition arp_THA :: "u8 \<Rightarrow> u8 \<Rightarrow> nat \<times> nat" where
  "arp_THA hardware_len protocol_len = (let start = snd (arp_SPA hardware_len protocol_len) in (start, start + unat hardware_len))"

definition arp_TPA :: "u8 \<Rightarrow> u8 \<Rightarrow> nat \<times> nat" where
  "arp_TPA hardware_len protocol_len = (let start = snd (arp_THA hardware_len protocol_len) in (start, start + unat protocol_len))"

definition arp_hardware_type :: "byteorder \<Rightarrow> buffer \<Rightarrow> arp_hardware rust" where
  "arp_hardware_type bo buf = and_then (get_u16 bo 0 2 buf) (\<lambda>raw. Inr (hardware_of raw))"

definition arp_protocol_type :: "byteorder \<Rightarrow> buffer \<Rightarrow> ether_type rust" where
  "arp_protocol_type bo buf = and_then (get_u16 bo 2 4 buf) (\<lambda>raw. Inr (ether_type_of raw))"

definition arp_hardware_len :: "buffer \<Rightarrow> u8 rust" where
  "arp_hardware_len buf = vec_get buf 4"

definition arp_protocol_len :: "buffer \<Rightarrow> u8 rust" where
  "arp_protocol_len buf = vec_get buf 5"

definition arp_operation :: "byteorder \<Rightarrow> buffer \<Rightarrow> arp_operation rust" where
  "arp_operation bo buf = and_then (get_u16 bo 6 8 buf) (\<lambda>raw. Inr (operation_of raw))"

text \<open>The octets of one of the four addresses.\<close>

definition arp_field :: "(u8 \<Rightarrow> u8 \<Rightarrow> nat \<times> nat) \<Rightarrow> buffer \<Rightarrow> buffer rust" where
  "arp_field fld buf =
     and_then (arp_hardware_len buf) (\<lambda>h. and_then (arp_protocol_len buf) (\<lambda>p. slice buf (fst (fld h p)) (snd (fld h p))))"

definition arp_set_field :: "(u8 \<Rightarrow> u8 \<Rightarrow> nat \<times> nat) \<Rightarrow> buffer \<Rightarrow> buffer \<Rightarrow> buffer rust" where
  "arp_set_field fld value buf =
     and_then (arp_hardware_len buf) (\<lambda>h. and_then (arp_protocol_len buf) (\<lambda>p. copy_from_slice (fst (fld h p)) (snd (fld h p)) value buf))"

definition arp_source_hardware_addr :: "buffer \<Rightarrow> buffer rust" where
  "arp_source_hardware_addr buf = arp_field arp_SHA buf"

definition arp_source_protocol_addr :: "buffer \<Rightarrow> buffer rust" where
  "arp_source_protocol_addr buf = arp_field arp_SPA buf"

definition arp_target_hardware_addr :: "buffer \<Rightarrow> buffer rust" where
  "arp_target_hardware_addr buf = arp_field arp_THA buf"

definition arp_target_protocol_addr :: "buffer \<Rightarrow> buffer rust" where
  "arp_target_protocol_addr buf = arp_field arp_TPA buf"

definition arp_check_len :: "buffer \<Rightarrow> (unit, wire_error) result rust" where
  "arp_check_len buf =
     (if length buf < 8 then Inr (Err Wire_Error)
      else
        and_then (arp_hardware_len buf) (\<lambda>h.
        and_then (arp_protocol_len buf) (\<lambda>p.
        if length buf < snd (arp_TPA h p) then Inr (Err Wire_Error) else Inr (Ok ()))))"

definition arp_set_hardware_type :: "byteorder \<Rightarrow> arp_hardware \<Rightarrow> buffer \<Rightarrow> buffer rust" where
  "arp_set_hardware_type bo v buf = set_u16 bo 0 2 (hardware_into v) buf"

definition arp_set_protocol_type :: "byteorder \<Rightarrow> ether_type \<Rightarrow> buffer \<Rightarrow> buffer rust" where
  "arp_set_protocol_type bo v buf = set_u16 bo 2 4 (ether_type_into v) buf"

definition arp_set_hardware_len :: "u8 \<Rightarrow> buffer \<Rightarrow> buffer rust" where
  "arp_set_hardware_len v buf = vec_set buf 4 v"

definition arp_set_protocol_len :: "u8 \<Rightarrow> buffer \<Rightarrow> buffer rust" where
  "arp_set_protocol_len v buf = vec_set buf 5 v"

definition arp_set_operation :: "byteorder \<Rightarrow> arp_operation \<Rightarrow> buffer \<Rightarrow> buffer rust" where
  "arp_set_operation bo v buf = set_u16 bo 6 8 (operation_into v) buf"

definition arp_set_source_hardware_addr :: "buffer \<Rightarrow> buffer \<Rightarrow> buffer rust" where
  "arp_set_source_hardware_addr v buf = arp_set_field arp_SHA v buf"

definition arp_set_source_protocol_addr :: "buffer \<Rightarrow> buffer \<Rightarrow> buffer rust" where
  "arp_set_source_protocol_addr v buf = arp_set_field arp_SPA v buf"

definition arp_set_target_hardware_addr :: "buffer \<Rightarrow> buffer \<Rightarrow> buffer rust" where
  "arp_set_target_hardware_addr v buf = arp_set_field arp_THA v buf"

definition arp_set_target_protocol_addr :: "buffer \<Rightarrow> buffer \<Rightarrow> buffer rust" where
  "arp_set_target_protocol_addr v buf = arp_set_field arp_TPA v buf"

record arp_repr =
  ar_operation :: arp_operation
  ar_source_hardware_addr :: eth_address
  ar_source_protocol_addr :: ipv4_address
  ar_target_hardware_addr :: eth_address
  ar_target_protocol_addr :: ipv4_address

definition arp_parse :: "byteorder \<Rightarrow> buffer \<Rightarrow> (arp_repr, wire_error) result rust" where
  "arp_parse bo buf =
     and_then (arp_hardware_type bo buf) (\<lambda>ht.
     and_then (arp_protocol_type bo buf) (\<lambda>pt.
     and_then (arp_hardware_len buf) (\<lambda>h.
     and_then (arp_protocol_len buf) (\<lambda>p.
     if ht = Hw_Ethernet \<and> pt = Et_Ipv4 \<and> h = 6 \<and> p = 4
     then
       and_then (arp_operation bo buf) (\<lambda>oper.
       and_then (and_then (arp_source_hardware_addr buf) eth_from_bytes) (\<lambda>sh.
       and_then (and_then (arp_source_protocol_addr buf) ipv4_from_bytes) (\<lambda>sp.
       and_then (and_then (arp_target_hardware_addr buf) eth_from_bytes) (\<lambda>th.
       and_then (and_then (arp_target_protocol_addr buf) ipv4_from_bytes) (\<lambda>tp.
       Inr (Ok \<lparr>ar_operation = oper, ar_source_hardware_addr = sh, ar_source_protocol_addr = sp, ar_target_hardware_addr = th,
         ar_target_protocol_addr = tp\<rparr>))))))
     else Inr (Err Wire_Error)))))"

definition arp_buffer_len :: usize where
  "arp_buffer_len = snd (arp_TPA 6 4)"

definition arp_emit :: "byteorder \<Rightarrow> arp_repr \<Rightarrow> buffer \<Rightarrow> buffer rust" where
  "arp_emit bo r buf =
     and_then (arp_set_hardware_type bo Hw_Ethernet buf) (\<lambda>buf.
     and_then (arp_set_protocol_type bo Et_Ipv4 buf) (\<lambda>buf.
     and_then (arp_set_hardware_len 6 buf) (\<lambda>buf.
     and_then (arp_set_protocol_len 4 buf) (\<lambda>buf.
     and_then (arp_set_operation bo (ar_operation r) buf) (\<lambda>buf.
     and_then (arp_set_source_hardware_addr (eth_as_bytes (ar_source_hardware_addr r)) buf) (\<lambda>buf.
     and_then (arp_set_source_protocol_addr (ipv4_as_bytes (ar_source_protocol_addr r)) buf) (\<lambda>buf.
     and_then (arp_set_target_hardware_addr (eth_as_bytes (ar_target_hardware_addr r)) buf) (\<lambda>buf.
     arp_set_target_protocol_addr (ipv4_as_bytes (ar_target_protocol_addr r)) buf))))))))"

section \<open>Emitting and parsing\<close>

definition eth_bytes :: "eth_repr \<Rightarrow> buffer" where
  "eth_bytes r = eth_as_bytes (er_dst_addr r) @ eth_as_bytes (er_src_addr r)
     @ [hi (ether_type_into (er_ethertype r)), lo (ether_type_into (er_ethertype r))]"

definition arp_bytes :: "arp_repr \<Rightarrow> buffer" where
  "arp_bytes r = [0, 1, 8, 0, 6, 4, hi (operation_into (ar_operation r)), lo (operation_into (ar_operation r))]
     @ eth_as_bytes (ar_source_hardware_addr r) @ ipv4_as_bytes (ar_source_protocol_addr r)
     @ eth_as_bytes (ar_target_hardware_addr r) @ ipv4_as_bytes (ar_target_protocol_addr r)"

lemma eth_emit_eq:
  assumes "network_endian bo" "14 \<le> length buf"
  shows "eth_emit bo r buf = Inr (eth_bytes r @ drop 14 buf)"
proof -
  obtain b0 b1 b2 b3 b4 b5 b6 b7 b8 b9 b10 b11 b12 b13 rest where buf:
    "buf = b0 # b1 # b2 # b3 # b4 # b5 # b6 # b7 # b8 # b9 # b10 # b11 # b12 # b13 # rest"
    using assms(2) by (auto simp: Suc_le_length_iff eval_nat_numeral)
  show ?thesis unfolding buf
    by (cases "er_src_addr r"; cases "er_dst_addr r")
      (simp add: eth_emit_def eth_set_src_addr_def eth_set_dst_addr_def eth_set_ethertype_def eth_bytes_def wire_simps assms(1))
qed

lemma length_eth_bytes [simp]: "length (eth_bytes r) = 14"
  by (cases "er_src_addr r"; cases "er_dst_addr r") (simp add: eth_bytes_def)

lemma eth_parse_bytes:
  assumes "network_endian bo" "ether_type_of (ether_type_into (er_ethertype r)) = er_ethertype r"
  shows "eth_parse bo (eth_bytes r @ rest) = Inr (Ok r)" "eth_payload (eth_bytes r @ rest) = Inr rest"
proof -
  show "eth_payload (eth_bytes r @ rest) = Inr rest" by (simp add: eth_payload_def slice_def)
  show "eth_parse bo (eth_bytes r @ rest) = Inr (Ok r)"
    using assms(2)
    by (cases r; cases "er_src_addr r"; cases "er_dst_addr r")
      (simp add: eth_parse_def eth_check_len_def eth_HEADER_LEN_def eth_src_addr_def eth_dst_addr_def eth_ethertype_def eth_bytes_def
        wire_simps assms(1))
qed

lemmas arp_fields = arp_field_def arp_set_field_def arp_SHA_def arp_SPA_def arp_THA_def arp_TPA_def arp_hardware_len_def arp_protocol_len_def

lemma arp_values [wire_simps]: "hi 1 = 0" "lo 1 = 1" "hi 2048 = 8" "lo 2048 = 0" "be16 0 1 = 1" "be16 8 0 = 2048"
  by code_simp+

lemma arp_emit_eq:
  assumes "network_endian bo" "28 \<le> length buf"
  shows "arp_emit bo r buf = Inr (arp_bytes r @ drop 28 buf)"
proof -
  have "20 \<le> length buf" using assms(2) by simp
  then obtain b0 b1 b2 b3 b4 b5 b6 b7 b8 b9 b10 b11 b12 b13 b14 b15 b16 b17 b18 b19 tail where buf1:
    "buf = b0 # b1 # b2 # b3 # b4 # b5 # b6 # b7 # b8 # b9 # b10 # b11 # b12 # b13 # b14 # b15 # b16 # b17 # b18 # b19 # tail"
    by (rule explicit_20)
  then obtain c0 c1 c2 c3 c4 c5 c6 c7 rest where tail: "tail = c0 # c1 # c2 # c3 # c4 # c5 # c6 # c7 # rest"
    using assms(2) by (auto simp: Suc_le_length_iff eval_nat_numeral)
  show ?thesis unfolding buf1 tail
    by (cases "ar_source_hardware_addr r"; cases "ar_source_protocol_addr r"; cases "ar_target_hardware_addr r"; cases "ar_target_protocol_addr r")
      (simp add: arp_emit_def arp_set_hardware_type_def arp_set_protocol_type_def arp_set_hardware_len_def arp_set_protocol_len_def
        arp_set_operation_def arp_set_source_hardware_addr_def arp_set_source_protocol_addr_def arp_set_target_hardware_addr_def
        arp_set_target_protocol_addr_def arp_bytes_def arp_fields wire_simps assms(1))
qed

lemma arp_parse_bytes:
  assumes "network_endian bo" "operation_of (operation_into (ar_operation r)) = ar_operation r"
  shows "arp_parse bo (arp_bytes r @ rest) = Inr (Ok r)" "arp_check_len (arp_bytes r @ rest) = Inr (Ok ())"
  using assms(2)
  by (cases r; cases "ar_source_hardware_addr r"; cases "ar_source_protocol_addr r"; cases "ar_target_hardware_addr r"; cases "ar_target_protocol_addr r";
    simp add: arp_parse_def arp_check_len_def arp_hardware_type_def arp_protocol_type_def arp_operation_def arp_source_hardware_addr_def
      arp_source_protocol_addr_def arp_target_hardware_addr_def arp_target_protocol_addr_def arp_bytes_def arp_fields wire_simps assms(1)
      hardware_of_def ether_type_of_def)+

text \<open>
  C24. An ARP packet in an Ethernet frame survives the wire: emitting the frame header and then the packet into the payload of the frame, in a buffer
  with any content, and parsing the frame and its payload gives both representations back, and the packet passes the length
  check.
\<close>

theorem arp_frame_emit_parse:
  assumes "network_endian bo" "eth_buffer_len arp_buffer_len \<le> length buf"
    "ether_type_of (ether_type_into (er_ethertype er)) = er_ethertype er"
    "operation_of (operation_into (ar_operation ar)) = ar_operation ar"
  shows "\<exists>frame payload packet frame'. eth_emit bo er buf = Inr frame \<and> eth_payload frame = Inr payload \<and> arp_emit bo ar payload = Inr packet
    \<and> frame' = put frame 14 packet \<and> length frame' = length buf
    \<and> eth_parse bo frame' = Inr (Ok er) \<and> eth_payload frame' = Inr packet
    \<and> arp_check_len packet = Inr (Ok ()) \<and> arp_parse bo packet = Inr (Ok ar)"
proof -
  have len: "42 \<le> length buf"
    using assms(2) by (simp add: eth_buffer_len_def eth_HEADER_LEN_def arp_buffer_len_def arp_fields)
  let ?frame = "eth_bytes er @ drop 14 buf" and ?packet = "arp_bytes ar @ drop 28 (drop 14 buf)"
  have alen: "length (arp_bytes ar) = 28"
    by (cases "ar_source_hardware_addr ar"; cases "ar_source_protocol_addr ar"; cases "ar_target_hardware_addr ar"; cases "ar_target_protocol_addr ar")
      (simp add: arp_bytes_def)
  have 1: "eth_emit bo er buf = Inr ?frame" using eth_emit_eq[OF assms(1)] len by simp
  have 2: "eth_payload ?frame = Inr (drop 14 buf)" by (rule eth_parse_bytes(2)[OF assms(1,3)])
  have 3: "arp_emit bo ar (drop 14 buf) = Inr ?packet" by (rule arp_emit_eq[OF assms(1)]) (use len in simp)
  have frame: "put ?frame 14 ?packet = eth_bytes er @ ?packet" using alen len by (simp add: put_def)
  have 4: "length (eth_bytes er @ ?packet) = length buf" using alen len by simp
  show ?thesis
    by (intro exI[of _ ?frame] exI[of _ "drop 14 buf"] exI[of _ ?packet] exI[of _ "eth_bytes er @ ?packet"] conjI)
      (rule 1 2 3 frame[symmetric] 4 eth_parse_bytes[OF assms(1,3)] arp_parse_bytes[OF assms(1,4)])+
qed

definition arp_sample :: arp_repr where
  "arp_sample = \<lparr>ar_operation = Op_Request, ar_source_hardware_addr = Eth_Address 2 0 0 0 0 1, ar_source_protocol_addr = Ipv4_Address 10 0 0 1,
     ar_target_hardware_addr = eth_BROADCAST, ar_target_protocol_addr = Ipv4_Address 10 0 0 2\<rparr>"

definition eth_sample :: eth_repr where
  "eth_sample = \<lparr>er_src_addr = Eth_Address 2 0 0 0 0 1, er_dst_addr = eth_BROADCAST, er_ethertype = Et_Arp\<rparr>"

theorem arp_frame_emit_parse_witness:
  "\<exists>frame payload packet. eth_emit big_endian eth_sample (replicate 60 9) = Inr frame \<and> eth_payload frame = Inr payload
    \<and> arp_emit big_endian arp_sample payload = Inr packet \<and> eth_parse big_endian (put frame 14 packet) = Inr (Ok eth_sample)
    \<and> arp_parse big_endian packet = Inr (Ok arp_sample)"
proof -
  have "eth_buffer_len arp_buffer_len \<le> length (replicate 60 (9 :: u8))"
    by (simp add: eth_buffer_len_def eth_HEADER_LEN_def arp_buffer_len_def arp_fields)
  moreover have "ether_type_of (ether_type_into (er_ethertype eth_sample)) = er_ethertype eth_sample"
    "operation_of (operation_into (ar_operation arp_sample)) = ar_operation arp_sample"
    by (simp_all add: eth_sample_def arp_sample_def ether_type_of_def operation_of_def)
  ultimately show ?thesis using arp_frame_emit_parse[OF big_endian_network, of "replicate 60 9" eth_sample arp_sample] by metis
qed

end
