(* ===== verification/Ring_Buffer.thy ===== *)
theory Ring_Buffer
  imports Slices
begin

text \<open>
  The ring buffer of the network stack (\<open>smoltcp/src/storage/ring_buffer.rs\<close>), which holds the octets of TCP sockets and the packets
  of the other sockets. A reference into the buffer is an index with the element there; a closure that is called with a mutable
  reference returns the element or the slice it leaves behind. The storage, a slice of the crate \<open>managed\<close>, is a list. The
  subtractions of the code are those of natural numbers: the fields are private, every operation keeps \<open>rb_ok\<close>, and with it none
  underflows.
\<close>

section \<open>The buffer\<close>

record 'a ring_buffer =
  rb_storage :: "'a list"
  rb_read_at :: usize
  rb_length :: usize

datatype full = Full

datatype empty = Empty

definition rb_new :: "'a list \<Rightarrow> 'a ring_buffer" where
  "rb_new storage = \<lparr>rb_storage = storage, rb_read_at = 0, rb_length = 0\<rparr>"

definition rb_clear :: "'a ring_buffer \<Rightarrow> 'a ring_buffer" where
  "rb_clear R = R\<lparr>rb_read_at := 0, rb_length := 0\<rparr>"

definition rb_capacity :: "'a ring_buffer \<Rightarrow> usize" where
  "rb_capacity R = length (rb_storage R)"

text \<open>The trait \<open>Resettable\<close> of the element type is the function \<open>elem_reset\<close>.\<close>

definition rb_reset :: "('a \<Rightarrow> 'a) \<Rightarrow> 'a ring_buffer \<Rightarrow> 'a ring_buffer" where
  "rb_reset elem_reset R = (rb_clear R)\<lparr>rb_storage := map elem_reset (rb_storage R)\<rparr>"

definition rb_len :: "'a ring_buffer \<Rightarrow> usize" where
  "rb_len R = rb_length R"

definition rb_window :: "'a ring_buffer \<Rightarrow> usize" where
  "rb_window R = rb_capacity R - rb_len R"

definition rb_get_idx :: "usize \<Rightarrow> 'a ring_buffer \<Rightarrow> usize" where
  "rb_get_idx idx R = (if rb_capacity R > 0 then (rb_read_at R + idx) mod rb_capacity R else 0)"

definition rb_get_idx_unchecked :: "usize \<Rightarrow> 'a ring_buffer \<Rightarrow> usize rust" where
  "rb_get_idx_unchecked idx R =
     (if rb_capacity R = 0 then Inl Explicit_Panic else Inr ((rb_read_at R + idx) mod rb_capacity R))"

definition rb_contiguous_window :: "'a ring_buffer \<Rightarrow> usize" where
  "rb_contiguous_window R = min (rb_window R) (rb_capacity R - rb_get_idx (rb_length R) R)"

definition rb_is_empty :: "'a ring_buffer \<Rightarrow> bool" where
  "rb_is_empty R \<longleftrightarrow> rb_len R = 0"

definition rb_is_full :: "'a ring_buffer \<Rightarrow> bool" where
  "rb_is_full R \<longleftrightarrow> rb_window R = 0"

section \<open>Single elements\<close>

definition rb_enqueue_one_with ::
    "(nat \<Rightarrow> 'a \<Rightarrow> ('a \<times> ('r, 'e) result) rust) \<Rightarrow> 'a ring_buffer \<Rightarrow> ((('r, 'e) result, full) result \<times> 'a ring_buffer) rust" where
  "rb_enqueue_one_with f R =
     (if rb_is_full R then Inr (Err Full, R)
      else
        and_then (rb_get_idx_unchecked (rb_length R) R) (\<lambda>index.
        and_then (vec_get (rb_storage R) index) (\<lambda>x.
        and_then (f index x) (\<lambda>(x, res).
        let R = R\<lparr>rb_storage := (rb_storage R)[index := x]\<rparr> in
        Inr (Ok res, case res of Ok _ \<Rightarrow> R\<lparr>rb_length := rb_length R + 1\<rparr> | Err _ \<Rightarrow> R)))))"

text \<open>The reference that is returned is the index of the element.\<close>

definition rb_enqueue_one :: "'a ring_buffer \<Rightarrow> ((nat, full) result \<times> 'a ring_buffer) rust" where
  "rb_enqueue_one R =
     and_then (rb_enqueue_one_with (\<lambda>index x. Inr (x, Ok index)) R) (\<lambda>(res, R).
     Inr (case res of Ok r \<Rightarrow> r | Err e \<Rightarrow> Err e, R))"

definition rb_dequeue_one_with ::
    "(nat \<Rightarrow> 'a \<Rightarrow> ('a \<times> ('r, 'e) result) rust) \<Rightarrow> 'a ring_buffer \<Rightarrow> ((('r, 'e) result, empty) result \<times> 'a ring_buffer) rust" where
  "rb_dequeue_one_with f R =
     (if rb_is_empty R then Inr (Err Empty, R)
      else
        and_then (rb_get_idx_unchecked 1 R) (\<lambda>next_at.
        and_then (vec_get (rb_storage R) (rb_read_at R)) (\<lambda>x.
        and_then (f (rb_read_at R) x) (\<lambda>(x, res).
        let R = R\<lparr>rb_storage := (rb_storage R)[rb_read_at R := x]\<rparr> in
        Inr (Ok res, case res of Ok _ \<Rightarrow> R\<lparr>rb_length := rb_length R - 1, rb_read_at := next_at\<rparr> | Err _ \<Rightarrow> R)))))"

definition rb_dequeue_one :: "'a ring_buffer \<Rightarrow> ((nat, empty) result \<times> 'a ring_buffer) rust" where
  "rb_dequeue_one R =
     and_then (rb_dequeue_one_with (\<lambda>index x. Inr (x, Ok index)) R) (\<lambda>(res, R).
     Inr (case res of Ok r \<Rightarrow> r | Err e \<Rightarrow> Err e, R))"

section \<open>Slices of elements\<close>

text \<open>A closure gets the position and the elements of a slice and returns the elements it leaves, a size and a result.\<close>

definition rb_enqueue_many_with ::
    "(nat \<Rightarrow> 'a list \<Rightarrow> ('a list \<times> usize \<times> 'r) rust) \<Rightarrow> 'a ring_buffer \<Rightarrow> ((usize \<times> 'r) \<times> 'a ring_buffer) rust" where
  "rb_enqueue_many_with f R =
     (let R = (if rb_length R = 0 then R\<lparr>rb_read_at := 0\<rparr> else R);
          write_at = rb_get_idx (rb_length R) R;
          max_size = rb_contiguous_window R
      in and_then (slice (rb_storage R) write_at (write_at + max_size)) (\<lambda>buf.
         and_then (f write_at buf) (\<lambda>(buf, size, result).
         if size \<le> max_size
         then Inr ((size, result), R\<lparr>rb_storage := put (rb_storage R) write_at buf, rb_length := rb_length R + size\<rparr>)
         else Inl Assertion_Failed)))"

text \<open>A slice that is returned is its position and its length.\<close>

definition rb_enqueue_many :: "usize \<Rightarrow> 'a ring_buffer \<Rightarrow> ((nat \<times> usize) \<times> 'a ring_buffer) rust" where
  "rb_enqueue_many n R =
     and_then (rb_enqueue_many_with (\<lambda>at buf. let size = min n (length buf) in Inr (buf, size, (at, size))) R) (\<lambda>((_, r), R).
     Inr (r, R))"

definition rb_enqueue_slice :: "'a list \<Rightarrow> 'a ring_buffer \<Rightarrow> (usize \<times> 'a ring_buffer) rust" where
  "rb_enqueue_slice data R =
     and_then (rb_enqueue_many_with (\<lambda>_ buf.
         let size = min (length buf) (length data) in
         and_then (copy_from_slice 0 size (take size data) buf) (\<lambda>buf. Inr (buf, size, drop size data))) R) (\<lambda>((size_1, data), R).
     and_then (rb_enqueue_many_with (\<lambda>_ buf.
         let size = min (length buf) (length data) in
         and_then (copy_from_slice 0 size (take size data) buf) (\<lambda>buf. Inr (buf, size, ()))) R) (\<lambda>((size_2, _), R).
     Inr (size_1 + size_2, R)))"

definition rb_dequeue_many_with ::
    "(nat \<Rightarrow> 'a list \<Rightarrow> ('a list \<times> usize \<times> 'r) rust) \<Rightarrow> 'a ring_buffer \<Rightarrow> ((usize \<times> 'r) \<times> 'a ring_buffer) rust" where
  "rb_dequeue_many_with f R =
     (let capacity = rb_capacity R;
          max_size = min (rb_len R) (capacity - rb_read_at R)
      in and_then (slice (rb_storage R) (rb_read_at R) (rb_read_at R + max_size)) (\<lambda>buf.
         and_then (f (rb_read_at R) buf) (\<lambda>(buf, size, result).
         if size \<le> max_size
         then Inr ((size, result), R\<lparr>rb_storage := put (rb_storage R) (rb_read_at R) buf,
                    rb_read_at := (if capacity > 0 then (rb_read_at R + size) mod capacity else 0),
                    rb_length := rb_length R - size\<rparr>)
         else Inl Assertion_Failed)))"

definition rb_dequeue_many :: "usize \<Rightarrow> 'a ring_buffer \<Rightarrow> ((nat \<times> usize) \<times> 'a ring_buffer) rust" where
  "rb_dequeue_many n R =
     and_then (rb_dequeue_many_with (\<lambda>at buf. let size = min n (length buf) in Inr (buf, size, (at, size))) R) (\<lambda>((_, r), R).
     Inr (r, R))"

text \<open>The slice of the caller is passed in and returned; the second closure fills what the first one left.\<close>

definition rb_dequeue_slice :: "'a list \<Rightarrow> 'a ring_buffer \<Rightarrow> (usize \<times> 'a list \<times> 'a ring_buffer) rust" where
  "rb_dequeue_slice data R =
     and_then (rb_dequeue_many_with (\<lambda>_ buf.
         let size = min (length buf) (length data) in
         and_then (copy_from_slice 0 size (take size buf) data) (\<lambda>data. Inr (buf, size, data))) R) (\<lambda>((size_1, data), R).
     and_then (rb_dequeue_many_with (\<lambda>_ buf.
         let size = min (length buf) (length (drop size_1 data)) in
         and_then (copy_from_slice 0 size (take size buf) (drop size_1 data)) (\<lambda>d. Inr (buf, size, put data size_1 d))) R) (\<lambda>((size_2, data), R).
     Inr (size_1 + size_2, data, R)))"

section \<open>Random access\<close>

definition rb_get_unallocated :: "usize \<Rightarrow> usize \<Rightarrow> 'a ring_buffer \<Rightarrow> (nat \<times> 'a list) rust" where
  "rb_get_unallocated offset n R =
     (let start_at = rb_get_idx (rb_length R + offset) R in
      if offset > rb_window R then Inr (0, [])
      else
        let clamped_window = rb_window R - offset;
            size = (if n > clamped_window then clamped_window else n);
            until_end = rb_capacity R - start_at;
            size = (if size > until_end then until_end else size)
        in and_then (slice (rb_storage R) start_at (start_at + size)) (\<lambda>s. Inr (start_at, s)))"

text \<open>One of the two blocks of \<open>write_unallocated\<close>: fill the slice and return its length.\<close>

definition rb_write_part :: "usize \<Rightarrow> 'a list \<Rightarrow> 'a ring_buffer \<Rightarrow> (usize \<times> 'a ring_buffer) rust" where
  "rb_write_part offset data R =
     and_then (rb_get_unallocated offset (length data) R) (\<lambda>(at, s).
     and_then (slice data 0 (length s)) (\<lambda>d.
     Inr (length s, R\<lparr>rb_storage := put (rb_storage R) at d\<rparr>)))"

definition rb_write_unallocated :: "usize \<Rightarrow> 'a list \<Rightarrow> 'a ring_buffer \<Rightarrow> (usize \<times> 'a ring_buffer) rust" where
  "rb_write_unallocated offset data R =
     and_then (rb_write_part offset data R) (\<lambda>(size_1, R).
     and_then (rb_write_part (offset + size_1) (drop size_1 data) R) (\<lambda>(size_2, R).
     Inr (size_1 + size_2, R)))"

definition rb_enqueue_unallocated :: "usize \<Rightarrow> 'a ring_buffer \<Rightarrow> 'a ring_buffer rust" where
  "rb_enqueue_unallocated n R =
     (if n \<le> rb_window R then Inr (R\<lparr>rb_length := rb_length R + n\<rparr>) else Inl Assertion_Failed)"

definition rb_get_allocated :: "usize \<Rightarrow> usize \<Rightarrow> 'a ring_buffer \<Rightarrow> 'a list rust" where
  "rb_get_allocated offset n R =
     (let start_at = rb_get_idx offset R in
      if offset > rb_length R then Inr []
      else
        let clamped_length = rb_length R - offset;
            size = (if n > clamped_length then clamped_length else n);
            until_end = rb_capacity R - start_at;
            size = (if size > until_end then until_end else size)
        in slice (rb_storage R) start_at (start_at + size))"

definition rb_read_allocated :: "usize \<Rightarrow> 'a list \<Rightarrow> 'a ring_buffer \<Rightarrow> (usize \<times> 'a list) rust" where
  "rb_read_allocated offset data R =
     and_then (rb_get_allocated offset (length data) R) (\<lambda>s1.
     and_then (copy_from_slice 0 (length s1) s1 data) (\<lambda>data.
     and_then (rb_get_allocated (offset + length s1) (length data - length s1) R) (\<lambda>s2.
     and_then (copy_from_slice (length s1) (length s1 + length s2) s2 data) (\<lambda>data.
     Inr (length s1 + length s2, data)))))"

definition rb_dequeue_allocated :: "usize \<Rightarrow> 'a ring_buffer \<Rightarrow> 'a ring_buffer rust" where
  "rb_dequeue_allocated n R =
     (if n \<le> rb_len R then Inr (R\<lparr>rb_length := rb_length R - n, rb_read_at := rb_get_idx n R\<rparr>) else Inl Assertion_Failed)"

section \<open>The contents\<close>

text \<open>The storage seen from the first element on: the allocated elements, then the others.\<close>

definition ring :: "'a ring_buffer \<Rightarrow> 'a list" where
  "ring R = rotate (rb_read_at R) (rb_storage R)"

definition contents :: "'a ring_buffer \<Rightarrow> 'a list" where
  "contents R = take (rb_length R) (ring R)"

definition rb_ok :: "'a ring_buffer \<Rightarrow> bool" where
  "rb_ok R \<longleftrightarrow> rb_length R \<le> rb_capacity R \<and> (if rb_capacity R = 0 then rb_read_at R = 0 else rb_read_at R < rb_capacity R)"

lemma length_ring [simp]: "length (ring R) = rb_capacity R"
  by (simp add: ring_def rb_capacity_def)

lemma length_contents: "rb_ok R \<Longrightarrow> length (contents R) = rb_length R"
  by (simp add: contents_def rb_ok_def)

lemma rb_ok_length: "rb_ok R \<Longrightarrow> rb_length R \<le> rb_capacity R"
  by (simp add: rb_ok_def)

lemma ring_region:
  assumes "off + n \<le> rb_capacity R" "rb_get_idx off R + n \<le> rb_capacity R"
  shows "slice (rb_storage R) (rb_get_idx off R) (rb_get_idx off R + n) = Inr (take n (drop off (ring R)))"
    "length xs = n \<Longrightarrow> rotate (rb_read_at R) (put (rb_storage R) (rb_get_idx off R) xs) = put (ring R) off xs"
proof -
  have idx: "rb_get_idx off R = (rb_read_at R + off) mod length (rb_storage R)" if "rb_capacity R > 0" using that by (simp add: rb_get_idx_def rb_capacity_def)
  show "slice (rb_storage R) (rb_get_idx off R) (rb_get_idx off R + n) = Inr (take n (drop off (ring R)))"
  proof (cases "rb_capacity R = 0")
    case True
    then show ?thesis using assms by (simp add: slice_def rb_get_idx_def rb_capacity_def ring_def)
  next
    case False
    then show ?thesis using rotate_region(1)[OF idx] assms by (simp add: slice_def ring_def rb_capacity_def)
  qed
  assume xs: "length xs = n"
  show "rotate (rb_read_at R) (put (rb_storage R) (rb_get_idx off R) xs) = put (ring R) off xs"
  proof (cases "rb_capacity R = 0")
    case True
    then show ?thesis using assms xs by (simp add: ring_def)
  next
    case False
    then show ?thesis using rotate_region(2)[OF idx _ _ xs] assms by (simp add: ring_def rb_capacity_def)
  qed
qed

lemma get_idx_less: "rb_get_idx off R + (rb_capacity R - rb_get_idx off R) \<le> rb_capacity R"
  by (simp add: rb_get_idx_def mod_less_divisor[THEN less_imp_le])

text \<open>A region that reaches the end of the storage is followed by one that starts at its beginning.\<close>

lemma get_idx_wrap: "n = rb_capacity R - rb_get_idx a R \<Longrightarrow> rb_get_idx (a + n) R = 0"
proof -
  assume n: "n = rb_capacity R - rb_get_idx a R"
  have "(rb_read_at R + (a + n)) mod rb_capacity R = (rb_get_idx a R + n) mod rb_capacity R" if "rb_capacity R > 0"
    using that by (simp add: rb_get_idx_def mod_simps add.assoc)
  then show ?thesis using n get_idx_less[of a R] by (simp add: rb_get_idx_def)
qed

lemma rb_ok_cong: "\<lbrakk>rb_ok R; rb_capacity Q = rb_capacity R; rb_read_at Q = rb_read_at R; rb_length Q \<le> rb_capacity R\<rbrakk> \<Longrightarrow> rb_ok Q"
  by (simp add: rb_ok_def)

lemma get_idx_cong: "\<lbrakk>rb_capacity Q = rb_capacity R; rb_read_at Q = rb_read_at R\<rbrakk> \<Longrightarrow> rb_get_idx i Q = rb_get_idx i R"
  by (simp add: rb_get_idx_def)

section \<open>Enqueueing\<close>

definition rb_rewind :: "'a ring_buffer \<Rightarrow> 'a ring_buffer" where
  "rb_rewind R = (if rb_length R = 0 then R\<lparr>rb_read_at := 0\<rparr> else R)"

lemma rewind_simps [simp]:
  "rb_length (rb_rewind R) = rb_length R" "rb_capacity (rb_rewind R) = rb_capacity R" "rb_window (rb_rewind R) = rb_window R"
  "contents (rb_rewind R) = contents R" "rb_rewind (rb_rewind R) = rb_rewind R"
  by (simp_all add: rb_rewind_def rb_capacity_def rb_window_def rb_len_def contents_def)

lemma rewind_ok: "rb_ok R \<Longrightarrow> rb_ok (rb_rewind R)"
  by (cases "rb_length R = 0") (simp_all add: rb_rewind_def rb_ok_def rb_capacity_def cong: if_cong)

lemma enqueue_many_with_spec:
  assumes "rb_ok R" and cw: "cw = rb_contiguous_window (rb_rewind R)" and "n \<le> cw"
    and f: "\<And>buf. length buf = cw \<Longrightarrow> \<exists>buf'. f (rb_get_idx (rb_length R) (rb_rewind R)) buf = Inr (buf', n, r) \<and> length buf' = cw \<and> take n buf' = xs"
  obtains R' where "rb_enqueue_many_with f R = Inr ((n, r), R')" "rb_ok R'" "contents R' = contents R @ xs" "rb_length R' = rb_length R + n"
    "rb_capacity R' = rb_capacity R" "rb_read_at R' = rb_read_at (rb_rewind R)"
proof -
  let ?Q = "rb_rewind R" and ?i = "rb_get_idx (rb_length R) (rb_rewind R)"
  have Q: "rb_ok ?Q" using assms(1) by (rule rewind_ok)
  have len: "rb_length R + cw \<le> rb_capacity ?Q" using Q cw by (auto simp: rb_ok_def rb_contiguous_window_def rb_window_def rb_len_def)
  have idx: "?i + cw \<le> rb_capacity ?Q" using get_idx_less[of "rb_length R" ?Q] cw by (simp add: rb_contiguous_window_def)
  let ?buf = "take cw (drop (rb_length R) (ring ?Q))"
  have "length ?buf = cw" using len by simp
  then obtain buf where buf: "f ?i ?buf = Inr (buf, n, r)" "length buf = cw" "take n buf = xs" using f by blast
  let ?R = "?Q\<lparr>rb_storage := put (rb_storage ?Q) ?i buf, rb_length := rb_length R + n\<rparr>"
  have call: "rb_enqueue_many_with f R = Inr ((n, r), ?R)"
    using ring_region(1)[OF len idx] buf(1) assms(3) cw
    unfolding rb_enqueue_many_with_def rb_rewind_def[symmetric] by (simp add: Let_def)
  have ring: "ring ?R = put (ring ?Q) (rb_length R) buf" using ring_region(2)[OF len idx buf(2)] by (simp add: ring_def)
  have "rb_capacity ?R = rb_capacity ?Q" using idx buf(2) by (simp add: rb_capacity_def)
  then have cap: "rb_capacity ?R = rb_capacity R" by simp
  have "contents ?R = take (rb_length R) (ring ?Q) @ take n buf"
    unfolding contents_def ring using len buf(2) assms(3) by (simp add: put_def)
  also have "take (rb_length R) (ring ?Q) = contents R" using rewind_simps(4)[of R] by (simp add: contents_def)
  finally have "contents ?R = contents R @ xs" using buf(3) by simp
  moreover have "rb_ok ?R" by (rule rb_ok_cong[OF Q]) (use cap len assms(3) in simp_all)
  ultimately show thesis using that[OF call] cap by simp
qed

text \<open>The first of two calls uses up the part before the end of the storage, and the second one has the rest of the window.\<close>

lemma window_after:
  assumes "rb_ok R" "n = rb_contiguous_window (rb_rewind R)"
    and "rb_length Q = rb_length R + n" "rb_capacity Q = rb_capacity R" "rb_read_at Q = rb_read_at (rb_rewind R)"
  shows "rb_contiguous_window (rb_rewind Q) = rb_window Q"
proof (cases "rb_length Q = 0 \<or> n = rb_window R")
  case True
  then have "rb_window Q = 0 \<or> rb_length Q = 0" using assms by (auto simp: rb_window_def rb_len_def)
  then show ?thesis by (auto simp: rb_contiguous_window_def rb_rewind_def rb_get_idx_def rb_window_def rb_capacity_def rb_len_def)
next
  case False
  then have "n = rb_capacity R - rb_get_idx (rb_length R) (rb_rewind R)" using assms(2) by (auto simp: rb_contiguous_window_def min_def split: if_splits)
  then have "rb_get_idx (rb_length R + n) (rb_rewind R) = 0" using get_idx_wrap[of n "rb_rewind R" "rb_length R"] by simp
  then have "rb_get_idx (rb_length Q) Q = 0" using get_idx_cong[of Q "rb_rewind R"] assms by simp
  moreover have "rb_rewind Q = Q" using False by (simp add: rb_rewind_def)
  ultimately show ?thesis by (simp add: rb_contiguous_window_def rb_window_def)
qed

lemma copy_front: "n \<le> length buf \<Longrightarrow> n \<le> length xs \<Longrightarrow> copy_from_slice 0 n (take n xs) buf = Inr (take n xs @ drop n buf)"
  by (simp add: copy_from_slice_def slice_def put_def)

lemma enqueue_closure:
  assumes "n = min (length buf) (length xs)"
  shows "(let size = min (length buf) (length xs) in and_then (copy_from_slice 0 size (take size xs) buf) (\<lambda>buf. Inr (buf, size, r size)))
    = Inr (take n xs @ drop n buf, n, r n)"
  using assms copy_front[of n buf xs] by (simp add: Let_def)

text \<open>As much of the data as fits goes to the end of the contents, whether or not it has to be split at the end of the storage.\<close>

lemma enqueue_slice_spec:
  assumes "rb_ok R" and n_def: "n = min (length data) (rb_window R)"
  obtains R' where "rb_enqueue_slice data R = Inr (n, R')" "rb_ok R'" "contents R' = contents R @ take n data" "rb_capacity R' = rb_capacity R"
proof -
  define cw where "cw = rb_contiguous_window (rb_rewind R)"
  define n1 where "n1 = min cw (length data)"
  let ?f = "\<lambda>(_::nat) buf. let size = min (length buf) (length data) in
    and_then (copy_from_slice 0 size (take size data) buf) (\<lambda>buf. Inr (buf, size, drop size data))"
  have f: "\<exists>buf'. ?f i buf = Inr (buf', n1, drop n1 data) \<and> length buf' = cw \<and> take n1 buf' = take n1 data" if "length buf = cw" for i buf
    using that enqueue_closure[of n1 buf data "\<lambda>size. drop size data"] n1_def
    by (intro exI[of _ "take n1 data @ drop n1 buf"]) simp
  obtain Q where Q: "rb_enqueue_many_with ?f R = Inr ((n1, drop n1 data), Q)" "rb_ok Q" "contents Q = contents R @ take n1 data"
      "rb_length Q = rb_length R + n1" "rb_capacity Q = rb_capacity R" "rb_read_at Q = rb_read_at (rb_rewind R)"
    by (rule enqueue_many_with_spec[OF assms(1) cw_def, of n1 ?f "drop n1 data" "take n1 data"]) (use f in \<open>simp_all add: n1_def\<close>)
  define dw where "dw = rb_contiguous_window (rb_rewind Q)"
  define n2 where "n2 = min dw (length (drop n1 data))"
  let ?g = "\<lambda>(_::nat) buf. let size = min (length buf) (length (drop n1 data)) in
    and_then (copy_from_slice 0 size (take size (drop n1 data)) buf) (\<lambda>buf. Inr (buf, size, ()))"
  have g: "\<exists>buf'. ?g i buf = Inr (buf', n2, ()) \<and> length buf' = dw \<and> take n2 buf' = take n2 (drop n1 data)" if "length buf = dw" for i buf
    using that enqueue_closure[of n2 buf "drop n1 data" "\<lambda>_. ()"] n2_def
    by (intro exI[of _ "take n2 (drop n1 data) @ drop n2 buf"]) simp
  obtain R' where R': "rb_enqueue_many_with ?g Q = Inr ((n2, ()), R')" "rb_ok R'" "contents R' = contents Q @ take n2 (drop n1 data)"
      "rb_length R' = rb_length Q + n2" "rb_capacity R' = rb_capacity Q"
    by (rule enqueue_many_with_spec[OF Q(2) dw_def, of n2 ?g "()" "take n2 (drop n1 data)"]) (use g in \<open>simp_all add: n2_def\<close>)
  have "n1 + n2 = n"
  proof (cases "cw \<le> length data")
    case True
    then have "dw = rb_window Q" using window_after[OF assms(1), of n1 Q] Q by (simp add: dw_def n1_def cw_def)
    moreover have "rb_window Q = rb_window R - cw" using Q True by (simp add: rb_window_def rb_len_def n1_def)
    moreover have "cw \<le> rb_window R" by (simp add: cw_def rb_contiguous_window_def)
    ultimately show ?thesis using True by (simp add: n1_def n2_def n_def)
  next
    case False
    moreover have "cw \<le> rb_window R" by (simp add: cw_def rb_contiguous_window_def)
    ultimately show ?thesis by (simp add: n1_def n2_def n_def)
  qed
  moreover have "rb_enqueue_slice data R = Inr (n1 + n2, R')" using Q(1) R'(1) by (simp add: rb_enqueue_slice_def)
  moreover have "contents R' = contents R @ take (n1 + n2) data" using R'(3) Q(3) by (simp add: take_add)
  ultimately show thesis using that R'(2,5) Q(5) by simp
qed

section \<open>Dequeueing\<close>

lemma idx_zero: "rb_ok R \<Longrightarrow> rb_get_idx 0 R = rb_read_at R"
  by (auto simp: rb_get_idx_def rb_ok_def split: if_splits)

lemma rotate_le: "n \<le> length ys \<Longrightarrow> rotate n ys = drop n ys @ take n ys"
  using rotate_append[of "take n ys" "drop n ys"] by simp

text \<open>Moving the start of the buffer by \<open>n\<close> elements.\<close>

lemma rotate_advance:
  assumes "rb_capacity Q = rb_capacity R" "rb_read_at Q = rb_get_idx n R"
  shows "ring Q = rotate n (rotate (rb_read_at R) (rb_storage Q))"
proof (cases "rb_capacity R = 0")
  case True
  then show ?thesis using assms(1) by (simp add: rb_capacity_def ring_def)
next
  case False
  then have "ring Q = rotate ((rb_read_at R + n) mod length (rb_storage Q)) (rb_storage Q)"
    using assms by (simp add: rb_get_idx_def rb_capacity_def ring_def)
  then show ?thesis by (simp add: rotate_rotate add.commute flip: rotate_conv_mod)
qed

lemma advance:
  assumes "rb_ok R" "rb_capacity Q = rb_capacity R" "rb_read_at Q = rb_get_idx n R" "n \<le> rb_length R" "rb_length Q = rb_length R - n"
  shows "rb_ok Q" "contents Q = drop n (take (rb_length R) (rotate (rb_read_at R) (rb_storage Q)))"
proof -
  show "rb_ok Q" using assms by (auto simp: rb_ok_def rb_get_idx_def)
  let ?ys = "rotate (rb_read_at R) (rb_storage Q)"
  have len: "length ?ys = rb_capacity R" "n \<le> rb_capacity R" using assms by (simp_all add: rb_ok_def rb_capacity_def)
  have "ring Q = drop n ?ys @ take n ?ys" using rotate_advance[OF assms(2,3)] rotate_le[of n ?ys] len by simp
  then show "contents Q = drop n (take (rb_length R) ?ys)"
    using len assms by (simp add: contents_def rb_ok_def drop_take)
qed

text \<open>The elements behind the contents keep their places when the start moves.\<close>

lemma advance_free:
  assumes "rb_ok R" "rb_storage Q = rb_storage R" "rb_read_at Q = rb_get_idx n R" "n \<le> rb_length R" "rb_length R + x < rb_capacity R"
  shows "ring Q ! (rb_length R - n + x) = ring R ! (rb_length R + x)"
proof -
  have "ring Q = rotate n (ring R)" using rotate_advance[of Q R n] assms(2,3) by (simp add: rb_capacity_def ring_def)
  then show ?thesis using assms(4,5) nth_rotate[of "rb_length R - n + x" "ring R" n] by simp
qed

lemma dequeue_many_with_spec:
  assumes "rb_ok R" and cw: "cw = min (rb_length R) (rb_capacity R - rb_read_at R)" and "n \<le> cw"
    and f: "f (rb_read_at R) (take cw (contents R)) = Inr (buf, n, r)" "length buf = cw"
  obtains R' where "rb_dequeue_many_with f R = Inr ((n, r), R')" "rb_ok R'" "contents R' = drop n (buf @ drop cw (contents R))"
    "rb_length R' = rb_length R - n" "rb_capacity R' = rb_capacity R" "rb_read_at R' = rb_get_idx n R"
    "buf = take cw (contents R) \<longrightarrow> rb_storage R' = rb_storage R"
proof -
  have len: "0 + cw \<le> rb_capacity R" using assms(1) cw by (auto simp: rb_ok_def)
  have idx: "rb_get_idx 0 R + cw \<le> rb_capacity R" using get_idx_less[of 0 R] cw idx_zero[OF assms(1)] by simp
  let ?R = "R\<lparr>rb_storage := put (rb_storage R) (rb_read_at R) buf, rb_read_at := rb_get_idx n R, rb_length := rb_length R - n\<rparr>"
  have reg: "slice (rb_storage R) (rb_read_at R) (rb_read_at R + cw) = Inr (take cw (contents R))"
    using ring_region(1)[OF len idx] idx_zero[OF assms(1)] cw by (simp add: contents_def min.absorb2)
  have call: "rb_dequeue_many_with f R = Inr ((n, r), ?R)"
    unfolding rb_dequeue_many_with_def Let_def rb_len_def cw[symmetric] reg using f(1) assms(3) by (simp add: rb_get_idx_def)
  have cap: "rb_capacity ?R = rb_capacity R" using idx f(2) idx_zero[OF assms(1)] by (simp add: rb_capacity_def)
  have n: "n \<le> rb_length R" using assms(3) cw by simp
  have ring: "rotate (rb_read_at R) (rb_storage ?R) = buf @ drop cw (ring R)"
    using ring_region(2)[OF len idx f(2)] idx_zero[OF assms(1)] f(2) by (simp add: put_def)
  have "contents ?R = drop n (take (rb_length R) (buf @ drop cw (ring R)))"
    unfolding ring[symmetric] by (rule advance(2)[OF assms(1) cap _ n]) simp_all
  also have "take (rb_length R) (buf @ drop cw (ring R)) = buf @ drop cw (contents R)"
    using cw f(2) by (simp add: contents_def drop_take)
  finally have "contents ?R = drop n (buf @ drop cw (contents R))" .
  moreover have "rb_ok ?R" by (rule advance(1)[OF assms(1) cap _ n]) simp_all
  moreover have "rb_storage ?R = rb_storage R" if "buf = take cw (contents R)"
  proof -
    have "take cw (drop (rb_read_at R) (rb_storage R)) = buf" using reg that by (simp add: slice_def split: if_splits)
    then show ?thesis using f(2) by (simp add: put_def) (metis append_take_drop_id drop_drop add.commute)
  qed
  ultimately show thesis using that[OF call] cap by simp
qed

lemma dequeue_closure:
  assumes "n = min (length buf) (length xs)"
  shows "(let size = min (length buf) (length xs) in and_then (copy_from_slice 0 size (take size buf) xs) (\<lambda>d. Inr (buf, size, r d)))
    = Inr (buf, n, r (take n buf @ drop n xs))"
  using assms copy_front[of n xs buf] by (simp add: Let_def)

text \<open>The slice of the caller gets as many elements from the front as it can hold, and they are removed.\<close>

lemma dequeue_slice_spec:
  assumes "rb_ok R" and n_def: "n = min (length data) (rb_length R)"
  obtains R' where "rb_dequeue_slice data R = Inr (n, take n (contents R) @ drop n data, R')" "rb_ok R'" "contents R' = drop n (contents R)"
    "rb_storage R' = rb_storage R" "rb_length R' = rb_length R - n" "rb_read_at R' = rb_get_idx n R"
proof -
  define cw where "cw = min (rb_length R) (rb_capacity R - rb_read_at R)"
  define n1 where "n1 = min cw (length data)"
  let ?f = "\<lambda>(_::nat) buf. let size = min (length buf) (length data) in
    and_then (copy_from_slice 0 size (take size buf) data) (\<lambda>d. Inr (buf, size, d))"
  let ?d = "take n1 (contents R) @ drop n1 data"
  have l: "length (take cw (contents R)) = cw" using length_contents[OF assms(1)] by (simp add: cw_def)
  have n1: "n1 \<le> cw" by (simp add: n1_def)
  then have t: "take n1 (take cw (contents R)) = take n1 (contents R)" by simp
  have f: "?f (rb_read_at R) (take cw (contents R)) = Inr (take cw (contents R), n1, ?d)"
    unfolding t[symmetric] by (rule dequeue_closure) (simp only: l n1_def)
  obtain Q where Q: "rb_dequeue_many_with ?f R = Inr ((n1, ?d), Q)" "rb_ok Q" "contents Q = drop n1 (take cw (contents R) @ drop cw (contents R))"
      "rb_length Q = rb_length R - n1" "rb_capacity Q = rb_capacity R" "rb_read_at Q = rb_get_idx n1 R"
      "take cw (contents R) = take cw (contents R) \<longrightarrow> rb_storage Q = rb_storage R"
    by (rule dequeue_many_with_spec[where f = ?f, OF assms(1) cw_def n1 f l])
  have Qc: "contents Q = drop n1 (contents R)" using Q(3) by simp
  have "n1 \<le> length (contents R)" using length_contents[OF assms(1)] by (simp add: n1_def cw_def)
  then have dd: "drop n1 ?d = drop n1 data" "length (take n1 (contents R)) = n1" by simp_all
  define dw where "dw = min (rb_length Q) (rb_capacity Q - rb_read_at Q)"
  define n2 where "n2 = min dw (length (drop n1 ?d))"
  let ?g = "\<lambda>(_::nat) buf. let size = min (length buf) (length (drop n1 ?d)) in
    and_then (copy_from_slice 0 size (take size buf) (drop n1 ?d)) (\<lambda>d. Inr (buf, size, put ?d n1 d))"
  let ?e = "put ?d n1 (take n2 (contents Q) @ drop n2 (drop n1 ?d))"
  have l2: "length (take dw (contents Q)) = dw" using length_contents[OF Q(2)] by (simp add: dw_def)
  have n2: "n2 \<le> dw" by (simp add: n2_def)
  then have t2: "take n2 (take dw (contents Q)) = take n2 (contents Q)" by simp
  have g: "?g (rb_read_at Q) (take dw (contents Q)) = Inr (take dw (contents Q), n2, ?e)"
    unfolding t2[symmetric] by (rule dequeue_closure) (simp only: l2 n2_def)
  obtain R' where R': "rb_dequeue_many_with ?g Q = Inr ((n2, ?e), R')" "rb_ok R'" "contents R' = drop n2 (take dw (contents Q) @ drop dw (contents Q))"
      "rb_length R' = rb_length Q - n2" "rb_capacity R' = rb_capacity Q" "rb_read_at R' = rb_get_idx n2 Q"
      "take dw (contents Q) = take dw (contents Q) \<longrightarrow> rb_storage R' = rb_storage Q"
    by (rule dequeue_many_with_spec[where f = ?g, OF Q(2) dw_def n2 g l2])
  have n: "n1 + n2 = n"
  proof (cases "cw \<le> length data \<and> cw < rb_length R")
    case True
    then have "n1 = rb_capacity R - rb_get_idx 0 R" using idx_zero[OF assms(1)] by (simp add: n1_def cw_def min_def split: if_splits)
    then have "rb_read_at Q = 0" using Q(6) get_idx_wrap[of n1 R 0] by simp
    then have "dw = rb_length R - n1" using Q(2,4,5) by (simp add: dw_def rb_ok_def)
    moreover have "n1 = cw" using True by (simp add: n1_def)
    ultimately show ?thesis using True unfolding n2_def n_def dd by (simp add: min_def) linarith
  next
    case False
    then have "n1 = length data \<or> n1 = rb_length R" by (auto simp: n1_def cw_def)
    moreover have "n2 \<le> length data - n1" "n2 \<le> rb_length R - n1" using Q(4) dd by (simp_all add: n2_def dw_def)
    moreover have "n1 \<le> length data" "n1 \<le> rb_length R" by (simp_all add: n1_def cw_def)
    ultimately show ?thesis unfolding n_def by linarith
  qed
  have "?e = take n1 (contents R) @ take n2 (drop n1 (contents R)) @ drop n2 (drop n1 data)"
  proof -
    have "n2 \<le> length (contents Q)" "n2 \<le> length data - n1" using n2 length_contents[OF Q(2)] dd by (simp_all add: dw_def n2_def)
    then show ?thesis using dd Qc by (simp add: put_def)
  qed
  also have "\<dots> = take n (contents R) @ drop n data" by (simp add: n[symmetric] take_add add.commute)
  finally have e: "?e = take n (contents R) @ drop n data" .
  have "rb_dequeue_slice data R = Inr (n, take n (contents R) @ drop n data, R')"
    unfolding rb_dequeue_slice_def Q(1) by (simp only: and_then_simps prod.case R'(1) n e)
  moreover have "contents R' = drop n (contents R)" using R'(3) n unfolding append_take_drop_id Qc by (simp add: add.commute)
  moreover have "rb_read_at R' = rb_get_idx n R"
    using R'(6) Q(5,6) n[symmetric] by (simp add: rb_get_idx_def mod_simps add.assoc)
  moreover have "rb_length R' = rb_length R - n" using R'(4) Q(4) n by simp
  ultimately show thesis using that R'(2,7) Q(7) by simp
qed

end
