(* ===== verification/Ring_Access.thy ===== *)
theory Ring_Access
  imports Ring_Buffer
begin

text \<open>
  The remaining operations of a ring buffer (\<open>smoltcp/src/storage/ring_buffer.rs\<close>): what is written behind the contents, before it is
  enqueued, what is read from within them, single elements and slices that are returned.
\<close>

lemma write_part_spec:
  assumes "rb_ok R" "offset \<le> rb_window R"
    and n_def: "n = min (min (length data) (rb_window R - offset)) (rb_capacity R - rb_get_idx (rb_length R + offset) R)"
  obtains R' where "rb_write_part offset data R = Inr (n, R')" "ring R' = put (ring R) (rb_length R + offset) (take n data)"
    "rb_length R' = rb_length R" "rb_read_at R' = rb_read_at R" "rb_capacity R' = rb_capacity R"
proof -
  let ?a = "rb_length R + offset" and ?i = "rb_get_idx (rb_length R + offset) R"
  let ?R = "R\<lparr>rb_storage := put (rb_storage R) ?i (take n data)\<rparr>"
  have le: "n \<le> length data" "n \<le> rb_window R - offset" "n \<le> rb_capacity R - ?i" unfolding n_def by linarith+
  have "rb_length R \<le> rb_capacity R" using assms(1) by (simp add: rb_ok_def)
  then have len: "?a + n \<le> rb_capacity R" using le(2) assms(2) by (simp add: rb_window_def rb_len_def)
  have idx: "?i + n \<le> rb_capacity R" using get_idx_less[of ?a R] le(3) by simp
  have n: "length (take n data) = n" using le(1) by simp
  have "rb_get_unallocated offset (length data) R = Inr (?i, take n (drop ?a (ring R)))"
  proof -
    let ?s = "if length data > rb_window R - offset then rb_window R - offset else length data"
    have "(if ?s > rb_capacity R - ?i then rb_capacity R - ?i else ?s) = n" unfolding n_def by (simp add: min_def)
    then show ?thesis unfolding rb_get_unallocated_def Let_def using ring_region(1)[OF len idx] assms(2) by simp
  qed
  moreover have "length (take n (drop ?a (ring R))) = n" using len by simp
  ultimately have "rb_write_part offset data R = Inr (n, ?R)" using le(1) by (simp add: rb_write_part_def slice_def)
  moreover have "ring ?R = put (ring R) ?a (take n data)" using ring_region(2)[OF len idx n] by (simp add: ring_def)
  moreover have "rb_capacity ?R = rb_capacity R" using idx n by (simp add: rb_capacity_def)
  ultimately show thesis using that by simp
qed

text \<open>The data is written behind the contents at the offset, as far as the window reaches.\<close>

lemma write_unallocated_spec:
  assumes "rb_ok R" "offset \<le> rb_window R" and n_def: "n = min (length data) (rb_window R - offset)"
  obtains R' where "rb_write_unallocated offset data R = Inr (n, R')" "ring R' = put (ring R) (rb_length R + offset) (take n data)"
    "rb_length R' = rb_length R" "rb_capacity R' = rb_capacity R" "rb_ok R'"
proof -
  define a where "a = rb_length R + offset"
  define n1 where "n1 = min (min (length data) (rb_window R - offset)) (rb_capacity R - rb_get_idx a R)"
  obtain Q where Q: "rb_write_part offset data R = Inr (n1, Q)" "ring Q = put (ring R) a (take n1 data)"
      "rb_length Q = rb_length R" "rb_read_at Q = rb_read_at R" "rb_capacity Q = rb_capacity R"
    unfolding a_def by (rule write_part_spec[OF assms(1,2) n1_def[unfolded a_def]])
  have len: "rb_length R \<le> rb_capacity R" using assms(1) by (simp add: rb_ok_def)
  have w: "rb_window Q = rb_window R" unfolding rb_window_def rb_len_def Q(3,5) ..
  have Qok: "rb_ok Q" by (rule rb_ok_cong[OF assms(1)]) (simp_all only: Q(3-5) len)
  define n2 where "n2 = min (min (length (drop n1 data)) (rb_window Q - (offset + n1))) (rb_capacity Q - rb_get_idx (rb_length Q + (offset + n1)) Q)"
  have off: "offset + n1 \<le> rb_window Q" using assms(2) w by (simp add: n1_def)
  obtain R' where R': "rb_write_part (offset + n1) (drop n1 data) Q = Inr (n2, R')"
      "ring R' = put (ring Q) (rb_length Q + (offset + n1)) (take n2 (drop n1 data))"
      "rb_length R' = rb_length Q" "rb_read_at R' = rb_read_at Q" "rb_capacity R' = rb_capacity Q"
    by (rule write_part_spec[OF Qok off n2_def])
  have n: "n1 + n2 = n"
  proof (cases "n1 = n")
    case True
    then have "length data - n1 = 0 \<or> rb_window Q - (offset + n1) = 0" using w unfolding n_def by linarith
    then have "n2 = 0" by (auto simp: n2_def)
    then show ?thesis using True by simp
  next
    case False
    then have "n1 = rb_capacity R - rb_get_idx a R" by (simp add: n1_def n_def min_def split: if_splits)
    then have "rb_get_idx (rb_length Q + (offset + n1)) Q = 0"
      using get_idx_wrap[of n1 R a] get_idx_cong[of Q R] Q by (simp add: a_def add.assoc)
    then have "n2 = min (length (drop n1 data)) (rb_window R - (offset + n1))" using w Q(5) by (simp add: n2_def rb_window_def)
    moreover have "n1 \<le> n" unfolding n1_def n_def by linarith
    ultimately show ?thesis using assms(2) unfolding n_def length_drop by linarith
  qed
  have "n \<le> length data" "n \<le> rb_window R - offset" unfolding n_def by simp_all
  then have l: "length (take n1 data) = n1" "length (take n2 (drop n1 data)) = n2" and "a + n1 + n2 \<le> rb_capacity R"
    using n assms(2) len by (simp_all add: a_def rb_window_def rb_len_def)
  then have "ring R' = put (ring R) a (take n1 data @ take n2 (drop n1 data))"
    using put_put[of a "take n1 data" "take n2 (drop n1 data)" "ring R"] unfolding R'(2) Q(2,3) l by (simp add: a_def add.assoc)
  also have "take n1 data @ take n2 (drop n1 data) = take n data" by (simp add: n[symmetric] take_add)
  finally have "ring R' = put (ring R) (rb_length R + offset) (take n data)" by (simp add: a_def)
  moreover have "rb_write_unallocated offset data R = Inr (n, R')" unfolding rb_write_unallocated_def Q(1) by (simp only: and_then_simps prod.case R'(1) n)
  moreover have "rb_ok R'" by (rule rb_ok_cong[OF assms(1)]) (simp_all only: Q(3-5) R'(3-5) len)
  ultimately show thesis using that R'(3,5) Q(3,5) by simp
qed

lemma get_allocated_spec:
  assumes "rb_ok R" "offset \<le> rb_length R"
    and n_def: "n = min (min k (rb_length R - offset)) (rb_capacity R - rb_get_idx offset R)"
  shows "rb_get_allocated offset k R = Inr (take n (drop offset (contents R)))"
proof -
  have le: "n \<le> rb_length R - offset" "n \<le> rb_capacity R - rb_get_idx offset R" unfolding n_def by linarith+
  have len: "offset + n \<le> rb_capacity R" using le(1) assms(1,2) unfolding rb_ok_def by linarith
  have idx: "rb_get_idx offset R + n \<le> rb_capacity R" using get_idx_less[of offset R] le(2) by simp
  let ?s = "if k > rb_length R - offset then rb_length R - offset else k"
  have "(if ?s > rb_capacity R - rb_get_idx offset R then rb_capacity R - rb_get_idx offset R else ?s) = n"
    unfolding n_def by (simp add: min_def)
  then have "rb_get_allocated offset k R = Inr (take n (drop offset (ring R)))"
    unfolding rb_get_allocated_def Let_def using ring_region(1)[OF len idx] assms(2) by simp
  also have "take n (drop offset (ring R)) = take n (drop offset (contents R))"
    using le(1) by (simp add: contents_def drop_take)
  finally show ?thesis .
qed

text \<open>The slice of the caller gets the contents from the offset on.\<close>

lemma read_allocated_spec:
  assumes "rb_ok R" "offset \<le> rb_length R" and n_def: "n = min (length data) (rb_length R - offset)"
  shows "rb_read_allocated offset data R = Inr (n, take n (drop offset (contents R)) @ drop n data)"
proof -
  let ?c = "drop offset (contents R)"
  define n1 where "n1 = min (min (length data) (rb_length R - offset)) (rb_capacity R - rb_get_idx offset R)"
  define n2 where "n2 = min (min (length data - n1) (rb_length R - (offset + n1))) (rb_capacity R - rb_get_idx (offset + n1) R)"
  have le: "n1 \<le> length data" "n1 \<le> rb_length R - offset" "n2 \<le> length data - n1" "n2 \<le> rb_length R - (offset + n1)"
    unfolding n1_def n2_def by linarith+
  have c: "length ?c = rb_length R - offset" using length_contents[OF assms(1)] by simp
  have s1: "rb_get_allocated offset (length data) R = Inr (take n1 ?c)" by (rule get_allocated_spec[OF assms(1,2) n1_def])
  have "offset + n1 \<le> rb_length R" using le(2) assms(2) by linarith
  from get_allocated_spec[OF assms(1) this n2_def]
  have s2: "rb_get_allocated (offset + n1) (length data - n1) R = Inr (take n2 (drop n1 ?c))" by (simp add: add.commute)
  have n: "n1 + n2 = n"
  proof (cases "n1 = n")
    case True
    then have "length data - n1 = 0 \<or> rb_length R - (offset + n1) = 0" unfolding n_def by linarith
    then show ?thesis using True le(3,4) by linarith
  next
    case False
    then have "n1 = rb_capacity R - rb_get_idx offset R" by (simp add: n1_def n_def min_def split: if_splits)
    then have "rb_get_idx (offset + n1) R = 0" by (rule get_idx_wrap)
    moreover have "rb_length R \<le> rb_capacity R" using assms(1) by (simp add: rb_ok_def)
    ultimately have "n2 = min (length data - n1) (rb_length R - (offset + n1))" unfolding n2_def by linarith
    then show ?thesis using le(1,2) assms(2) unfolding n_def by linarith
  qed
  let ?d = "take n1 ?c @ drop n1 data"
  have l1: "length (take n1 ?c) = n1" "length (take n2 (drop n1 ?c)) = n2" "length ?d = length data" using le c by simp_all
  have copy1: "copy_from_slice 0 n1 (take n1 ?c) data = Inr ?d" using copy_front[of n1 data ?c] le c by simp
  have copy2: "copy_from_slice n1 (n1 + n2) (take n2 (drop n1 ?c)) ?d = Inr (put ?d n1 (take n2 (drop n1 ?c)))"
    using l1 le(1,3) by (simp add: copy_from_slice_def slice_def)
  have "put ?d n1 (take n2 (drop n1 ?c)) = take n1 ?c @ take n2 (drop n1 ?c) @ drop n2 (drop n1 data)" using l1 by (simp add: put_def)
  also have "\<dots> = take n ?c @ drop n data" unfolding n[symmetric] by (simp only: take_add drop_drop append_assoc add.commute)
  finally have e: "put ?d n1 (take n2 (drop n1 ?c)) = take n ?c @ drop n data" .
  show ?thesis unfolding rb_read_allocated_def
    by (simp only: and_then_simps s1 s2 l1 copy1 copy2[unfolded n] e n)
qed

lemma enqueue_unallocated_spec:
  assumes "rb_ok R" "n \<le> rb_window R"
  shows "\<exists>R'. rb_enqueue_unallocated n R = Inr R' \<and> rb_ok R' \<and> ring R' = ring R \<and> rb_length R' = rb_length R + n \<and> rb_capacity R' = rb_capacity R
    \<and> contents R' = contents R @ take n (drop (rb_length R) (ring R))"
proof -
  have "rb_length R \<le> rb_capacity R" using assms(1) by (simp add: rb_ok_def)
  then have "rb_length R + n \<le> rb_capacity R" using assms(2) by (simp add: rb_window_def rb_len_def)
  then show ?thesis using assms
    by (simp add: rb_enqueue_unallocated_def rb_ok_def rb_capacity_def ring_def contents_def take_add cong: if_cong)
qed

lemma dequeue_allocated_spec:
  assumes "rb_ok R" "n \<le> rb_length R"
  shows "\<exists>R'. rb_dequeue_allocated n R = Inr R' \<and> rb_ok R' \<and> contents R' = drop n (contents R) \<and> rb_length R' = rb_length R - n \<and> rb_capacity R' = rb_capacity R"
proof -
  let ?R = "R\<lparr>rb_length := rb_length R - n, rb_read_at := rb_get_idx n R\<rparr>"
  have cap: "rb_capacity ?R = rb_capacity R" by (simp add: rb_capacity_def)
  have "rb_ok ?R" "contents ?R = drop n (take (rb_length R) (rotate (rb_read_at R) (rb_storage ?R)))"
    by (rule advance[OF assms(1) cap _ assms(2)]; simp)+
  then show ?thesis using assms(2) cap by (simp add: rb_dequeue_allocated_def rb_len_def contents_def ring_def)
qed

section \<open>Single elements and returned slices\<close>

lemma put_one: "i < length buf \<Longrightarrow> put buf i [v] = buf[i := v]"
  by (simp add: put_def upd_conv_take_nth_drop)

lemma idx_in_storage: "rb_capacity R \<noteq> 0 \<Longrightarrow> rb_get_idx i R < length (rb_storage R)"
  by (simp add: rb_get_idx_def rb_capacity_def)

text \<open>The caller assigns to the element that \<open>enqueue_one\<close> returns.\<close>

lemma enqueue_one_spec:
  assumes "rb_ok R" "rb_length R < rb_capacity R"
  defines "i \<equiv> rb_get_idx (rb_length R) R"
  defines "R' \<equiv> R\<lparr>rb_length := rb_length R + 1\<rparr>"
  shows "rb_enqueue_one R = Inr (Ok i, R')" "rb_ok (R'\<lparr>rb_storage := (rb_storage R')[i := v]\<rparr>)"
    "contents (R'\<lparr>rb_storage := (rb_storage R')[i := v]\<rparr>) = contents R @ [v]"
proof -
  have i: "i < length (rb_storage R)" using idx_in_storage[of R "rb_length R"] assms(2) by (simp add: i_def)
  have idx: "rb_get_idx_unchecked (rb_length R) R = Inr i" using assms(2) by (auto simp: i_def rb_get_idx_unchecked_def rb_get_idx_def)
  have "R\<lparr>rb_storage := (rb_storage R)[i := rb_storage R ! i]\<rparr> = R" by simp
  then show "rb_enqueue_one R = Inr (Ok i, R')"
    using idx i assms(2) by (simp add: rb_enqueue_one_def rb_enqueue_one_with_def rb_is_full_def rb_window_def rb_len_def vec_get_def R'_def)
  let ?R = "R'\<lparr>rb_storage := (rb_storage R')[i := v]\<rparr>"
  show "rb_ok ?R" by (rule rb_ok_cong[OF assms(1)]) (use assms(2) in \<open>simp_all add: R'_def rb_capacity_def\<close>)
  have "rb_length R + 1 \<le> rb_capacity R" "rb_get_idx (rb_length R) R + 1 \<le> rb_capacity R" using assms(2) i by (simp_all add: rb_capacity_def i_def)
  from ring_region(2)[OF this, of "[v]"] have "ring ?R = put (ring R) (rb_length R) [v]"
    using put_one[OF i] by (simp add: ring_def R'_def i_def)
  then show "contents ?R = contents R @ [v]" using assms(2) by (simp add: contents_def put_def R'_def)
qed

lemma dequeue_one_with_spec:
  assumes "rb_ok R" "contents R = x # xs" "f (rb_read_at R) x = Inr (y, res)"
  obtains R' where "rb_dequeue_one_with f R = Inr (Ok res, R')" "rb_ok R'" "rb_capacity R' = rb_capacity R"
    "contents R' = (case res of Ok _ \<Rightarrow> xs | Err _ \<Rightarrow> y # xs)" "rb_storage R' = (rb_storage R)[rb_read_at R := y]"
proof -
  have len: "0 < rb_length R" "rb_length R \<le> rb_capacity R" using assms(2) length_contents[OF assms(1)] rb_ok_length[OF assms(1)] by auto
  have i: "rb_read_at R < length (rb_storage R)" using idx_in_storage[of R 0] idx_zero[OF assms(1)] len by simp
  have reg: "0 + 1 \<le> rb_capacity R" "rb_get_idx 0 R + 1 \<le> rb_capacity R" using len i idx_zero[OF assms(1)] by (simp_all add: rb_capacity_def)
  have "take 1 (drop (rb_read_at R) (rb_storage R)) = take 1 (contents R)"
    using ring_region(1)[OF reg] idx_zero[OF assms(1)] i len by (simp add: slice_def contents_def min_def)
  then have x: "rb_storage R ! rb_read_at R = x" using i assms(2) by (simp add: take_Suc_conv_app_nth hd_drop_conv_nth take_Suc)
  let ?S = "R\<lparr>rb_storage := (rb_storage R)[rb_read_at R := y]\<rparr>"
  let ?R = "case res of Ok _ \<Rightarrow> ?S\<lparr>rb_length := rb_length R - 1, rb_read_at := rb_get_idx 1 R\<rparr> | Err _ \<Rightarrow> ?S"
  have call: "rb_dequeue_one_with f R = Inr (Ok res, ?R)"
    using len i x assms(3)
    by (cases res) (simp_all add: rb_dequeue_one_with_def rb_is_empty_def rb_len_def rb_get_idx_unchecked_def rb_get_idx_def vec_get_def)
  have "rotate (rb_read_at R) ((rb_storage R)[rb_read_at R := y]) = put (ring R) 0 [y]"
    using ring_region(2)[OF reg, of "[y]"] idx_zero[OF assms(1)] put_one[OF i] by simp
  moreover have "take (rb_length R) (put (ring R) 0 [y]) = y # xs"
  proof -
    have "drop 1 (contents R) = xs" using assms(2) by simp
    then show ?thesis using len by (simp add: put_def contents_def drop_take take_Cons')
  qed
  ultimately have c: "take (rb_length R) (rotate (rb_read_at R) (rb_storage ?S)) = y # xs" by simp
  show thesis
  proof (cases res)
    case (Ok v)
    let ?Q = "?S\<lparr>rb_length := rb_length R - 1, rb_read_at := rb_get_idx 1 R\<rparr>"
    have "rb_ok ?Q" "contents ?Q = drop 1 (take (rb_length R) (rotate (rb_read_at R) (rb_storage ?Q)))"
      by (rule advance[OF assms(1), of ?Q 1]; use len in \<open>simp add: rb_capacity_def\<close>)+
    then show ?thesis using that[OF call] Ok c by (simp add: rb_capacity_def)
  next
    case (Err e)
    have "rb_ok ?S" by (rule rb_ok_cong[OF assms(1)]) (use len in \<open>simp_all add: rb_capacity_def\<close>)
    then show ?thesis using that[OF call] Err c by (simp add: rb_capacity_def contents_def ring_def)
  qed
qed

text \<open>The caller may still assign to the element that \<open>dequeue_one\<close> returns.\<close>

lemma dequeue_one_spec:
  assumes "rb_ok R" "contents R = x # xs"
  obtains R' where "rb_dequeue_one R = Inr (Ok (rb_read_at R), R')" "vec_get (rb_storage R') (rb_read_at R) = Inr x"
    "\<And>y. rb_ok (R'\<lparr>rb_storage := (rb_storage R')[rb_read_at R := y]\<rparr>)" "\<And>y. contents (R'\<lparr>rb_storage := (rb_storage R')[rb_read_at R := y]\<rparr>) = xs"
proof -
  let ?i = "rb_read_at R"
  let ?R = "R\<lparr>rb_length := rb_length R - 1, rb_read_at := rb_get_idx 1 R\<rparr>"
  have len: "0 < rb_length R" "rb_length R \<le> rb_capacity R" using assms(2) length_contents[OF assms(1)] rb_ok_length[OF assms(1)] by auto
  have i: "?i < length (rb_storage R)" using idx_in_storage[of R 0] idx_zero[OF assms(1)] len by simp
  have reg: "0 + 1 \<le> rb_capacity R" "rb_get_idx 0 R + 1 \<le> rb_capacity R" using len i idx_zero[OF assms(1)] by (simp_all add: rb_capacity_def)
  have "take 1 (drop ?i (rb_storage R)) = take 1 (contents R)"
    using ring_region(1)[OF reg] idx_zero[OF assms(1)] i len by (simp add: slice_def contents_def min_def)
  then have x: "rb_storage R ! ?i = x" using i assms(2) by (simp add: take_Suc_conv_app_nth hd_drop_conv_nth take_Suc)
  have step: "rb_dequeue_one_with (\<lambda>i x. Inr (g x, Ok i :: (nat, empty) result)) R = Inr (Ok (Ok ?i), ?R\<lparr>rb_storage := (rb_storage R)[?i := g (rb_storage R ! ?i)]\<rparr>)" for g
    using len i by (simp add: rb_dequeue_one_with_def rb_is_empty_def rb_len_def rb_get_idx_unchecked_def rb_get_idx_def vec_get_def)
  have "rb_dequeue_one R = Inr (Ok ?i, ?R)" using step[of "\<lambda>x. x"] by (simp add: rb_dequeue_one_def)
  moreover have "rb_ok (?R\<lparr>rb_storage := (rb_storage ?R)[?i := y]\<rparr>) \<and> contents (?R\<lparr>rb_storage := (rb_storage ?R)[?i := y]\<rparr>) = xs" for y
  proof -
    obtain Q where "rb_dequeue_one_with (\<lambda>i x. Inr (y, Ok i :: (nat, empty) result)) R = Inr (Ok (Ok ?i), Q)" "rb_ok Q" "contents Q = xs"
      using dequeue_one_with_spec[OF assms, of "\<lambda>i x. Inr (y, Ok i :: (nat, empty) result)" y "Ok ?i"] by auto
    then show ?thesis using step[of "\<lambda>_. y"] by simp
  qed
  ultimately show thesis using that[of ?R] i x by (simp add: vec_get_def)
qed

text \<open>The slice that \<open>enqueue_many\<close> returns is the end of the contents, and the caller fills it.\<close>

lemma enqueue_many_spec:
  assumes "rb_ok R" "n \<le> rb_contiguous_window (rb_rewind R)"
  obtains R' ys where "rb_enqueue_many n R = Inr ((rb_get_idx (rb_length R) (rb_rewind R), n), R')" "rb_ok R'" "contents R' = contents R @ ys" "length ys = n"
    "rb_length R' = rb_length R + n" "rb_capacity R' = rb_capacity R" "rb_read_at R' = rb_read_at (rb_rewind R)"
proof -
  define cw where "cw = rb_contiguous_window (rb_rewind R)"
  let ?Q = "rb_rewind R" and ?i = "rb_get_idx (rb_length R) (rb_rewind R)"
  let ?buf = "take cw (drop (rb_length R) (ring ?Q))"
  let ?f = "\<lambda>at buf. let size = min n (length buf) in Inr (buf, size, (at, size))"
  have Q: "rb_ok ?Q" using assms(1) by (rule rewind_ok)
  have len: "rb_length R + cw \<le> rb_capacity ?Q" using rb_ok_length[OF Q] by (simp add: cw_def rb_contiguous_window_def rb_window_def rb_len_def)
  have idx: "?i + cw \<le> rb_capacity ?Q" using get_idx_less[of "rb_length R" ?Q] by (simp add: cw_def rb_contiguous_window_def)
  have buf: "slice (rb_storage ?Q) ?i (?i + cw) = Inr ?buf" by (rule ring_region(1)[OF len idx])
  have l: "length ?buf = cw" using len by simp
  have same: "put (rb_storage ?Q) ?i ?buf = rb_storage ?Q"
  proof -
    have "?buf = take cw (drop ?i (rb_storage ?Q))" using buf idx by (simp add: slice_def rb_capacity_def)
    then show ?thesis using l by (simp add: put_def) (metis append_take_drop_id drop_drop add.commute)
  qed
  let ?R = "?Q\<lparr>rb_length := rb_length R + n\<rparr>"
  have "rb_enqueue_many_with ?f R = Inr ((n, (?i, n)), ?R)"
    unfolding rb_enqueue_many_with_def rb_rewind_def[symmetric] Let_def rewind_simps(1) cw_def[symmetric] buf
    using assms(2) l same by (simp add: cw_def[symmetric] min_absorb1)
  then have call: "rb_enqueue_many n R = Inr ((?i, n), ?R)" by (simp add: rb_enqueue_many_def)
  have n: "rb_length R + n \<le> rb_capacity R" using len assms(2) by (simp add: cw_def)
  have "rb_storage ?Q = rb_storage R" by (simp add: rb_rewind_def)
  then have "rb_ok ?R" by (intro rb_ok_cong[OF Q]) (use n in \<open>simp_all add: rb_capacity_def\<close>)
  moreover have "contents ?R = contents R @ take n (drop (rb_length R) (ring ?Q))"
    using rewind_simps(4)[of R] by (simp add: contents_def ring_def take_add)
  moreover have "rb_capacity ?R = rb_capacity R" using rewind_simps(2)[of R] by (simp add: rb_capacity_def)
  ultimately show thesis using that[OF call] n by simp
qed

lemma fill_spec:
  assumes "rb_ok R" "contents R = c @ ys" "length xs = length ys" "rb_get_idx (length c) R + length ys \<le> rb_capacity R"
  shows "contents (R\<lparr>rb_storage := put (rb_storage R) (rb_get_idx (length c) R) xs\<rparr>) = c @ xs"
    "rb_ok (R\<lparr>rb_storage := put (rb_storage R) (rb_get_idx (length c) R) xs\<rparr>)"
proof -
  let ?R = "R\<lparr>rb_storage := put (rb_storage R) (rb_get_idx (length c) R) xs\<rparr>"
  have len: "rb_length R = length c + length ys" using length_contents[OF assms(1)] assms(2) by simp
  then have reg: "length c + length ys \<le> rb_capacity R" using rb_ok_length[OF assms(1)] by simp
  show "rb_ok ?R" by (rule rb_ok_cong[OF assms(1)]) (use rb_ok_length[OF assms(1)] assms(3,4) in \<open>simp_all add: rb_capacity_def\<close>)
  have "ring ?R = put (ring R) (length c) xs" using ring_region(2)[OF reg assms(4,3)] by (simp add: ring_def)
  then have "contents ?R = take (length c) (ring R) @ xs" using len reg assms(3) by (simp add: contents_def put_def)
  also have "take (length c) (ring R) = take (length c) (contents R)" using len by (simp add: contents_def min_absorb1)
  finally show "contents ?R = c @ xs" using assms(2) by simp
qed

lemma dequeue_many_spec:
  assumes "rb_ok R" "n \<le> rb_length R" "rb_read_at R + n \<le> rb_capacity R"
  obtains R' where "rb_dequeue_many n R = Inr ((rb_read_at R, n), R')" "rb_ok R'" "contents R' = drop n (contents R)" "rb_length R' = rb_length R - n"
    "rb_capacity R' = rb_capacity R" "rb_read_at R' = rb_get_idx n R" "rb_storage R' = rb_storage R"
    "take n (drop (rb_read_at R) (rb_storage R)) = take n (contents R)"
proof -
  define cw where "cw = min (rb_length R) (rb_capacity R - rb_read_at R)"
  let ?f = "\<lambda>at buf. let size = min n (length buf) in Inr (buf, size, (at, size))"
  have n: "n \<le> cw" using assms(2,3) by (simp add: cw_def)
  have l: "length (take cw (contents R)) = cw" using length_contents[OF assms(1)] by (simp add: cw_def)
  have f: "?f (rb_read_at R) (take cw (contents R)) = Inr (take cw (contents R), n, (rb_read_at R, n))" using n l by (simp add: Let_def min_absorb1)
  obtain R' where R': "rb_dequeue_many_with ?f R = Inr ((n, (rb_read_at R, n)), R')" "rb_ok R'" "contents R' = drop n (take cw (contents R) @ drop cw (contents R))"
      "rb_length R' = rb_length R - n" "rb_capacity R' = rb_capacity R" "rb_read_at R' = rb_get_idx n R"
      "take cw (contents R) = take cw (contents R) \<longrightarrow> rb_storage R' = rb_storage R"
    by (rule dequeue_many_with_spec[where f = ?f, OF assms(1) cw_def n f l])
  have reg: "0 + n \<le> rb_capacity R" "rb_get_idx 0 R + n \<le> rb_capacity R" using assms(3) idx_zero[OF assms(1)] by simp_all
  have "take n (drop (rb_read_at R) (rb_storage R)) = take n (contents R)"
    using ring_region(1)[OF reg] idx_zero[OF assms(1)] assms(2,3) by (simp add: slice_def contents_def rb_capacity_def min_absorb1)
  moreover have "rb_dequeue_many n R = Inr ((rb_read_at R, n), R')" using R'(1) by (simp add: rb_dequeue_many_def)
  ultimately show thesis using that R' by simp
qed

end
