(* ===== verification/Assembler.thy ===== *)
theory Assembler
  imports Aw_Prelude
begin

text \<open>
  The assembler of the network stack (\<open>smoltcp/src/storage/assembler.rs\<close>), which records the ranges of a TCP window or of a fragmented
  packet that have arrived. It is an array of pairs of a hole and the data behind it; the length of the array is a constant of the
  build and any number here. Offsets and sizes are far below \<open>2 ^ 64\<close> and are natural numbers; the subtractions that could
  underflow, the indexing that could fail and the debug assertions panic.
\<close>

section \<open>Contigs\<close>

record contig =
  hole_size :: usize
  data_size :: usize

definition contig_empty :: contig where
  "contig_empty = \<lparr>hole_size = 0, data_size = 0\<rparr>"

definition hole_and_data :: "usize \<Rightarrow> usize \<Rightarrow> contig" where
  "hole_and_data hole data = \<lparr>hole_size = hole, data_size = data\<rparr>"

definition has_hole :: "contig \<Rightarrow> bool" where
  "has_hole c \<longleftrightarrow> hole_size c \<noteq> 0"

definition has_data :: "contig \<Rightarrow> bool" where
  "has_data c \<longleftrightarrow> data_size c \<noteq> 0"

definition total_size :: "contig \<Rightarrow> usize" where
  "total_size c = hole_size c + data_size c"

definition shrink_hole_by :: "usize \<Rightarrow> contig \<Rightarrow> contig rust" where
  "shrink_hole_by len c = (if len \<le> hole_size c then Inr (c\<lparr>hole_size := hole_size c - len\<rparr>) else Inl Explicit_Panic)"

definition shrink_hole_to :: "usize \<Rightarrow> contig \<Rightarrow> contig rust" where
  "shrink_hole_to len c =
     (if hole_size c \<ge> len then Inr (c\<lparr>hole_size := len, data_size := total_size c - len\<rparr>) else Inl Assertion_Failed)"

section \<open>The assembler\<close>

type_synonym assembler = "contig list"

datatype too_many_holes = TooManyHolesError

definition asm_new :: "nat \<Rightarrow> assembler" where
  "asm_new n = replicate n contig_empty"

definition asm_clear :: "assembler \<Rightarrow> assembler" where
  "asm_clear cs = replicate (length cs) contig_empty"

definition asm_front :: "assembler \<Rightarrow> contig rust" where
  "asm_front cs = vec_get cs 0"

definition peek_front :: "assembler \<Rightarrow> usize rust" where
  "peek_front cs = and_then (asm_front cs) (\<lambda>front. Inr (if has_hole front then 0 else data_size front))"

definition asm_back :: "assembler \<Rightarrow> contig" where
  "asm_back cs = cs ! (length cs - 1)"

definition asm_is_empty :: "assembler \<Rightarrow> bool rust" where
  "asm_is_empty cs = and_then (asm_front cs) (\<lambda>front. Inr (\<not> has_data front))"

text \<open>The loop of \<open>remove_contig_at\<close>; its early return skips the last assignment as well.\<close>

function remove_loop :: "nat \<Rightarrow> assembler \<Rightarrow> assembler" where
  "remove_loop i cs =
     (if i < length cs - 1
      then if \<not> has_data (cs ! i) then cs else remove_loop (i + 1) (cs[i := cs ! (i + 1)])
      else cs[length cs - 1 := contig_empty])"
  by pat_completeness auto
termination by (relation "measure (\<lambda>(i, cs). length cs - i)") auto

definition remove_contig_at :: "nat \<Rightarrow> assembler \<Rightarrow> assembler rust" where
  "remove_contig_at i cs =
     and_then (vec_get cs i) (\<lambda>c. if has_data c then Inr (remove_loop i cs) else Inl Assertion_Failed)"

text \<open>The loop of \<open>add_contig_at\<close> over \<open>at + 1..len\<close> in reverse; the number counts the assignments that are left.\<close>

fun add_loop :: "nat \<Rightarrow> nat \<Rightarrow> assembler \<Rightarrow> assembler" where
  "add_loop i 0 cs = cs"
| "add_loop i (Suc n) cs = add_loop i n (cs[i + Suc n := cs ! (i + n)])"

definition add_contig_at :: "nat \<Rightarrow> assembler \<Rightarrow> (assembler, too_many_holes) result" where
  "add_contig_at i cs =
     (if has_data (asm_back cs) then Err TooManyHolesError
      else Ok ((add_loop i (length cs - 1 - i) cs)[i := contig_empty]))"

text \<open>The first loop of \<open>add\<close>: the array is full, a free contig, or the contig that contains the offset, with the offset relative to it.\<close>

datatype find_result = Find_Full | Find_Free nat usize | Find_At nat usize

function find_contig :: "assembler \<Rightarrow> usize \<Rightarrow> nat \<Rightarrow> find_result" where
  "find_contig cs offset i =
     (if i < length cs
      then if \<not> has_data (cs ! i) then Find_Free i offset
           else if offset \<le> total_size (cs ! i) then Find_At i offset
           else find_contig cs (offset - total_size (cs ! i)) (i + 1)
      else Find_Full)"
  by pat_completeness auto
termination by (relation "measure (\<lambda>(cs, offset, i). length cs - i)") auto

text \<open>The loop that merges contigs to the right into contig \<open>i\<close>; \<open>lim\<close> is \<open>offset + len\<close>.\<close>

function coalesce :: "usize \<Rightarrow> nat \<Rightarrow> nat \<Rightarrow> assembler \<Rightarrow> assembler \<times> nat" where
  "coalesce lim i j cs =
     (if j < length cs \<and> has_data (cs ! j) \<and> lim \<ge> total_size (cs ! i) + hole_size (cs ! j)
      then coalesce lim i (j + 1) (cs[i := (cs ! i)\<lparr>data_size := data_size (cs ! i) + total_size (cs ! j)\<rparr>])
      else (cs, j))"
  by pat_completeness auto
termination by (relation "measure (\<lambda>(lim, i, j, cs). length cs - j)") auto

text \<open>The loop that closes the gap of \<open>shift\<close> contigs.\<close>

function shift_left :: "nat \<Rightarrow> nat \<Rightarrow> assembler \<Rightarrow> assembler" where
  "shift_left shift x cs =
     (if x < length cs \<and> has_data (cs ! x)
      then shift_left shift (x + 1) (cs[x := if x + shift < length cs then cs ! (x + shift) else contig_empty])
      else cs)"
  by pat_completeness auto
termination by (relation "measure (\<lambda>(shift, x, cs). length cs - x)") auto

text \<open>The last step of \<open>add\<close>: the range extends beyond contig \<open>i\<close>.\<close>

definition extend_contig :: "usize \<Rightarrow> nat \<Rightarrow> assembler \<Rightarrow> assembler rust" where
  "extend_contig lim i cs =
     (if lim > total_size (cs ! i)
      then let left = lim - total_size (cs ! i);
               cs = cs[i := (cs ! i)\<lparr>data_size := data_size (cs ! i) + left\<rparr>]
           in if i + 1 < length cs \<and> has_data (cs ! (i + 1))
              then and_then (shrink_hole_by left (cs ! (i + 1))) (\<lambda>c. Inr (cs[i + 1 := c]))
              else Inr cs
      else Inr cs)"

definition asm_add :: "usize \<Rightarrow> usize \<Rightarrow> assembler \<Rightarrow> ((unit, too_many_holes) result \<times> assembler) rust" where
  "asm_add offset len cs =
     (if len = 0 then Inr (Ok (), cs)
      else
        case find_contig cs offset 0 of
          Find_Full \<Rightarrow> Inr (Err TooManyHolesError, cs)
        | Find_Free i offset \<Rightarrow> Inr (Ok (), cs[i := hole_and_data offset len])
        | Find_At i offset \<Rightarrow>
            if offset < hole_size (cs ! i) \<and> offset + len < hole_size (cs ! i)
            then
              (case add_contig_at i cs of
                 Err e \<Rightarrow> Inr (Err e, cs)
               | Ok cs \<Rightarrow>
                   let cs = cs[i := hole_and_data offset len] in
                   and_then (vec_get cs (i + 1)) (\<lambda>c.
                   and_then (shrink_hole_by (offset + len) c) (\<lambda>c. Inr (Ok (), cs[i + 1 := c]))))
            else
              and_then (if offset < hole_size (cs ! i)
                        then and_then (shrink_hole_to offset (cs ! i)) (\<lambda>c. Inr (cs[i := c]))
                        else Inr cs) (\<lambda>cs.
              let (cs, j) = coalesce (offset + len) i (i + 1) cs;
                  shift = j - i - 1;
                  cs = (if shift \<noteq> 0 then shift_left shift (i + 1) cs else cs)
              in and_then (extend_contig (offset + len) i cs) (\<lambda>cs. Inr (Ok (), cs))))"

definition remove_front :: "assembler \<Rightarrow> (usize \<times> assembler) rust" where
  "remove_front cs =
     and_then (asm_front cs) (\<lambda>front.
     if has_hole front \<or> \<not> has_data front then Inr (0, cs)
     else and_then (remove_contig_at 0 cs) (\<lambda>cs. if data_size front > 0 then Inr (data_size front, cs) else Inl Assertion_Failed))"

definition add_then_remove_front :: "usize \<Rightarrow> usize \<Rightarrow> assembler \<Rightarrow> ((usize, too_many_holes) result \<times> assembler) rust" where
  "add_then_remove_front offset len cs =
     and_then (vec_get cs 0) (\<lambda>front.
     if offset = 0 \<and> len < hole_size front
     then Inr (Ok len, cs[0 := front\<lparr>hole_size := hole_size front - len\<rparr>])
     else
       and_then (asm_add offset len cs) (\<lambda>(r, cs).
       case r of
         Err e \<Rightarrow> Inr (Err e, cs)
       | Ok _ \<Rightarrow> and_then (remove_front cs) (\<lambda>(n, cs). Inr (Ok n, cs))))"

text \<open>The iterator over the ranges of data.\<close>

record assembler_iter =
  ai_offset :: usize
  ai_index :: nat
  ai_left :: usize
  ai_right :: usize

definition iter_data :: "usize \<Rightarrow> assembler_iter" where
  "iter_data first_offset = \<lparr>ai_offset = first_offset, ai_index = 0, ai_left = 0, ai_right = 0\<rparr>"

function iter_next :: "assembler \<Rightarrow> assembler_iter \<Rightarrow> (usize \<times> usize) option \<times> assembler_iter" where
  "iter_next cs it =
     (if ai_index it < length cs
      then let c = cs ! ai_index it; left = ai_left it + hole_size c; right = left + data_size c in
           if left < right
           then (Some (left + ai_offset it, right + ai_offset it), it\<lparr>ai_left := right, ai_right := right, ai_index := ai_index it + 1\<rparr>)
           else iter_next cs (it\<lparr>ai_left := left, ai_right := right, ai_index := ai_index it + 1\<rparr>)
      else (None, it))"
  by pat_completeness auto
termination by (relation "measure (\<lambda>(cs, it). length cs - ai_index it)") auto

declare remove_loop.simps [simp del] find_contig.simps [simp del] coalesce.simps [simp del] shift_left.simps [simp del] iter_next.simps [simp del]

section \<open>Reference: insertion into a list of contigs\<close>

abbreviation unused :: "nat \<Rightarrow> assembler" where
  "unused k \<equiv> replicate k contig_empty"

definition grow :: "usize \<Rightarrow> contig \<Rightarrow> contig" where
  "grow n c = c\<lparr>data_size := data_size c + n\<rparr>"

fun finish :: "contig \<Rightarrow> contig list \<Rightarrow> usize \<Rightarrow> contig list" where
  "finish c [] lim = (if lim > total_size c then [grow (lim - total_size c) c] else [c])"
| "finish c (d # ds) lim =
     (if lim > total_size c then grow (lim - total_size c) c # d\<lparr>hole_size := hole_size d - (lim - total_size c)\<rparr> # ds else c # d # ds)"

fun merge :: "contig \<Rightarrow> contig list \<Rightarrow> usize \<Rightarrow> contig list" where
  "merge c [] lim = finish c [] lim"
| "merge c (d # ds) lim =
     (if lim \<ge> total_size c + hole_size d then merge (grow (total_size d) c) ds lim else finish c (d # ds) lim)"

fun ins :: "contig list \<Rightarrow> usize \<Rightarrow> usize \<Rightarrow> contig list" where
  "ins [] offset len = [hole_and_data offset len]"
| "ins (c # ds) offset len =
     (if offset > total_size c then c # ins ds (offset - total_size c) len
      else if offset + len < hole_size c then hole_and_data offset len # c\<lparr>hole_size := hole_size c - (offset + len)\<rparr> # ds
      else merge (if offset < hole_size c then c\<lparr>hole_size := offset, data_size := total_size c - offset\<rparr> else c) ds (offset + len))"

lemma has_data_simps [simp]:
  "\<not> has_data contig_empty" "has_data (grow n c) \<longleftrightarrow> has_data c \<or> 0 < n" "has_data (c\<lparr>hole_size := n\<rparr>) = has_data c"
  "has_data (hole_and_data n m) \<longleftrightarrow> 0 < m"
  by (auto simp: has_data_def contig_empty_def grow_def hole_and_data_def)

lemma find_cases:
  assumes "\<forall>d \<in> set ds. has_data d"
  shows "(\<exists>us v vs off. ds = us @ v # vs \<and> off \<le> total_size v \<and> find_contig (pre @ ds @ unused k) offset (length pre) = Find_At (length pre + length us) off
      \<and> (\<forall>len. ins ds offset len = us @ ins (v # vs) off len))
    \<or> (\<exists>off. find_contig (pre @ ds @ unused k) offset (length pre) = (if k = 0 then Find_Full else Find_Free (length pre + length ds) off)
      \<and> (\<forall>len. ins ds offset len = ds @ [hole_and_data off len]))"
  using assms
proof (induction ds arbitrary: pre offset)
  case Nil
  show ?case by (intro disjI2 exI[of _ offset]) (simp add: find_contig.simps nth_append)
next
  case (Cons c ds)
  have c: "has_data c" using Cons.prems by simp
  show ?case
  proof (cases "offset \<le> total_size c")
    case True
    then have "find_contig (pre @ (c # ds) @ unused k) offset (length pre) = Find_At (length pre) offset"
      using c by (subst find_contig.simps) simp
    then show ?thesis using True by (intro disjI1 exI[of _ "[]"] exI[of _ c] exI[of _ ds] exI[of _ offset]) simp
  next
    case False
    let ?o = "offset - total_size c"
    have step: "find_contig (pre @ (c # ds) @ unused k) offset (length pre) = find_contig ((pre @ [c]) @ ds @ unused k) ?o (length (pre @ [c]))"
      using False c by (subst find_contig.simps) simp
    have ins: "ins (c # ds) offset len = c # ins ds ?o len" for len using False by simp
    have "\<forall>d \<in> set ds. has_data d" using Cons.prems by simp
    from Cons.IH[OF this, of "pre @ [c]" ?o] show ?thesis
    proof (elim disjE exE conjE)
      fix us v vs off
      assume "ds = us @ v # vs" "off \<le> total_size v"
        "find_contig ((pre @ [c]) @ ds @ unused k) ?o (length (pre @ [c])) = Find_At (length (pre @ [c]) + length us) off"
        "\<forall>len. ins ds ?o len = us @ ins (v # vs) off len"
      then show ?thesis unfolding step ins by (intro disjI1 exI[of _ "c # us"] exI[of _ v] exI[of _ vs] exI[of _ off]) simp
    next
      fix off
      assume "find_contig ((pre @ [c]) @ ds @ unused k) ?o (length (pre @ [c])) = (if k = 0 then Find_Full else Find_Free (length (pre @ [c]) + length ds) off)"
        "\<forall>len. ins ds ?o len = ds @ [hole_and_data off len]"
      then show ?thesis unfolding step ins by (intro disjI2 exI[of _ off]) simp
    qed
  qed
qed

lemma add_loop_eq: "length xs = i \<Longrightarrow> length ys = n \<Longrightarrow> add_loop i n (xs @ y # ys @ ws) = xs @ y # butlast (y # ys) @ ws"
proof (induction n arbitrary: ys ws)
  case (Suc n)
  then obtain zs z where ys: "ys = zs @ [z]" "length zs = n" by (metis length_Suc_conv_rev)
  have "(xs @ y # zs @ z # ws) ! (i + n) = last (y # zs)"
    using Suc.prems(1) ys(2) by (cases zs rule: rev_cases) (auto simp: nth_append)
  moreover have "(xs @ y # zs @ z # ws)[i + Suc n := v] = xs @ y # zs @ v # ws" for v
    using Suc.prems(1) ys(2) by (simp add: list_update_append)
  ultimately have "add_loop i (Suc n) (xs @ y # ys @ ws) = add_loop i n (xs @ y # zs @ last (y # zs) # ws)" using ys by simp
  also have "\<dots> = xs @ y # butlast (y # zs) @ last (y # zs) # ws" by (rule Suc.IH[OF Suc.prems(1) ys(2)])
  also have "\<dots> = xs @ y # (y # zs) @ ws" by (metis append.assoc append_Cons append_Nil append_butlast_last_id list.distinct(1))
  also have "(y # zs) = butlast (y # ys)" using ys by simp
  finally show ?case .
qed simp

text \<open>A new contig in front of contig \<open>i\<close>, if the array has an unused one.\<close>

lemma add_contig_at_eq:
  assumes "has_data v" "\<forall>d \<in> set vs. has_data d"
  shows "add_contig_at (length us) (us @ v # vs @ unused k)
    = (if k = 0 then Err TooManyHolesError else Ok (us @ contig_empty # v # vs @ unused (k - 1)))"
proof (cases k)
  case 0
  have "asm_back (us @ v # vs) = last (us @ v # vs)" by (simp add: asm_back_def last_conv_nth)
  then have "has_data (asm_back (us @ v # vs))" using assms by (cases vs rule: rev_cases) auto
  then show ?thesis using 0 by (simp add: add_contig_at_def)
next
  case (Suc m)
  let ?ys = "vs @ unused k"
  have "asm_back (us @ v # ?ys) = last (us @ v # ?ys)" by (simp add: asm_back_def last_conv_nth)
  also have "\<dots> = contig_empty" using Suc by simp
  finally have bk: "\<not> has_data (asm_back (us @ v # ?ys))" by simp
  have "add_loop (length us) (length ?ys) (us @ v # ?ys @ []) = us @ v # butlast (v # ?ys) @ []" by (rule add_loop_eq) simp_all
  moreover have "butlast (v # ?ys) = v # vs @ unused m" using Suc by (simp add: butlast_append butlast_conv_take del: replicate.simps)
  ultimately show ?thesis using bk Suc by (simp add: add_contig_at_def)
qed

text \<open>Merging the contigs to the right.\<close>

lemma coalesce_eq:
  assumes "has_data v" "\<forall>d \<in> set (as @ bs). has_data d"
  shows "\<exists>w as' bs'. coalesce lim (length us) (length us + 1 + length as) (us @ v # as @ bs @ unused k) = (us @ w # as' @ bs' @ unused k, length us + 1 + length as')
    \<and> as' @ bs' = as @ bs \<and> has_data w \<and> merge v bs lim = finish w bs' lim
    \<and> (case bs' of [] \<Rightarrow> True | b # _ \<Rightarrow> lim < total_size w + hole_size b)"
  using assms
proof (induction bs arbitrary: v as)
  case Nil
  have "coalesce lim (length us) (length us + 1 + length as) (us @ v # as @ [] @ unused k) = (us @ v # as @ [] @ unused k, length us + 1 + length as)"
    by (subst coalesce.simps) (auto simp: nth_append nth_Cons')
  then show ?case using Nil by (intro exI[of _ v] exI[of _ as] exI[of _ "[]"]) simp
next
  case (Cons b bs)
  let ?cs = "us @ v # as @ (b # bs) @ unused k" and ?i = "length us" and ?j = "length us + 1 + length as"
  have nth: "?cs ! ?i = v" "?cs ! ?j = b" "?j < length ?cs" by (simp_all add: nth_append)
  have b: "has_data b" using Cons.prems by simp
  show ?case
  proof (cases "lim \<ge> total_size v + hole_size b")
    case True
    let ?w = "grow (total_size b) v"
    have "coalesce lim ?i ?j ?cs = coalesce lim ?i (length us + 1 + length (as @ [b])) (us @ ?w # (as @ [b]) @ bs @ unused k)"
      using True b nth by (subst coalesce.simps) (simp only: nth, simp add: grow_def)
    then show ?thesis using Cons.IH[of ?w "as @ [b]"] Cons.prems True by simp
  next
    case False
    then have "coalesce lim ?i ?j ?cs = (?cs, ?j)" using nth by (subst coalesce.simps) simp
    then show ?thesis using Cons.prems False by (intro exI[of _ v] exI[of _ as] exI[of _ "b # bs"]) simp
  qed
qed

text \<open>Closing the gap: the loop drops the first \<open>n\<close> used contigs behind the position.\<close>

lemma shift_left_eq:
  assumes "0 < n" "\<forall>d \<in> set xs. has_data d"
  shows "shift_left n (length pre) (pre @ xs @ unused k) = pre @ drop n xs @ unused (k + min n (length xs))"
  using assms(2)
proof (induction xs arbitrary: pre)
  case Nil
  then show ?case by (cases k) (subst shift_left.simps, simp add: nth_append)+
next
  case (Cons x xs)
  let ?cs = "pre @ (x # xs) @ unused k"
  let ?y = "if n < length (x # xs) then (x # xs) ! n else contig_empty"
  have y: "(if length pre + n < length ?cs then ?cs ! (length pre + n) else contig_empty) = ?y"
    using assms(1) by (auto simp: nth_append nth_Cons')
  have "shift_left n (length pre) ?cs = shift_left n (length (pre @ [?y])) ((pre @ [?y]) @ xs @ unused k)"
    using Cons.prems by (subst shift_left.simps) (simp only: y, simp)
  also have "\<dots> = (pre @ [?y]) @ drop n xs @ unused (k + min n (length xs))"
    by (rule Cons.IH) (use Cons.prems in simp)
  also have "\<dots> = pre @ drop n (x # xs) @ unused (k + min n (length (x # xs)))"
  proof (cases "n < length (x # xs)")
    case True
    then have "drop n (x # xs) = (x # xs) ! n # drop (Suc n) (x # xs)" by (rule Cons_nth_drop_Suc[symmetric])
    then show ?thesis using True assms(1) by simp
  next
    case False
    then show ?thesis using assms(1) by (cases n) (simp_all add: replicate_append_same)
  qed
  finally show ?case .
qed

lemma extend_eq:
  assumes "has_data w" "\<forall>d \<in> set bs. has_data d" "case bs of [] \<Rightarrow> True | b # _ \<Rightarrow> lim < total_size w + hole_size b"
  shows "extend_contig lim (length us) (us @ w # bs @ unused k) = Inr (us @ finish w bs lim @ unused k)"
proof (cases bs)
  case Nil
  then show ?thesis by (cases k) (simp_all add: extend_contig_def grow_def Let_def nth_append)
next
  case (Cons b bs')
  have [simp]: "(us @ x # b # ys) ! Suc (length us) = b" "(us @ x # b # ys)[Suc (length us) := c] = us @ x # c # ys" for x ys c
    by (simp_all add: nth_append list_update_append)
  show ?thesis using Cons assms by (auto simp: extend_contig_def grow_def Let_def shrink_hole_by_def)
qed

lemma length_merge: "length (merge v vs lim) \<le> Suc (length vs)" "0 < length (merge v vs lim)"
proof -
  have f: "length (finish c ds lim) = Suc (length ds)" for c ds by (cases ds) simp_all
  show "length (merge v vs lim) \<le> Suc (length vs)" by (induction vs arbitrary: v) (auto simp: f simp del: finish.simps intro: le_SucI)
  have "finish c ds lim \<noteq> []" for c ds by (cases ds) simp_all
  then show "0 < length (merge v vs lim)" by (induction vs arbitrary: v) (auto simp del: finish.simps)
qed

text \<open>The last part of \<open>add\<close>, from the coalescing loop on.\<close>

lemma add_tail_eq:
  assumes "has_data v" "\<forall>d \<in> set vs. has_data d"
  shows "(let (cs, j) = coalesce lim (length us) (length us + 1) (us @ v # vs @ unused k);
              shift = j - length us - 1;
              cs = (if shift \<noteq> 0 then shift_left shift (length us + 1) cs else cs)
          in extend_contig lim (length us) cs)
    = Inr (us @ merge v vs lim @ unused (Suc (length vs) + k - length (merge v vs lim)))"
proof -
  obtain w as bs where c: "coalesce lim (length us) (length us + 1) (us @ v # vs @ unused k) = (us @ w # as @ bs @ unused k, length us + 1 + length as)"
    and vs: "as @ bs = vs" and w: "has_data w" and m: "merge v vs lim = finish w bs lim"
    and lim: "case bs of [] \<Rightarrow> True | b # _ \<Rightarrow> lim < total_size w + hole_size b"
    using coalesce_eq[of v "[]" vs lim us k] assms by auto
  have sh: "(if length as \<noteq> 0 then shift_left (length as) (length us + 1) (us @ w # as @ bs @ unused k) else us @ w # as @ bs @ unused k)
      = us @ w # bs @ unused (k + length as)"
    using shift_left_eq[of "length as" vs "us @ [w]" k] assms(2) vs[symmetric] by simp
  have "length (merge v vs lim) = Suc (length bs)" using m vs by (cases bs) simp_all
  then have len: "Suc (length vs) + k - length (merge v vs lim) = k + length as" using vs[symmetric] by simp
  show ?thesis using extend_eq[of w bs lim us "k + length as"] w lim assms(2) vs[symmetric] sh len m
    unfolding c by (simp add: Let_def cong: if_cong)
qed

lemma asm_add_eq:
  assumes "\<forall>d \<in> set ds. has_data d" "len \<noteq> 0"
  shows "asm_add offset len (ds @ unused k)
    = (if length (ins ds offset len) \<le> length ds + k
       then Inr (Ok (), ins ds offset len @ unused (length ds + k - length (ins ds offset len)))
       else Inr (Err TooManyHolesError, ds @ unused k))"
  using find_cases[OF assms(1), of "[]" k offset]
proof (elim disjE exE conjE)
  fix off
  assume "find_contig ([] @ ds @ unused k) offset (length []) = (if k = 0 then Find_Full else Find_Free (length [] + length ds) off)"
    and "\<forall>len. ins ds offset len = ds @ [hole_and_data off len]"
  then show ?thesis using assms(2) by (cases k) (simp_all add: asm_add_def)
next
  fix us v vs off
  assume ds: "ds = us @ v # vs" and off: "off \<le> total_size v"
    and f: "find_contig ([] @ ds @ unused k) offset (length []) = Find_At (length [] + length us) off"
    and i: "\<forall>len. ins ds offset len = us @ ins (v # vs) off len"
  have f': "find_contig (us @ v # vs @ unused k) offset 0 = Find_At (length us) off" using f ds by simp
  have dat: "has_data v" "\<forall>d \<in> set vs. has_data d" using assms(1) ds by simp_all
  show ?thesis
  proof (cases "off + len < hole_size v")
    case True
    have [simp]: "(us @ x # v # ys) ! Suc (length us) = v" "(us @ x # v # ys)[Suc (length us) := c] = us @ x # c # ys" for x ys c
      by (simp_all add: nth_append list_update_append)
    show ?thesis using True off i ds assms(2) f' add_contig_at_eq[OF dat, of us k]
      by (cases k) (simp_all add: asm_add_def Let_def vec_get_def shrink_hole_by_def)
  next
    case False
    let ?v = "if off < hole_size v then v\<lparr>hole_size := off, data_size := total_size v - off\<rparr> else v"
    have "has_data ?v" using dat(1) by (simp add: has_data_def total_size_def)
    note t = add_tail_eq[OF this dat(2), of "off + len" us k]
    have l: "length (merge ?v vs (off + len)) \<le> Suc (length vs)" by (rule length_merge)
    show ?thesis using False off i ds assms(2) f' t l
      by (cases "off < hole_size v") (simp_all add: asm_add_def shrink_hole_to_def Let_def split: prod.splits if_splits cong: if_cong)
  qed
qed

section \<open>The set of offsets an assembler stands for\<close>

fun ranges_from :: "usize \<Rightarrow> contig list \<Rightarrow> usize set" where
  "ranges_from b [] = {}"
| "ranges_from b (c # cs) = {b + hole_size c ..< b + total_size c} \<union> ranges_from (b + total_size c) cs"

definition ranges :: "assembler \<Rightarrow> usize set" where
  "ranges cs = ranges_from 0 cs"

definition solid :: "contig list \<Rightarrow> bool" where
  "solid ds \<longleftrightarrow> (\<forall>d \<in> set ds. has_data d \<and> has_hole d)"

fun contigs_ok :: "contig list \<Rightarrow> bool" where
  "contigs_ok [] \<longleftrightarrow> True"
| "contigs_ok (c # ds) \<longleftrightarrow> has_data c \<and> solid ds"

text \<open>The invariant stated in the source: contigs with data, all but the first with a hole, and then unused contigs.\<close>

definition asm_ok :: "assembler \<Rightarrow> bool" where
  "asm_ok cs \<longleftrightarrow> (\<exists>ds k. cs = ds @ unused k \<and> contigs_ok ds)"

lemma contigs_ok_data: "contigs_ok ds \<Longrightarrow> \<forall>d \<in> set ds. has_data d"
  by (cases ds) (auto simp: solid_def)

lemma ranges_append_unused: "ranges_from b (ds @ unused k) = ranges_from b ds"
proof -
  have "ranges_from b (unused k) = {}" for b by (induction k arbitrary: b) (simp_all add: contig_empty_def total_size_def)
  then show ?thesis by (induction ds arbitrary: b) auto
qed

lemma finish_ranges:
  assumes "case ds of [] \<Rightarrow> True | d # _ \<Rightarrow> lim < total_size c + hole_size d"
  shows "ranges_from b (finish c ds lim) = ranges_from b (c # ds) \<union> {b + hole_size c ..< b + lim}"
proof (cases ds)
  case Nil
  then show ?thesis by (auto simp: grow_def total_size_def)
next
  case (Cons d ds')
  show ?thesis
  proof (cases "lim > total_size c")
    case True
    let ?c = "grow (lim - total_size c) c" and ?d = "d\<lparr>hole_size := hole_size d - (lim - total_size c)\<rparr>"
    have eqs: "hole_size ?c = hole_size c" "total_size ?c = lim" "b + lim + hole_size ?d = b + total_size c + hole_size d"
      "b + lim + total_size ?d = b + total_size c + total_size d"
      using True assms Cons by (simp_all add: total_size_def grow_def)
    have "finish c ds lim = ?c # ?d # ds'" using Cons True by simp
    then show ?thesis using True unfolding Cons by (simp only: ranges_from.simps eqs) auto
  qed (use Cons in auto)
qed

lemma merge_ranges: "hole_size c \<le> lim \<Longrightarrow> ranges_from b (merge c ds lim) = ranges_from b (c # ds) \<union> {b + hole_size c ..< b + lim}"
proof (induction ds arbitrary: c)
  case Nil
  then show ?case using finish_ranges[where ds = "[]" and c = c and lim = lim and b = b] by simp
next
  case (Cons d ds)
  show ?case
  proof (cases "lim \<ge> total_size c + hole_size d")
    case True
    let ?c = "grow (total_size d) c"
    have [simp]: "hole_size ?c = hole_size c" "total_size ?c = total_size c + total_size d" by (simp_all add: grow_def total_size_def)
    have "{b + hole_size c ..< b + (total_size c + total_size d)} \<union> {b + hole_size c ..< b + lim}
        = {b + hole_size c ..< b + total_size c} \<union> {b + total_size c + hole_size d ..< b + total_size c + total_size d} \<union> {b + hole_size c ..< b + lim}"
      using True by (auto simp: total_size_def)
    then show ?thesis using Cons.IH[of ?c] Cons.prems True by (simp add: ac_simps) blast
  next
    case False
    then show ?thesis using finish_ranges[where ds = "d # ds" and c = c and lim = lim and b = b] by simp
  qed
qed

lemma ins_ranges: "ranges_from b (ins ds offset len) = ranges_from b ds \<union> {b + offset ..< b + offset + len}"
proof (induction ds offset len arbitrary: b rule: ins.induct)
  case (1 offset len)
  then show ?case by (simp add: hole_and_data_def total_size_def ac_simps)
next
  case (2 c ds offset len)
  consider (later) "offset > total_size c" | (hole) "offset \<le> total_size c" "offset + len < hole_size c"
    | (merge) "offset \<le> total_size c" "hole_size c \<le> offset + len" by linarith
  then show ?case
  proof cases
    case later
    then show ?thesis using "2.IH"[of "b + total_size c"] by (simp add: Un_assoc)
  next
    case hole
    then have "b + offset + len + (hole_size c - (offset + len)) = b + hole_size c"
      "b + offset + len + (hole_size c - (offset + len) + data_size c) = b + total_size c" by (simp_all add: total_size_def)
    then show ?thesis using hole by (auto simp: hole_and_data_def total_size_def ac_simps)
  next
    case merge
    let ?c = "if offset < hole_size c then c\<lparr>hole_size := offset, data_size := total_size c - offset\<rparr> else c"
    have c: "total_size ?c = total_size c" "hole_size ?c = min offset (hole_size c)" using merge(1) by (auto simp: total_size_def)
    have "ranges_from b (merge ?c ds (offset + len)) = ranges_from b (?c # ds) \<union> {b + hole_size ?c ..< b + (offset + len)}"
      by (rule merge_ranges) (use c merge in simp)
    also have "\<dots> = ranges_from b (c # ds) \<union> {b + offset ..< b + offset + len}"
      unfolding ranges_from.simps c using merge by auto
    finally show ?thesis using merge by simp
  qed
qed

section \<open>The invariant\<close>

lemma solid_simps [simp]: "solid []" "solid (d # ds) \<longleftrightarrow> has_data d \<and> has_hole d \<and> solid ds"
  by (auto simp: solid_def)

lemma solid_contigs_ok: "solid ds \<Longrightarrow> contigs_ok ds"
  by (cases ds) simp_all

lemma merge_ok:
  assumes "has_data c" "solid ds"
  shows "\<exists>m ms. merge c ds lim = m # ms \<and> has_data m \<and> hole_size m = hole_size c \<and> solid ms"
  using assms
proof (induction ds arbitrary: c)
  case (Cons d ds)
  then show ?case using Cons.IH[of "grow (total_size d) c"] by (auto simp: grow_def has_data_def has_hole_def)
qed (simp add: grow_def has_data_def)

lemma ins_solid: "\<lbrakk>solid ds; 0 < offset; 0 < len\<rbrakk> \<Longrightarrow> solid (ins ds offset len)"
proof (induction ds offset len rule: ins.induct)
  case (2 c ds offset len)
  let ?c = "if offset < hole_size c then c\<lparr>hole_size := offset, data_size := total_size c - offset\<rparr> else c"
  have "has_data ?c" "solid ds" "has_hole ?c" using "2.prems" by (auto simp: has_data_def has_hole_def total_size_def)
  then have "solid (merge ?c ds (offset + len))" using merge_ok[of ?c ds "offset + len"] by (auto simp: has_hole_def)
  then show ?case using 2 by (auto simp: has_hole_def has_data_def hole_and_data_def)
qed (simp add: has_hole_def has_data_def hole_and_data_def)

lemma ins_ok: "\<lbrakk>contigs_ok ds; 0 < len\<rbrakk> \<Longrightarrow> contigs_ok (ins ds offset len)"
proof (cases ds)
  case (Cons c cs)
  assume prems: "contigs_ok ds" "0 < len"
  let ?c = "if offset < hole_size c then c\<lparr>hole_size := offset, data_size := total_size c - offset\<rparr> else c"
  have c: "has_data ?c" "solid cs" "has_data c" using prems Cons by (auto simp: has_data_def total_size_def)
  have "contigs_ok (merge ?c cs (offset + len))" using merge_ok[OF c(1,2), of "offset + len"] by auto
  then show ?thesis using Cons c prems ins_solid[of cs "offset - total_size c" len] by (auto simp: has_hole_def)
qed simp

text \<open>Well-formed contigs are determined by the set they stand for, so no other array represents it with fewer contigs.\<close>

lemma ranges_lower: "x \<in> ranges_from b ds \<Longrightarrow> b \<le> x \<and> (solid ds \<longrightarrow> b < x)"
proof (induction ds arbitrary: b)
  case (Cons c ds)
  show ?case using Cons.prems Cons.IH[of "b + total_size c"] by (auto simp: total_size_def has_hole_def)
qed simp

lemma ranges_first:
  assumes "has_data c" "solid ds"
  shows "b + hole_size c \<in> ranges_from b (c # ds)" "b + total_size c \<notin> ranges_from b (c # ds)"
    "x \<in> ranges_from b (c # ds) \<Longrightarrow> b + hole_size c \<le> x"
  using assms ranges_lower[of x "b + total_size c" ds] ranges_lower[of "b + total_size c" "b + total_size c" ds]
  by (auto simp: has_data_def total_size_def)

lemma ranges_tail:
  assumes "has_data c" "solid ds"
  shows "ranges_from (b + total_size c) ds = {x \<in> ranges_from b (c # ds). b + total_size c < x}"
  using assms ranges_lower[of _ "b + total_size c" ds] by auto

lemma ranges_unique:
  assumes "contigs_ok ds" "contigs_ok es" "ranges_from b ds = ranges_from b es"
  shows "ds = es"
  using assms
proof (induction ds arbitrary: es b)
  case Nil
  then show ?case using ranges_first(1) by (cases es) (auto simp del: ranges_from.simps(2))
next
  case (Cons c ds)
  then obtain d es' where es: "es = d # es'" using ranges_first(1)[of c ds b] by (cases es) auto
  have ok: "has_data c" "solid ds" "has_data d" "solid es'" using Cons.prems es by simp_all
  have eq: "ranges_from b (c # ds) = ranges_from b (d # es')" using Cons.prems es by simp
  have hole: "hole_size c = hole_size d"
  proof (rule le_antisym)
    have "b + hole_size d \<in> ranges_from b (c # ds)" unfolding eq by (rule ranges_first(1)[OF ok(3,4)])
    from ranges_first(3)[OF ok(1,2) this] show "hole_size c \<le> hole_size d" by simp
    have "b + hole_size c \<in> ranges_from b (d # es')" unfolding eq[symmetric] by (rule ranges_first(1)[OF ok(1,2)])
    from ranges_first(3)[OF ok(3,4) this] show "hole_size d \<le> hole_size c" by simp
  qed
  have in_c: "x \<in> ranges_from b (c # ds)" if "b + hole_size c \<le> x" "x < b + total_size c" for x using that by simp
  have in_d: "x \<in> ranges_from b (d # es')" if "b + hole_size d \<le> x" "x < b + total_size d" for x using that by simp
  have "\<not> total_size c < total_size d"
    using in_d[of "b + total_size c"] ranges_first(2)[OF ok(1,2), of b] hole unfolding eq by (auto simp: total_size_def simp del: ranges_from.simps)
  moreover have "\<not> total_size d < total_size c"
    using in_c[of "b + total_size d"] ranges_first(2)[OF ok(3,4), of b] hole unfolding eq by (auto simp: total_size_def simp del: ranges_from.simps)
  ultimately have tot: "total_size c = total_size d" by simp
  have "ranges_from (b + total_size c) ds = ranges_from (b + total_size c) es'"
    using ranges_tail[OF ok(1,2), of b] ranges_tail[OF ok(3,4), of b] unfolding eq tot by (simp only:)
  then have "ds = es'" by (rule Cons.IH[OF solid_contigs_ok[OF ok(2)] solid_contigs_ok[OF ok(4)]])
  then show ?case using es hole tot by (simp add: total_size_def)
qed

lemma ranges_unique_length:
  assumes "contigs_ok ds" "asm_ok cs" "ranges cs = ranges_from 0 ds"
  shows "length ds \<le> length cs"
proof -
  obtain es k where cs: "cs = es @ unused k" "contigs_ok es" using assms(2) by (auto simp: asm_ok_def)
  then have "ds = es" using ranges_unique[of ds es 0] assms by (simp add: ranges_def ranges_append_unused)
  then show ?thesis using cs by simp
qed

section \<open>The operations on the set\<close>

lemma remove_loop_unused: "remove_loop (length pre) (pre @ unused (Suc k)) = pre @ unused (Suc k)"
  by (subst remove_loop.simps) (simp add: nth_append)

lemma remove_loop_eq:
  assumes "has_data c" "\<forall>d \<in> set ds. has_data d"
  shows "remove_loop (length pre) (pre @ c # ds @ unused k) = pre @ ds @ unused (Suc k)"
  using assms
proof (induction ds arbitrary: pre c)
  case Nil
  then show ?case
  proof (cases k)
    case (Suc m)
    then show ?thesis using remove_loop_unused[of "pre @ [contig_empty]" m] Nil by (subst remove_loop.simps) (simp add: nth_append)
  qed (subst remove_loop.simps, simp)
next
  case (Cons d ds)
  then show ?case using Cons.IH[of d "pre @ [d]"] by (subst remove_loop.simps) (simp add: nth_append)
qed

lemma remove_front_eq:
  assumes "contigs_ok ds" "ds @ unused k \<noteq> []"
  shows "remove_front (ds @ unused k)
    = Inr (case ds of [] \<Rightarrow> (0, unused k) | c # cs \<Rightarrow> if has_hole c then (0, ds @ unused k) else (data_size c, cs @ unused (Suc k)))"
proof (cases ds)
  case Nil
  then show ?thesis using assms(2) by (cases k) (simp_all add: remove_front_def asm_front_def vec_get_def)
next
  case (Cons c cs)
  have "remove_loop 0 (c # cs @ unused k) = cs @ unused (Suc k)"
    using remove_loop_eq[of c cs "[]" k] assms(1) Cons by (simp add: solid_def)
  then show ?thesis using assms(1) Cons
    by (simp add: remove_front_def asm_front_def vec_get_def remove_contig_at_def) (simp add: has_data_def)
qed

lemma ranges_shift: "ranges_from b cs = {x. x + n \<in> ranges_from (b + n) cs}"
proof (induction cs arbitrary: b)
  case (Cons c cs)
  show ?case unfolding ranges_from.simps Cons.IH[of "b + total_size c"] by (auto simp: ac_simps)
qed simp

lemma add_spec:
  assumes "contigs_ok ds"
  obtains (ok) ds' k' where "asm_add offset len (ds @ unused k) = Inr (Ok (), ds' @ unused k')" "contigs_ok ds'" "length ds' + k' = length ds + k"
      "ranges_from 0 ds' = ranges_from 0 ds \<union> {offset ..< offset + len}"
  | (full) "asm_add offset len (ds @ unused k) = Inr (Err TooManyHolesError, ds @ unused k)" "length ds + k < length (ins ds offset len)" "0 < len"
proof (cases "len = 0")
  case True
  then show ?thesis using ok[of ds k] assms by (simp add: asm_add_def)
next
  case False
  note eq = asm_add_eq[OF contigs_ok_data[OF assms] False, of offset k]
  show ?thesis
  proof (cases "length (ins ds offset len) \<le> length ds + k")
    case True
    then show ?thesis using ok[of "ins ds offset len" "length ds + k - length (ins ds offset len)"] eq ins_ok[OF assms] False
      by (simp add: ins_ranges)
  qed (use full eq False in simp)
qed

lemma remove_front_spec:
  assumes "contigs_ok ds" "0 < length ds + k"
  obtains n es where "remove_front (ds @ unused k) = Inr (n, es)" "asm_ok es" "length es = length ds + k"
    "{..<n} \<subseteq> ranges_from 0 ds" "n \<notin> ranges_from 0 ds" "ranges es = {x. x + n \<in> ranges_from 0 ds}"
proof -
  have ok: "asm_ok (es @ unused m)" if "contigs_ok es" for es m using that by (auto simp: asm_ok_def)
  have eq: "remove_front (ds @ unused k)
    = Inr (case ds of [] \<Rightarrow> (0, unused k) | c # cs \<Rightarrow> if has_hole c then (0, ds @ unused k) else (data_size c, cs @ unused (Suc k)))"
    using assms by (intro remove_front_eq) auto
  consider (nil) "ds = []" | (hole) c cs where "ds = c # cs" "has_hole c" | (front) c cs where "ds = c # cs" "\<not> has_hole c"
    by (cases ds) auto
  then show thesis
  proof cases
    case nil
    then show ?thesis using that[of 0 "unused k"] eq ok[of "[]" k] ranges_append_unused[of 0 "[]" k] by (simp add: ranges_def)
  next
    case hole
    have "solid ds" using hole assms(1) by simp
    then have "0 \<notin> ranges_from 0 ds" using ranges_lower by blast
    moreover have "ranges (ds @ unused k) = {x. x + 0 \<in> ranges_from 0 ds}" by (simp add: ranges_def ranges_append_unused)
    moreover have "remove_front (ds @ unused k) = Inr (0, ds @ unused k)" using eq hole by simp
    ultimately show ?thesis using that[of 0 "ds @ unused k"] ok[OF assms(1), of k] by simp
  next
    case front
    let ?n = "data_size c"
    have c: "has_data c" "solid cs" using front assms(1) by simp_all
    have n: "hole_size c = 0" "total_size c = ?n" using front by (simp_all add: has_hole_def total_size_def)
    have "{..<?n} \<subseteq> ranges_from 0 ds" using front n by auto
    moreover have "?n \<notin> ranges_from 0 ds" using ranges_first(2)[OF c, of 0] n front by simp
    moreover have "ranges (cs @ unused (Suc k)) = {x. x + ?n \<in> ranges_from 0 ds}"
      unfolding ranges_def ranges_append_unused using ranges_shift[of 0 cs ?n] front n by simp
    ultimately show ?thesis using that[of ?n "cs @ unused (Suc k)"] eq front ok[OF solid_contigs_ok[OF c(2)], of "Suc k"] by simp
  qed
qed

lemma full_no_representation:
  assumes "contigs_ok ds" "0 < len" "n < length (ins ds offset len)" "asm_ok as" "ranges as = ranges_from 0 ds \<union> {offset ..< offset + len}"
  shows "n < length as"
  using ranges_unique_length[OF ins_ok[OF assms(1,2)] assms(4)] assms(3,5) by (fastforce simp: ins_ranges)

lemma ins_front_length:
  assumes "contigs_ok ds" "0 < length ds + k" "\<not> len < hole_size (hd (ds @ unused k))"
  shows "length (ins ds 0 len) \<le> length ds + k"
proof (cases ds)
  case (Cons c cs)
  have "length (merge v cs len) \<le> Suc (length cs + k)" for v using length_merge(1)[of v cs len] by linarith
  then show ?thesis using Cons assms(3) by simp
qed (use assms(2) in simp)

text \<open>
  C11. Adding the range \<open>offset ..< offset + len\<close> to an assembler that satisfies the invariant of the source returns without a
  panic and keeps the invariant. Either the assembler then stands for the old set of offsets together with the range, or it reports
  too many holes and is unchanged; it does so only when no assembler of that size satisfying the invariant stands for the union.
\<close>

theorem assembler_add_refines_union:
  assumes "asm_ok cs"
  shows "\<exists>r cs'. asm_add offset len cs = Inr (r, cs') \<and> asm_ok cs' \<and> length cs' = length cs
    \<and> (case r of Ok _ \<Rightarrow> ranges cs' = ranges cs \<union> {offset ..< offset + len}
       | Err _ \<Rightarrow> cs' = cs \<and> (\<forall>as. asm_ok as \<and> ranges as = ranges cs \<union> {offset ..< offset + len} \<longrightarrow> length cs < length as))"
proof -
  obtain ds k where cs: "cs = ds @ unused k" and ds: "contigs_ok ds" using assms by (auto simp: asm_ok_def)
  have r: "ranges cs = ranges_from 0 ds" by (simp add: cs ranges_def ranges_append_unused)
  show ?thesis
  proof (rule add_spec[OF ds, of offset len k])
    fix ds' k'
    assume "asm_add offset len (ds @ unused k) = Inr (Ok (), ds' @ unused k')" "contigs_ok ds'" "length ds' + k' = length ds + k"
      "ranges_from 0 ds' = ranges_from 0 ds \<union> {offset ..< offset + len}"
    then show ?thesis
      by (intro exI[of _ "Ok ()"] exI[of _ "ds' @ unused k'"]) (auto simp: asm_ok_def r cs, simp_all add: ranges_def ranges_append_unused)
  next
    assume full: "asm_add offset len (ds @ unused k) = Inr (Err TooManyHolesError, ds @ unused k)" "length ds + k < length (ins ds offset len)" "0 < len"
    have "length cs < length as" if "asm_ok as \<and> ranges as = ranges cs \<union> {offset ..< offset + len}" for as
      using full_no_representation[OF ds full(3,2), of as] that r cs by simp
    then show ?thesis using full(1) assms cs by (intro exI[of _ "Err TooManyHolesError"] exI[of _ cs]) simp
  qed
qed

theorem assembler_add_refines_union_witness:
  "asm_ok [hole_and_data 4 2, contig_empty] \<and> asm_add 0 5 [hole_and_data 4 2, contig_empty] = Inr (Ok (), [hole_and_data 0 6, contig_empty])
    \<and> ranges [hole_and_data 0 6, contig_empty] = ranges [hole_and_data 4 2, contig_empty] \<union> {0 ..< 0 + 5}"
proof -
  let ?cs = "[hole_and_data 4 2, contig_empty]"
  have ok: "asm_ok ?cs" unfolding asm_ok_def by (intro exI[of _ "[hole_and_data 4 2]"] exI[of _ 1]) simp
  have "asm_add 0 5 ?cs = Inr (Ok (), [hole_and_data 0 6, contig_empty])"
    using asm_add_eq[of "[hole_and_data 4 2]" 5 0 1] by (simp add: hole_and_data_def total_size_def grow_def has_data_def)
  then show ?thesis using ok assembler_add_refines_union[OF ok, of 0 5] by simp
qed

text \<open>The shortcut of \<open>add_then_remove_front\<close>: a range at offset 0 that ends within the first hole.\<close>

lemma shortcut_spec:
  assumes "contigs_ok (c # cs)" "len < hole_size c"
  defines "R \<equiv> ranges_from 0 (c # cs) \<union> {0 ..< 0 + len}" and "d \<equiv> c\<lparr>hole_size := hole_size c - len\<rparr>"
  shows "contigs_ok (d # cs)" "{..<len} \<subseteq> R" "len \<notin> R" "ranges_from 0 (d # cs) = {x. x + len \<in> R}"
proof -
  show "contigs_ok (d # cs)" using assms(1) by (simp add: d_def)
  show "{..<len} \<subseteq> R" by (auto simp: R_def)
  have "len \<notin> ranges_from 0 (c # cs)" using ranges_first(3)[of c cs len 0] assms(1,2) by (auto simp del: ranges_from.simps)
  then show "len \<notin> R" by (simp add: R_def)
  have t: "total_size d + len = total_size c" "hole_size d + len = hole_size c" using assms(2) by (simp_all add: d_def total_size_def)
  have "ranges_from 0 (d # cs) = {hole_size d ..< total_size d} \<union> {x. x + len \<in> ranges_from (total_size c) cs}"
    using ranges_shift[of "total_size d" cs len] t by simp
  also have "\<dots> = {x. x + len \<in> R}" using t by (auto simp: R_def)
  finally show "ranges_from 0 (d # cs) = {x. x + len \<in> R}" .
qed

lemma add_then_remove_front_spec:
  assumes "asm_ok cs" "cs \<noteq> []"
  shows "\<exists>r cs'. add_then_remove_front offset len cs = Inr (r, cs') \<and> asm_ok cs' \<and> length cs' = length cs
    \<and> (let R = ranges cs \<union> {offset ..< offset + len} in
       case r of Ok n \<Rightarrow> {..<n} \<subseteq> R \<and> n \<notin> R \<and> ranges cs' = {x. x + n \<in> R}
       | Err _ \<Rightarrow> offset \<noteq> 0 \<and> cs' = cs \<and> (\<forall>as. asm_ok as \<and> ranges as = R \<longrightarrow> length cs < length as))"
proof -
  obtain ds k where cs: "cs = ds @ unused k" and ds: "contigs_ok ds" using assms(1) by (auto simp: asm_ok_def)
  have r: "ranges cs = ranges_from 0 ds" by (simp add: cs ranges_def ranges_append_unused)
  have pos: "0 < length ds + k" using assms(2) cs by auto
  have front: "vec_get cs 0 = Inr (hd cs)" using assms(2) by (cases cs) (simp_all add: vec_get_def)
  show ?thesis
  proof (cases "offset = 0 \<and> len < hole_size (hd cs)")
    case True
    then obtain c es where c: "ds = c # es" "hd cs = c" using cs pos by (cases ds; cases k) (auto simp: contig_empty_def)
    let ?d = "c\<lparr>hole_size := hole_size c - len\<rparr>"
    note s = shortcut_spec[of c es len, OF ds[unfolded c(1)]]
    have "add_then_remove_front offset len cs = Inr (Ok len, (?d # es) @ unused k)"
      using True front c cs by (simp add: add_then_remove_front_def)
    moreover have "asm_ok ((?d # es) @ unused k)" using s(1) True c unfolding asm_ok_def by blast
    moreover have "ranges ((?d # es) @ unused k) = ranges_from 0 (?d # es)" unfolding ranges_def by (rule ranges_append_unused)
    ultimately show ?thesis using s(2-4) True c cs r
      by (intro exI[of _ "Ok len"] exI[of _ "(?d # es) @ unused k"]) (simp del: ranges_from.simps)
  next
    case False
    show ?thesis
    proof (rule add_spec[OF ds, of offset len k])
      fix ds' k'
      assume add: "asm_add offset len (ds @ unused k) = Inr (Ok (), ds' @ unused k')" "contigs_ok ds'" "length ds' + k' = length ds + k"
        "ranges_from 0 ds' = ranges_from 0 ds \<union> {offset ..< offset + len}"
      obtain n es where f: "remove_front (ds' @ unused k') = Inr (n, es)" "asm_ok es" "length es = length ds' + k'"
        "{..<n} \<subseteq> ranges_from 0 ds'" "n \<notin> ranges_from 0 ds'" "ranges es = {x. x + n \<in> ranges_from 0 ds'}"
        using remove_front_spec[OF add(2), of k'] pos add(3) by metis
      have "add_then_remove_front offset len cs = Inr (Ok n, es)"
        using False front add(1) f(1) cs by (auto simp: add_then_remove_front_def)
      then show ?thesis using f(2-6) add(3) cs r unfolding add(4) by (intro exI[of _ "Ok n"] exI[of _ es]) (simp add: Let_def)
    next
      assume full: "asm_add offset len (ds @ unused k) = Inr (Err TooManyHolesError, ds @ unused k)" "length ds + k < length (ins ds offset len)" "0 < len"
      have "offset \<noteq> 0" using ins_front_length[OF ds pos, of len] False full(2) cs by (cases "offset = 0") auto
      moreover have "add_then_remove_front offset len cs = Inr (Err TooManyHolesError, cs)"
        using False front full(1) cs by (auto simp: add_then_remove_front_def)
      moreover have "length cs < length as" if "asm_ok as \<and> ranges as = ranges cs \<union> {offset ..< offset + len}" for as
        using full_no_representation[OF ds full(3,2), of as] that r cs by simp
      ultimately show ?thesis using assms(1) by (intro exI[of _ "Err TooManyHolesError"] exI[of _ cs]) simp
    qed
  qed
qed

text \<open>
  C10. With the invariant, \<open>add_then_remove_front\<close> never panics and keeps the invariant. On success it returns the length \<open>n\<close> of
  the longest prefix of the union of the old offsets and the added range, and the assembler stands for the rest, shifted by \<open>n\<close>.
  It fails only for a range that does not start at offset 0, so the next expected segment is never dropped, and then nothing changes
  and no assembler of that size stands for the union.
\<close>

theorem next_segment_never_dropped:
  assumes "asm_ok cs" "cs \<noteq> []"
  shows "\<exists>r cs'. add_then_remove_front offset len cs = Inr (r, cs') \<and> asm_ok cs' \<and> length cs' = length cs
    \<and> (let R = ranges cs \<union> {offset ..< offset + len} in
       case r of Ok n \<Rightarrow> {..<n} \<subseteq> R \<and> n \<notin> R \<and> ranges cs' = {x. x + n \<in> R}
       | Err _ \<Rightarrow> offset \<noteq> 0 \<and> cs' = cs \<and> (\<forall>as. asm_ok as \<and> ranges as = R \<longrightarrow> length cs < length as))"
  using assms by (rule add_then_remove_front_spec)

theorem next_segment_never_dropped_witness:
  "asm_ok [hole_and_data 4 2] \<and> add_then_remove_front 0 3 [hole_and_data 4 2] = Inr (Ok 3, [hole_and_data 1 2])
    \<and> (let R = ranges [hole_and_data 4 2] \<union> {0 ..< 0 + 3} in {..<3} \<subseteq> R \<and> 3 \<notin> R \<and> ranges [hole_and_data 1 2] = {x. x + 3 \<in> R})"
proof -
  have ok: "asm_ok [hole_and_data 4 2]" unfolding asm_ok_def by (intro exI[of _ "[hole_and_data 4 2]"] exI[of _ 0]) simp
  have "add_then_remove_front 0 3 [hole_and_data 4 2] = Inr (Ok 3, [hole_and_data 1 2])"
    by (simp add: add_then_remove_front_def vec_get_def hole_and_data_def)
  then show ?thesis using ok next_segment_never_dropped[OF ok, of 0 3] by (simp add: Let_def)
qed

end
