(* ===== verification/Packet_Buffer.thy ===== *)
theory Packet_Buffer
  imports Ring_Access
begin

text \<open>
  The packet buffer of the datagram sockets (\<open>smoltcp/src/storage/packet_buffer.rs\<close>): a ring buffer of the sizes and headers of the
  packets and one of their octets. A packet is never split at the end of the storage; padding goes before it instead. The slices
  that the operations return are their position and length in the storage of the octets; the caller writes or reads through them.
\<close>

section \<open>The buffer\<close>

record 'h packet_metadata =
  pm_size :: usize
  pm_header :: "'h option"

definition pm_EMPTY :: "'h packet_metadata" where
  "pm_EMPTY = \<lparr>pm_size = 0, pm_header = None\<rparr>"

definition pm_padding :: "usize \<Rightarrow> 'h packet_metadata" where
  "pm_padding n = \<lparr>pm_size = n, pm_header = None\<rparr>"

definition pm_packet :: "usize \<Rightarrow> 'h \<Rightarrow> 'h packet_metadata" where
  "pm_packet n header = \<lparr>pm_size = n, pm_header = Some header\<rparr>"

definition pm_is_padding :: "'h packet_metadata \<Rightarrow> bool" where
  "pm_is_padding m \<longleftrightarrow> pm_header m = None"

record 'h packet_buffer =
  pb_metadata :: "'h packet_metadata ring_buffer"
  pb_payload :: "u8 ring_buffer"

definition pb_new :: "'h packet_metadata list \<Rightarrow> u8 list \<Rightarrow> 'h packet_buffer" where
  "pb_new metadata_storage payload_storage = \<lparr>pb_metadata = rb_new metadata_storage, pb_payload = rb_new payload_storage\<rparr>"

definition pb_is_empty :: "'h packet_buffer \<Rightarrow> bool" where
  "pb_is_empty B \<longleftrightarrow> rb_is_empty (pb_metadata B)"

definition pb_is_full :: "'h packet_buffer \<Rightarrow> bool" where
  "pb_is_full B \<longleftrightarrow> rb_is_full (pb_metadata B)"

text \<open>\<open>*self.metadata_ring.enqueue_one()? = v\<close>.\<close>

definition pb_push_metadata :: "'h packet_metadata \<Rightarrow> 'h packet_buffer \<Rightarrow> ((unit, full) result \<times> 'h packet_buffer) rust" where
  "pb_push_metadata v B =
     and_then (rb_enqueue_one (pb_metadata B)) (\<lambda>(r, M).
     case r of
       Err e \<Rightarrow> Inr (Err e, B\<lparr>pb_metadata := M\<rparr>)
     | Ok i \<Rightarrow> Inr (Ok (), B\<lparr>pb_metadata := M\<lparr>rb_storage := (rb_storage M)[i := v]\<rparr>\<rparr>))"

text \<open>The padding up to the end of the storage.\<close>

definition pb_pad :: "usize \<Rightarrow> 'h packet_buffer \<Rightarrow> ((unit, full) result \<times> 'h packet_buffer) rust" where
  "pb_pad contig_window B =
     and_then (pb_push_metadata (pm_padding contig_window) B) (\<lambda>(r, B).
     case r of
       Err e \<Rightarrow> Inr (Err e, B)
     | Ok _ \<Rightarrow> and_then (rb_enqueue_many contig_window (pb_payload B)) (\<lambda>(_, P). Inr (Ok (), B\<lparr>pb_payload := P\<rparr>)))"

definition pb_enqueue :: "usize \<Rightarrow> 'h \<Rightarrow> 'h packet_buffer \<Rightarrow> ((nat \<times> usize, full) result \<times> 'h packet_buffer) rust" where
  "pb_enqueue n header B =
     (if rb_capacity (pb_payload B) < n \<or> rb_is_full (pb_metadata B) then Inr (Err Full, B)
      else
        let B = (if rb_is_empty (pb_payload B) then B\<lparr>pb_payload := rb_clear (pb_payload B)\<rparr> else B);
            window = rb_window (pb_payload B);
            contig_window = rb_contiguous_window (pb_payload B)
        in if window < n then Inr (Err Full, B)
           else if contig_window < n \<and> window - contig_window < n then Inr (Err Full, B)
           else
             and_then (if contig_window < n then pb_pad contig_window B else Inr (Ok (), B)) (\<lambda>(r, B).
             case r of
               Err e \<Rightarrow> Inr (Err e, B)
             | Ok _ \<Rightarrow>
                 and_then (pb_push_metadata (pm_packet n header) B) (\<lambda>(r, B).
                 case r of
                   Err e \<Rightarrow> Inr (Err e, B)
                 | Ok _ \<Rightarrow>
                     and_then (rb_enqueue_many n (pb_payload B)) (\<lambda>(payload_buf, P).
                     if snd payload_buf \<noteq> n then Inl Assertion_Failed
                     else Inr (Ok payload_buf, B\<lparr>pb_payload := P\<rparr>)))))"

text \<open>The closure fills a slice of \<open>max_size\<close> octets and returns the size of the packet.\<close>

definition pb_enqueue_with_infallible ::
    "usize \<Rightarrow> 'h \<Rightarrow> (u8 list \<Rightarrow> (u8 list \<times> usize) rust) \<Rightarrow> 'h packet_buffer \<Rightarrow> ((usize, full) result \<times> 'h packet_buffer) rust" where
  "pb_enqueue_with_infallible max_size header f B =
     (if rb_capacity (pb_payload B) < max_size \<or> rb_is_full (pb_metadata B) then Inr (Err Full, B)
      else
        let window = rb_window (pb_payload B);
            contig_window = rb_contiguous_window (pb_payload B)
        in if window < max_size then Inr (Err Full, B)
           else if contig_window < max_size \<and> window - contig_window < max_size then Inr (Err Full, B)
           else
             and_then (if contig_window < max_size then pb_pad contig_window B else Inr (Ok (), B)) (\<lambda>(r, B).
             case r of
               Err e \<Rightarrow> Inr (Err e, B)
             | Ok _ \<Rightarrow>
                 and_then (rb_enqueue_many_with (\<lambda>_ data.
                     and_then (slice data 0 max_size) (\<lambda>d.
                     and_then (f d) (\<lambda>(d, size). Inr (put data 0 d, size, ())))) (pb_payload B)) (\<lambda>((size, _), P).
                 let B = B\<lparr>pb_payload := P\<rparr> in
                 and_then (pb_push_metadata (pm_packet size header) B) (\<lambda>(r, B).
                 case r of
                   Err e \<Rightarrow> Inr (Err e, B)
                 | Ok _ \<Rightarrow> Inr (Ok size, B)))))"

text \<open>The closure of \<open>dequeue_padding\<close> also changes the ring of the octets, which it returns.\<close>

definition pb_dequeue_padding :: "'h packet_buffer \<Rightarrow> 'h packet_buffer rust" where
  "pb_dequeue_padding B =
     and_then (rb_dequeue_one_with (\<lambda>_ metadata.
         if pm_is_padding metadata
         then and_then (rb_dequeue_many (pm_size metadata) (pb_payload B)) (\<lambda>(_, P). Inr (metadata, Ok P))
         else Inr (metadata, Err ())) (pb_metadata B)) (\<lambda>(r, M).
     Inr (B\<lparr>pb_metadata := M, pb_payload := (case r of Ok (Ok P) \<Rightarrow> P | _ \<Rightarrow> pb_payload B)\<rparr>))"

text \<open>The closure gets the header and the octets, and returns them as it leaves them.\<close>

definition pb_dequeue_with ::
    "('h \<Rightarrow> u8 list \<Rightarrow> ('h \<times> u8 list \<times> ('r, 'e) result) rust) \<Rightarrow> 'h packet_buffer \<Rightarrow> ((('r, 'e) result, empty) result \<times> 'h packet_buffer) rust" where
  "pb_dequeue_with f B =
     and_then (pb_dequeue_padding B) (\<lambda>B.
     and_then (rb_dequeue_one_with (\<lambda>_ metadata.
         and_then (rb_dequeue_many_with (\<lambda>_ payload_buf.
             if length payload_buf < pm_size metadata then Inl Assertion_Failed
             else
               and_then (unwrap (pm_header metadata)) (\<lambda>h.
               and_then (slice payload_buf 0 (pm_size metadata)) (\<lambda>d.
               and_then (f h d) (\<lambda>(h, d, res).
               Inr (put payload_buf 0 d, case res of Ok _ \<Rightarrow> pm_size metadata | Err _ \<Rightarrow> 0, (h, res)))))) (pb_payload B))
           (\<lambda>((_, h, res), P).
         Inr (metadata\<lparr>pm_header := Some h\<rparr>, case res of Ok val \<Rightarrow> Ok (val, P) | Err err \<Rightarrow> Err (err, P)))) (pb_metadata B)) (\<lambda>(r, M).
     let B = B\<lparr>pb_metadata := M\<rparr> in
     Inr (case r of
            Err e \<Rightarrow> (Err e, B)
          | Ok (Ok (val, P)) \<Rightarrow> (Ok (Ok val), B\<lparr>pb_payload := P\<rparr>)
          | Ok (Err (err, P)) \<Rightarrow> (Ok (Err err), B\<lparr>pb_payload := P\<rparr>))))"

definition pb_dequeue :: "'h packet_buffer \<Rightarrow> (('h \<times> nat \<times> usize, empty) result \<times> 'h packet_buffer) rust" where
  "pb_dequeue B =
     and_then (pb_dequeue_padding B) (\<lambda>B.
     and_then (rb_dequeue_one (pb_metadata B)) (\<lambda>(r, M).
     let B = B\<lparr>pb_metadata := M\<rparr> in
     case r of
       Err e \<Rightarrow> Inr (Err e, B)
     | Ok i \<Rightarrow>
         and_then (vec_get (rb_storage M) i) (\<lambda>meta.
         and_then (rb_dequeue_many (pm_size meta) (pb_payload B)) (\<lambda>(payload_buf, P).
         if snd payload_buf \<noteq> pm_size meta then Inl Assertion_Failed
         else
           and_then (unwrap (pm_header meta)) (\<lambda>header.
           Inr (Ok (header, payload_buf),
                B\<lparr>pb_payload := P, pb_metadata := M\<lparr>rb_storage := (rb_storage M)[i := meta\<lparr>pm_header := None\<rparr>]\<rparr>\<rparr>))))))"

definition pb_peek :: "'h packet_buffer \<Rightarrow> (('h \<times> u8 list, empty) result \<times> 'h packet_buffer) rust" where
  "pb_peek B =
     and_then (pb_dequeue_padding B) (\<lambda>B.
     and_then (rb_get_allocated 0 1 (pb_metadata B)) (\<lambda>s.
     case s of
       metadata # _ \<Rightarrow>
         and_then (unwrap (pm_header metadata)) (\<lambda>header.
         and_then (rb_get_allocated 0 (pm_size metadata) (pb_payload B)) (\<lambda>d. Inr (Ok (header, d), B)))
     | [] \<Rightarrow> Inr (Err Empty, B)))"

definition pb_packet_capacity :: "'h packet_buffer \<Rightarrow> usize" where
  "pb_packet_capacity B = rb_capacity (pb_metadata B)"

definition pb_payload_capacity :: "'h packet_buffer \<Rightarrow> usize" where
  "pb_payload_capacity B = rb_capacity (pb_payload B)"

definition pb_reset :: "'h packet_buffer \<Rightarrow> 'h packet_buffer" where
  "pb_reset B = B\<lparr>pb_payload := rb_clear (pb_payload B), pb_metadata := rb_clear (pb_metadata B)\<rparr>"

section \<open>The packets of a buffer\<close>

fun unpack :: "'h packet_metadata list \<Rightarrow> u8 list \<Rightarrow> ('h \<times> u8 list) list" where
  "unpack [] bs = []"
| "unpack (m # ms) bs = (case pm_header m of None \<Rightarrow> [] | Some h \<Rightarrow> [(h, take (pm_size m) bs)]) @ unpack ms (drop (pm_size m) bs)"

definition packets :: "'h packet_buffer \<Rightarrow> ('h \<times> u8 list) list" where
  "packets B = unpack (contents (pb_metadata B)) (contents (pb_payload B))"

abbreviation sizes :: "'h packet_metadata list \<Rightarrow> nat" where
  "sizes ms \<equiv> sum_list (map pm_size ms)"

text \<open>No packet crosses the end of the storage, and padding is not empty and never follows padding.\<close>

fun placed :: "nat \<Rightarrow> nat \<Rightarrow> 'h packet_metadata list \<Rightarrow> bool" where
  "placed cap a [] \<longleftrightarrow> True"
| "placed cap a (m # ms) \<longleftrightarrow> a + pm_size m \<le> cap \<and> placed cap ((a + pm_size m) mod cap) ms"

fun paddings_ok :: "'h packet_metadata list \<Rightarrow> bool" where
  "paddings_ok [] \<longleftrightarrow> True"
| "paddings_ok (m # ms) \<longleftrightarrow> (pm_is_padding m \<longrightarrow> 0 < pm_size m \<and> (ms = [] \<or> \<not> pm_is_padding (hd ms))) \<and> paddings_ok ms"

definition pb_ok :: "'h packet_buffer \<Rightarrow> bool" where
  "pb_ok B \<longleftrightarrow>
     (let P = pb_payload B; ms = contents (pb_metadata B) in
      rb_ok (pb_metadata B) \<and> rb_ok P \<and> sizes ms = rb_length P \<and> placed (rb_capacity P) (rb_read_at P) ms \<and> paddings_ok ms
      \<and> (ms \<noteq> [] \<and> pm_is_padding (last ms) \<longrightarrow> rb_get_idx (rb_length P) P = 0))"

lemma unpack_append: "sizes ms = length bs \<Longrightarrow> unpack (ms @ ms') (bs @ bs') = unpack ms bs @ unpack ms' bs'"
proof (induction ms arbitrary: bs)
  case (Cons m ms)
  then have "pm_size m \<le> length bs" "sizes ms = length (drop (pm_size m) bs)" by auto
  then show ?case using Cons.IH[of "drop (pm_size m) bs"] by (simp split: option.splits)
qed simp

lemma placed_snoc:
  assumes "a mod cap = a"
  shows "placed cap a (ms @ [m]) \<longleftrightarrow> placed cap a ms \<and> (a + sizes ms) mod cap + pm_size m \<le> cap"
  using assms
proof (induction ms arbitrary: a)
  case (Cons x xs)
  have "((a + pm_size x) mod cap + sizes xs) mod cap = (a + sizes (x # xs)) mod cap" by (simp add: mod_simps add.assoc)
  then show ?case using Cons.IH[of "(a + pm_size x) mod cap"] by simp
qed simp

lemma paddings_snoc:
  "paddings_ok (ms @ [m]) \<longleftrightarrow> paddings_ok ms \<and> (pm_is_padding m \<longrightarrow> 0 < pm_size m \<and> (ms = [] \<or> \<not> pm_is_padding (last ms)))"
proof (induction ms)
  case (Cons x xs)
  then show ?case by (cases xs) auto
qed simp

lemma placed_zero: "sizes ms = 0 \<Longrightarrow> placed cap 0 ms"
  by (induction ms) auto

lemma paddings_zero: "\<lbrakk>paddings_ok ms; sizes ms = 0; m \<in> set ms\<rbrakk> \<Longrightarrow> \<not> pm_is_padding m"
  by (induction ms) auto

lemma get_idx_mod: "rb_ok R \<Longrightarrow> rb_get_idx i R = (rb_read_at R + i) mod rb_capacity R \<or> rb_capacity R = 0"
  by (simp add: rb_get_idx_def)

lemma read_at_mod: "rb_ok R \<Longrightarrow> rb_read_at R mod rb_capacity R = rb_read_at R"
  by (auto simp: rb_ok_def split: if_splits)

section \<open>Enqueueing packets\<close>

lemma push_metadata_spec:
  assumes "rb_ok (pb_metadata B)" "\<not> rb_is_full (pb_metadata B)"
  obtains M where "pb_push_metadata v B = Inr (Ok (), B\<lparr>pb_metadata := M\<rparr>)" "rb_ok M" "contents M = contents (pb_metadata B) @ [v]"
proof -
  let ?M = "pb_metadata B"
  have "rb_length ?M < rb_capacity ?M" using assms(2) by (simp add: rb_is_full_def rb_window_def rb_len_def)
  note e = enqueue_one_spec[OF assms(1) this]
  show thesis using that e by (simp add: pb_push_metadata_def)
qed

lemma push_metadata_full: "rb_is_full (pb_metadata B) \<Longrightarrow> pb_push_metadata v B = Inr (Err Full, B)"
  by (simp add: pb_push_metadata_def rb_enqueue_one_def rb_enqueue_one_with_def)

text \<open>A piece of metadata and its octets together, where they fit without crossing the end of the storage.\<close>

lemma append_ok:
  assumes "pb_ok B" "rb_ok M" "contents M = contents (pb_metadata B) @ [m]"
    and "rb_ok P" "contents P = contents (pb_payload B) @ ys" "length ys = pm_size m" "rb_capacity P = rb_capacity (pb_payload B)"
      "rb_read_at P = rb_read_at (pb_payload B)" "rb_get_idx (rb_length (pb_payload B)) (pb_payload B) + pm_size m \<le> rb_capacity (pb_payload B)"
    and "pm_is_padding m \<longrightarrow> 0 < pm_size m \<and> rb_get_idx (rb_length (pb_payload B)) (pb_payload B) \<noteq> 0 \<and> rb_get_idx (rb_length P) P = 0"
  shows "pb_ok (B\<lparr>pb_metadata := M, pb_payload := P\<rparr>)"
    "packets (B\<lparr>pb_metadata := M, pb_payload := P\<rparr>) = packets B @ (case pm_header m of None \<Rightarrow> [] | Some h \<Rightarrow> [(h, ys)])"
proof -
  let ?P = "pb_payload B" and ?ms = "contents (pb_metadata B)"
  have ok: "rb_ok ?P" "sizes ?ms = rb_length ?P" "placed (rb_capacity ?P) (rb_read_at ?P) ?ms" "paddings_ok ?ms"
    "?ms \<noteq> [] \<and> pm_is_padding (last ?ms) \<longrightarrow> rb_get_idx (rb_length ?P) ?P = 0" using assms(1) by (simp_all add: pb_ok_def Let_def)
  have l: "sizes ?ms = length (contents ?P)" using ok(2) length_contents[OF ok(1)] by simp
  show "packets (B\<lparr>pb_metadata := M, pb_payload := P\<rparr>) = packets B @ (case pm_header m of None \<Rightarrow> [] | Some h \<Rightarrow> [(h, ys)])"
    using assms(3,5,6) unpack_append[OF l, of "[m]" ys] by (simp add: packets_def split: option.splits)
  have len: "rb_length P = rb_length ?P + pm_size m" using length_contents[OF assms(4)] length_contents[OF ok(1)] assms(5,6) by simp
  have "placed (rb_capacity ?P) (rb_read_at ?P) (?ms @ [m])"
  proof (cases "rb_capacity ?P = 0")
    case True
    then have "rb_read_at ?P = 0" "rb_length ?P = 0" using ok(1) by (auto simp: rb_ok_def)
    then show ?thesis using True assms(9) ok(2,3) placed_snoc[of "rb_read_at ?P" "rb_capacity ?P" ?ms m] by simp
  next
    case False
    then show ?thesis using placed_snoc[OF read_at_mod[OF ok(1)], of ?ms m] ok(2,3) assms(9) by (simp add: rb_get_idx_def)
  qed
  moreover have "paddings_ok (?ms @ [m])" using paddings_snoc[of ?ms m] ok(4,5) assms(10) by auto
  ultimately show "pb_ok (B\<lparr>pb_metadata := M, pb_payload := P\<rparr>)"
    using assms(2-8,10) ok(2) len by (simp add: pb_ok_def Let_def)
qed

text \<open>The caller fills the slice that \<open>enqueue\<close> returns.\<close>

definition pb_write :: "nat \<Rightarrow> u8 list \<Rightarrow> 'h packet_buffer \<Rightarrow> 'h packet_buffer" where
  "pb_write at xs B = B\<lparr>pb_payload := (pb_payload B)\<lparr>rb_storage := put (rb_storage (pb_payload B)) at xs\<rparr>\<rparr>"

lemma enqueue_fit:
  assumes "pb_ok B" "\<not> rb_is_full (pb_metadata B)" "n \<le> rb_contiguous_window (pb_payload B)" "rb_rewind (pb_payload B) = pb_payload B"
  obtains at B' where "and_then (pb_push_metadata (pm_packet n h) B) (\<lambda>(r, B). case r of
        Err e \<Rightarrow> Inr (Err e, B)
      | Ok _ \<Rightarrow> and_then (rb_enqueue_many n (pb_payload B)) (\<lambda>(payload_buf, P).
          if snd payload_buf \<noteq> n then Inl Assertion_Failed else Inr (Ok payload_buf, B\<lparr>pb_payload := P\<rparr>))) = Inr (Ok (at, n), B')"
    "\<forall>xs. length xs = n \<longrightarrow> pb_ok (pb_write at xs B') \<and> packets (pb_write at xs B') = packets B @ [(h, xs)]"
proof -
  let ?P = "pb_payload B" and ?i = "rb_get_idx (rb_length (pb_payload B)) (pb_payload B)"
  have ok: "rb_ok (pb_metadata B)" "rb_ok ?P" using assms(1) by (simp_all add: pb_ok_def Let_def)
  obtain M where M: "pb_push_metadata (pm_packet n h) B = Inr (Ok (), B\<lparr>pb_metadata := M\<rparr>)" "rb_ok M" "contents M = contents (pb_metadata B) @ [pm_packet n h]"
    by (rule push_metadata_spec[OF ok(1) assms(2), of "pm_packet n h"])
  obtain P ys where P: "rb_enqueue_many n ?P = Inr ((rb_get_idx (rb_length ?P) (rb_rewind ?P), n), P)" "rb_ok P" "contents P = contents ?P @ ys" "length ys = n"
      "rb_length P = rb_length ?P + n" "rb_capacity P = rb_capacity ?P" "rb_read_at P = rb_read_at (rb_rewind ?P)"
    by (rule enqueue_many_spec[OF ok(2), of n]) (use assms(3,4) in auto)
  have i: "?i + n \<le> rb_capacity ?P" using assms(3) get_idx_less[of "rb_length ?P" ?P] by (simp add: rb_contiguous_window_def)
  have idx: "rb_get_idx (length (contents ?P)) P = ?i" using get_idx_cong[OF P(6)] P(7) assms(4) length_contents[OF ok(2)] by simp
  let ?B = "B\<lparr>pb_metadata := M, pb_payload := P\<rparr>"
  have "pb_ok (pb_write ?i xs ?B) \<and> packets (pb_write ?i xs ?B) = packets B @ [(h, xs)]" if xs: "length xs = n" for xs
  proof -
    let ?Q = "P\<lparr>rb_storage := put (rb_storage P) ?i xs\<rparr>"
    have Q: "contents ?Q = contents ?P @ xs" "rb_ok ?Q" using fill_spec[OF P(2,3), of xs] xs P(4,6) i idx by simp_all
    have cap: "rb_capacity ?Q = rb_capacity ?P" using i xs P(6) by (simp add: rb_capacity_def)
    have w: "pb_write ?i xs ?B = B\<lparr>pb_metadata := M, pb_payload := ?Q\<rparr>" by (simp add: pb_write_def)
    show ?thesis unfolding w using append_ok[OF assms(1) M(2,3) Q(2,1) _ cap] xs P(7) assms(4) i
      by (simp add: pm_packet_def pm_is_padding_def)
  qed
  then show thesis using that[of ?i ?B] M(1) P(1) assms(4) by simp
qed

lemma pad_spec:
  assumes "pb_ok B" "\<not> rb_is_full (pb_metadata B)" "rb_rewind (pb_payload B) = pb_payload B" and cw: "cw = rb_contiguous_window (pb_payload B)"
    and "cw < rb_window (pb_payload B)"
  obtains B' where "pb_pad cw B = Inr (Ok (), B')" "pb_ok B'" "packets B' = packets B" "rb_rewind (pb_payload B') = pb_payload B'"
    "rb_contiguous_window (pb_payload B') = rb_window (pb_payload B) - cw"
proof -
  let ?P = "pb_payload B" and ?i = "rb_get_idx (rb_length (pb_payload B)) (pb_payload B)"
  have ok: "rb_ok (pb_metadata B)" "rb_ok ?P" using assms(1) by (simp_all add: pb_ok_def Let_def)
  have cwi: "cw = rb_capacity ?P - ?i" using cw assms(5) by (simp add: rb_contiguous_window_def min_def split: if_splits)
  have cap: "rb_capacity ?P \<noteq> 0" using assms(5) by (simp add: rb_window_def)
  then have i: "?i + cw = rb_capacity ?P" "0 < cw" using get_idx_less[of "rb_length ?P" ?P] cwi idx_in_storage[of ?P "rb_length ?P"] by (simp_all add: rb_capacity_def)
  have "?i \<noteq> 0" using i assms(5) by (auto simp: rb_window_def)
  obtain M where M: "pb_push_metadata (pm_padding cw) B = Inr (Ok (), B\<lparr>pb_metadata := M\<rparr>)" "rb_ok M" "contents M = contents (pb_metadata B) @ [pm_padding cw]"
    by (rule push_metadata_spec[OF ok(1) assms(2), of "pm_padding cw"])
  obtain P ys where P: "rb_enqueue_many cw ?P = Inr ((rb_get_idx (rb_length ?P) (rb_rewind ?P), cw), P)" "rb_ok P" "contents P = contents ?P @ ys" "length ys = cw"
      "rb_length P = rb_length ?P + cw" "rb_capacity P = rb_capacity ?P" "rb_read_at P = rb_read_at (rb_rewind ?P)"
    by (rule enqueue_many_spec[OF ok(2), of cw]) (use cw assms(3) in auto)
  have w: "rb_get_idx (rb_length P) P = 0"
    using get_idx_wrap[OF cwi] get_idx_cong[OF P(6)] P(5,7) assms(3) by simp
  let ?B = "B\<lparr>pb_metadata := M, pb_payload := P\<rparr>"
  have "pb_ok ?B" "packets ?B = packets B"
    using append_ok[OF assms(1) M(2,3) P(2,3) _ P(6)] P(4,7) assms(3) i \<open>?i \<noteq> 0\<close> w by (simp_all add: pm_padding_def)
  moreover have "rb_rewind P = P" using P(5) i(2) by (simp add: rb_rewind_def)
  moreover have "rb_contiguous_window P = rb_window ?P - cw" using w P(5,6) by (simp add: rb_contiguous_window_def rb_window_def rb_len_def)
  moreover have "pb_pad cw B = Inr (Ok (), ?B)" using M(1) P(1) by (simp add: pb_pad_def)
  ultimately show thesis using that[of ?B] by simp
qed

lemma clear_spec:
  assumes "pb_ok B" and B': "B' = (if rb_is_empty (pb_payload B) then B\<lparr>pb_payload := rb_clear (pb_payload B)\<rparr> else B)"
  shows "pb_ok B'" "packets B' = packets B" "rb_rewind (pb_payload B') = pb_payload B'" "pb_metadata B' = pb_metadata B"
proof -
  let ?P = "pb_payload B" and ?ms = "contents (pb_metadata B)"
  show "rb_rewind (pb_payload B') = pb_payload B'" "pb_metadata B' = pb_metadata B"
    using B' by (simp_all add: rb_is_empty_def rb_len_def rb_rewind_def rb_clear_def)
  have "pb_ok B' \<and> packets B' = packets B"
  proof (cases "rb_is_empty ?P")
    case True
    then have len: "rb_length ?P = 0" by (simp add: rb_is_empty_def rb_len_def)
    have ok: "rb_ok (pb_metadata B)" "sizes ?ms = 0" "paddings_ok ?ms" using assms(1) len by (simp_all add: pb_ok_def Let_def)
    have "\<not> pm_is_padding (last ?ms)" if "?ms \<noteq> []" using paddings_zero[OF ok(3,2), of "last ?ms"] that by simp
    moreover have "rb_ok (rb_clear ?P)" by (simp add: rb_ok_def rb_clear_def rb_capacity_def)
    ultimately show ?thesis using True B' ok len placed_zero[OF ok(2)]
      by (auto simp: pb_ok_def packets_def Let_def rb_clear_def contents_def)
  qed (use assms in simp)
  then show "pb_ok B'" "packets B' = packets B" by simp_all
qed

lemma enqueue_spec:
  assumes "pb_ok B"
  obtains (ok) at B' where "pb_enqueue n h B = Inr (Ok (at, n), B')"
      "\<forall>xs. length xs = n \<longrightarrow> pb_ok (pb_write at xs B') \<and> packets (pb_write at xs B') = packets B @ [(h, xs)]"
  | (full) B' where "pb_enqueue n h B = Inr (Err Full, B')" "pb_ok B'" "packets B' = packets B"
proof (cases "rb_capacity (pb_payload B) < n \<or> rb_is_full (pb_metadata B)")
  case True
  then show ?thesis using full[of B] assms by (simp add: pb_enqueue_def)
next
  case False
  define C where "C = (if rb_is_empty (pb_payload B) then B\<lparr>pb_payload := rb_clear (pb_payload B)\<rparr> else B)"
  note C = clear_spec[OF assms C_def]
  define cw where "cw = rb_contiguous_window (pb_payload C)"
  let ?w = "rb_window (pb_payload C)"
  let ?tail = "\<lambda>B. and_then (pb_push_metadata (pm_packet n h) B) (\<lambda>(r, B). case r of
        Err e \<Rightarrow> Inr (Err e, B)
      | Ok _ \<Rightarrow> and_then (rb_enqueue_many n (pb_payload B)) (\<lambda>(payload_buf, P).
          if snd payload_buf \<noteq> n then Inl Assertion_Failed else Inr (Ok payload_buf, B\<lparr>pb_payload := P\<rparr>)))"
  have eq: "pb_enqueue n h B = (if ?w < n then Inr (Err Full, C) else if cw < n \<and> ?w - cw < n then Inr (Err Full, C)
      else and_then (if cw < n then pb_pad cw C else Inr (Ok (), C)) (\<lambda>(r, B). case r of Err e \<Rightarrow> Inr (Err e, B) | Ok _ \<Rightarrow> ?tail B))"
    unfolding pb_enqueue_def C_def[symmetric] Let_def cw_def using False by simp
  have nf: "\<not> rb_is_full (pb_metadata C)" using False C(4) by simp
  consider (no) "?w < n \<or> (cw < n \<and> ?w - cw < n)" | (fits) "n \<le> ?w" "n \<le> cw" | (pad) "n \<le> ?w" "cw < n" "n \<le> ?w - cw" by linarith
  then show ?thesis
  proof cases
    case no
    then show ?thesis using full[of C] eq C by auto
  next
    case fits
    have n: "n \<le> rb_contiguous_window (pb_payload C)" using fits(2) by (simp only: cw_def)
    obtain at B' where t: "?tail C = Inr (Ok (at, n), B')" "\<forall>xs. length xs = n \<longrightarrow> pb_ok (pb_write at xs B') \<and> packets (pb_write at xs B') = packets C @ [(h, xs)]"
      by (rule enqueue_fit[OF C(1) nf n C(3)])
    have "pb_enqueue n h B = ?tail C" unfolding eq using fits by (simp only: not_le[symmetric] simp_thms if_False and_then_simps prod.case result.case)
    then show ?thesis using ok[of at B'] t C(2) by (simp only:)
  next
    case pad
    obtain D where D: "pb_pad cw C = Inr (Ok (), D)" "pb_ok D" "packets D = packets C" "rb_rewind (pb_payload D) = pb_payload D"
        "rb_contiguous_window (pb_payload D) = ?w - cw"
      by (rule pad_spec[OF C(1) nf C(3) cw_def]) (use pad in linarith)
    have "\<not> ?w < n" "\<not> (cw < n \<and> ?w - cw < n)" using pad by simp_all
    then have call: "pb_enqueue n h B = ?tail D" unfolding eq D(1) using pad(2) by (simp only: if_True if_False and_then_simps prod.case result.case)
    show ?thesis
    proof (cases "rb_is_full (pb_metadata D)")
      case True
      then have "pb_enqueue n h B = Inr (Err Full, D)" using call push_metadata_full[of D "pm_packet n h"] by simp
      then show ?thesis using full[of D] D(2,3) C(2) by simp
    next
      case False
      have n: "n \<le> rb_contiguous_window (pb_payload D)" using D(5) pad(3) by (simp only:)
      obtain at B' where t: "?tail D = Inr (Ok (at, n), B')" "\<forall>xs. length xs = n \<longrightarrow> pb_ok (pb_write at xs B') \<and> packets (pb_write at xs B') = packets D @ [(h, xs)]"
        by (rule enqueue_fit[OF D(2) False n D(4)])
      then show ?thesis using ok[of at B'] call D(3) C(2) by (simp only:)
    qed
  qed
qed

section \<open>Dequeueing packets\<close>

text \<open>The first piece of metadata and its octets are removed.\<close>

lemma drop_spec:
  assumes "pb_ok B" "contents (pb_metadata B) = m # ms"
  obtains P where "rb_dequeue_many (pm_size m) (pb_payload B) = Inr ((rb_read_at (pb_payload B), pm_size m), P)"
    "\<forall>M. rb_ok M \<and> contents M = ms \<longrightarrow> pb_ok (B\<lparr>pb_metadata := M, pb_payload := P\<rparr>)
       \<and> packets B = (case pm_header m of None \<Rightarrow> [] | Some h \<Rightarrow> [(h, take (pm_size m) (contents (pb_payload B)))]) @ packets (B\<lparr>pb_metadata := M, pb_payload := P\<rparr>)"
    "take (pm_size m) (drop (rb_read_at (pb_payload B)) (rb_storage P)) = take (pm_size m) (contents (pb_payload B))"
    "length (take (pm_size m) (contents (pb_payload B))) = pm_size m"
proof -
  let ?P = "pb_payload B" and ?n = "pm_size m"
  have ok: "rb_ok ?P" "sizes (m # ms) = rb_length ?P" "placed (rb_capacity ?P) (rb_read_at ?P) (m # ms)" "paddings_ok (m # ms)"
    "pm_is_padding (last (m # ms)) \<longrightarrow> rb_get_idx (rb_length ?P) ?P = 0" using assms by (simp_all add: pb_ok_def Let_def)
  have n: "?n \<le> rb_length ?P" "rb_read_at ?P + ?n \<le> rb_capacity ?P" using ok(2,3) by simp_all
  obtain P where P: "rb_dequeue_many ?n ?P = Inr ((rb_read_at ?P, ?n), P)" "rb_ok P" "contents P = drop ?n (contents ?P)" "rb_length P = rb_length ?P - ?n"
      "rb_capacity P = rb_capacity ?P" "rb_read_at P = rb_get_idx ?n ?P" "rb_storage P = rb_storage ?P" "take ?n (drop (rb_read_at ?P) (rb_storage ?P)) = take ?n (contents ?P)"
    by (rule dequeue_many_spec[OF ok(1) n])
  have "rb_read_at P = (rb_read_at ?P + ?n) mod rb_capacity ?P" using P(6) n(2) by (auto simp: rb_get_idx_def)
  then have "placed (rb_capacity P) (rb_read_at P) ms" using ok(3) P(5) by simp
  moreover have "rb_get_idx (rb_length P) P = rb_get_idx (rb_length ?P) ?P"
  proof -
    obtain k where "rb_length ?P = ?n + k" using n(1) le_Suc_ex by blast
    then show ?thesis using P(4-6) by (simp add: rb_get_idx_def mod_simps add.assoc)
  qed
  ultimately have "pb_ok (B\<lparr>pb_metadata := M, pb_payload := P\<rparr>)" if "rb_ok M" "contents M = ms" for M
    using that P(2,4) ok(2,4,5) by (simp add: pb_ok_def Let_def)
  moreover have "packets B = (case pm_header m of None \<Rightarrow> [] | Some h \<Rightarrow> [(h, take ?n (contents ?P))]) @ packets (B\<lparr>pb_metadata := M, pb_payload := P\<rparr>)"
    if "contents M = ms" for M using that assms(2) P(3) by (simp add: packets_def)
  ultimately show thesis using that[OF P(1)] P(7,8) n(1) length_contents[OF ok(1)] by simp
qed

lemma empty_metadata: "pb_ok B \<Longrightarrow> rb_is_empty (pb_metadata B) \<longleftrightarrow> contents (pb_metadata B) = []"
  by (auto simp: pb_ok_def Let_def rb_is_empty_def rb_len_def dest!: length_contents)

lemma dequeue_padding_spec:
  assumes "pb_ok B"
  obtains B' where "pb_dequeue_padding B = Inr B'" "pb_ok B'" "packets B' = packets B"
    "contents (pb_metadata B') \<noteq> [] \<longrightarrow> \<not> pm_is_padding (hd (contents (pb_metadata B')))"
proof (cases "contents (pb_metadata B)")
  case Nil
  then have "pb_dequeue_padding B = Inr B" using empty_metadata[OF assms] by (simp add: pb_dequeue_padding_def rb_dequeue_one_with_def)
  then show ?thesis using that[of B] assms Nil by simp
next
  case (Cons m ms)
  let ?f = "\<lambda>_ metadata. if pm_is_padding metadata
         then and_then (rb_dequeue_many (pm_size metadata) (pb_payload B)) (\<lambda>(_, P). Inr (metadata, Ok P)) else Inr (metadata, Err ())"
  have M: "rb_ok (pb_metadata B)" using assms by (simp add: pb_ok_def Let_def)
  show ?thesis
  proof (cases "pm_is_padding m")
    case True
    obtain P where P: "rb_dequeue_many (pm_size m) (pb_payload B) = Inr ((rb_read_at (pb_payload B), pm_size m), P)"
      "\<forall>M. rb_ok M \<and> contents M = ms \<longrightarrow> pb_ok (B\<lparr>pb_metadata := M, pb_payload := P\<rparr>)
         \<and> packets B = (case pm_header m of None \<Rightarrow> [] | Some h \<Rightarrow> [(h, take (pm_size m) (contents (pb_payload B)))]) @ packets (B\<lparr>pb_metadata := M, pb_payload := P\<rparr>)"
      by (rule drop_spec[OF assms Cons]) blast
    have "?f (rb_read_at (pb_metadata B)) m = Inr (m, Ok P)" using True P(1) by simp
    then obtain M' where M': "rb_dequeue_one_with ?f (pb_metadata B) = Inr (Ok (Ok P), M')" "rb_ok M'" "contents M' = ms"
      using dequeue_one_with_spec[OF M Cons, of ?f m "Ok P"] by auto
    have "paddings_ok (m # ms)" using assms Cons by (simp add: pb_ok_def Let_def)
    then have "ms \<noteq> [] \<longrightarrow> \<not> pm_is_padding (hd ms)" using True by auto
    moreover have "pm_header m = None" using True by (simp add: pm_is_padding_def)
    ultimately show ?thesis using that[of "B\<lparr>pb_metadata := M', pb_payload := P\<rparr>"] M' P(2) by (simp add: pb_dequeue_padding_def)
  next
    case False
    then have "?f (rb_read_at (pb_metadata B)) m = Inr (m, Err ())" by simp
    then obtain M' where M': "rb_dequeue_one_with ?f (pb_metadata B) = Inr (Ok (Err ()), M')" "rb_ok M'" "contents M' = m # ms"
      using dequeue_one_with_spec[OF M Cons, of ?f m "Err ()"] by auto
    have "pb_ok (B\<lparr>pb_metadata := M'\<rparr>)" "packets (B\<lparr>pb_metadata := M'\<rparr>) = packets B"
      using assms M'(2,3) Cons by (simp_all add: pb_ok_def packets_def Let_def)
    then show ?thesis using that[of "B\<lparr>pb_metadata := M'\<rparr>"] M'(1,3) False by (simp add: pb_dequeue_padding_def)
  qed
qed

lemma dequeue_spec:
  assumes "pb_ok B"
  obtains (packet) h xs at B' where "packets B = (h, xs) # packets B'" "pb_dequeue B = Inr (Ok (h, at, length xs), B')" "pb_ok B'"
      "take (length xs) (drop at (rb_storage (pb_payload B'))) = xs"
  | (none) B' where "packets B = []" "pb_dequeue B = Inr (Err Empty, B')" "pb_ok B'" "packets B' = []"
proof -
  obtain C where C: "pb_dequeue_padding B = Inr C" "pb_ok C" "packets C = packets B"
      "contents (pb_metadata C) \<noteq> [] \<longrightarrow> \<not> pm_is_padding (hd (contents (pb_metadata C)))"
    by (rule dequeue_padding_spec[OF assms])
  show thesis
  proof (cases "contents (pb_metadata C)")
    case Nil
    then have "pb_dequeue B = Inr (Err Empty, C)"
      using C(1) empty_metadata[OF C(2)] by (simp add: pb_dequeue_def rb_dequeue_one_def rb_dequeue_one_with_def)
    moreover have "packets C = []" using Nil by (simp add: packets_def)
    ultimately show ?thesis using none[of C] C(2,3) by simp
  next
    case (Cons m ms)
    then obtain h where h: "pm_header m = Some h" using C(4) by (auto simp: pm_is_padding_def)
    have M: "rb_ok (pb_metadata C)" using C(2) by (simp add: pb_ok_def Let_def)
    let ?xs = "take (pm_size m) (contents (pb_payload C))" and ?i = "rb_read_at (pb_metadata C)"
    obtain P where P: "rb_dequeue_many (pm_size m) (pb_payload C) = Inr ((rb_read_at (pb_payload C), pm_size m), P)"
      "\<forall>M. rb_ok M \<and> contents M = ms \<longrightarrow> pb_ok (C\<lparr>pb_metadata := M, pb_payload := P\<rparr>)
         \<and> packets C = (case pm_header m of None \<Rightarrow> [] | Some h \<Rightarrow> [(h, ?xs)]) @ packets (C\<lparr>pb_metadata := M, pb_payload := P\<rparr>)"
      "take (pm_size m) (drop (rb_read_at (pb_payload C)) (rb_storage P)) = ?xs" "length ?xs = pm_size m"
      by (rule drop_spec[OF C(2) Cons]) blast
    obtain M' where M': "rb_dequeue_one (pb_metadata C) = Inr (Ok ?i, M')" "vec_get (rb_storage M') ?i = Inr m"
      "\<And>y. rb_ok (M'\<lparr>rb_storage := (rb_storage M')[?i := y]\<rparr>)" "\<And>y. contents (M'\<lparr>rb_storage := (rb_storage M')[?i := y]\<rparr>) = ms"
      by (rule dequeue_one_spec[OF M Cons]) blast
    let ?M = "M'\<lparr>rb_storage := (rb_storage M')[?i := m\<lparr>pm_header := None\<rparr>]\<rparr>"
    let ?B = "C\<lparr>pb_metadata := ?M, pb_payload := P\<rparr>"
    have call: "pb_dequeue B = Inr (Ok (h, rb_read_at (pb_payload C), length ?xs), ?B)"
      using C(1) M'(1,2) P(1) h unfolding pb_dequeue_def P(4) by (simp add: Let_def)
    have "pb_ok ?B" "packets C = (h, ?xs) # packets ?B" using P(2) M'(3,4)[of "m\<lparr>pm_header := None\<rparr>"] h by simp_all
    then show ?thesis using packet[OF _ call] P(3,4) C(3) by simp
  qed
qed

text \<open>
  C9. In a packet buffer that \<open>new\<close>, \<open>enqueue\<close> and \<open>dequeue\<close> have made, \<open>enqueue\<close> either returns a slice of the size asked for, and
  the packet with the octets the caller writes there follows the others, or it reports that the buffer is full and the packets are
  as before. \<open>dequeue\<close> returns the header and exactly the octets of the oldest packet, whatever padding and whatever
  wrap-around of the storage there was, and reports an empty buffer only when there is no packet. Nothing panics.
\<close>

theorem packet_buffer_refines_fifo:
  assumes "pb_ok B"
  shows "((\<exists>at B'. pb_enqueue n h B = Inr (Ok (at, n), B')
        \<and> (\<forall>xs. length xs = n \<longrightarrow> pb_ok (pb_write at xs B') \<and> packets (pb_write at xs B') = packets B @ [(h, xs)]))
      \<or> (\<exists>B'. pb_enqueue n h B = Inr (Err Full, B') \<and> pb_ok B' \<and> packets B' = packets B))
    \<and> (case packets B of
         [] \<Rightarrow> \<exists>B'. pb_dequeue B = Inr (Err Empty, B') \<and> pb_ok B' \<and> packets B' = []
       | (h, xs) # ps \<Rightarrow> \<exists>at B'. pb_dequeue B = Inr (Ok (h, at, length xs), B') \<and> pb_ok B' \<and> packets B' = ps
           \<and> take (length xs) (drop at (rb_storage (pb_payload B'))) = xs)"
proof (rule conjI)
  show "(\<exists>at B'. pb_enqueue n h B = Inr (Ok (at, n), B')
        \<and> (\<forall>xs. length xs = n \<longrightarrow> pb_ok (pb_write at xs B') \<and> packets (pb_write at xs B') = packets B @ [(h, xs)]))
      \<or> (\<exists>B'. pb_enqueue n h B = Inr (Err Full, B') \<and> pb_ok B' \<and> packets B' = packets B)"
    by (rule enqueue_spec[OF assms, of n h]) blast+
  show "case packets B of
         [] \<Rightarrow> \<exists>B'. pb_dequeue B = Inr (Err Empty, B') \<and> pb_ok B' \<and> packets B' = []
       | (h, xs) # ps \<Rightarrow> \<exists>at B'. pb_dequeue B = Inr (Ok (h, at, length xs), B') \<and> pb_ok B' \<and> packets B' = ps
           \<and> take (length xs) (drop at (rb_storage (pb_payload B'))) = xs"
    by (rule dequeue_spec[OF assms]) auto
qed

lemma new_ok: "pb_ok (pb_new ms bs)" "packets (pb_new ms bs) = []"
  by (simp_all add: pb_ok_def pb_new_def packets_def rb_new_def rb_ok_def rb_capacity_def contents_def Let_def)

definition sample_buffer :: "nat packet_buffer" where
  "sample_buffer = pb_new [pm_EMPTY] [0, 0]"

lemma sample_enqueue: "pb_enqueue 2 7 sample_buffer
   = Inr (Ok (0, 2), \<lparr>pb_metadata = \<lparr>rb_storage = [pm_packet 2 7], rb_read_at = 0, rb_length = 1\<rparr>, pb_payload = \<lparr>rb_storage = [0, 0], rb_read_at = 0, rb_length = 2\<rparr>\<rparr>)"
  by code_simp

theorem packet_buffer_refines_fifo_witness:
  "pb_ok sample_buffer \<and> (\<exists>B'. pb_enqueue 2 7 sample_buffer = Inr (Ok (0, 2), B') \<and> packets (pb_write 0 [5, 6] B') = [(7, [5, 6])])"
proof -
  have ok: "pb_ok sample_buffer" "packets sample_buffer = []" unfolding sample_buffer_def by (rule new_ok)+
  have "length [5 :: u8, 6] = 2" by simp
  then show ?thesis using packet_buffer_refines_fifo[OF ok(1), of 2 7] ok sample_enqueue by auto
qed


text \<open>
  Without the clearing that \<open>enqueue\<close> does first, \<open>enqueue_with_infallible\<close> refuses a packet that an empty buffer has room for.
\<close>

theorem empty_buffer_refuses:
  "and_then (pb_enqueue 2 1 (pb_new [pm_EMPTY, pm_EMPTY] [0, 0, 0, 0] :: nat packet_buffer)) (\<lambda>(_, B).
   and_then (pb_dequeue B) (\<lambda>(_, B).
   and_then (pb_enqueue_with_infallible 3 2 (\<lambda>d. Inr (d, 3)) B) (\<lambda>(r1, _).
   and_then (pb_enqueue 3 2 B) (\<lambda>(r2, _). Inr (pb_is_empty B, r1, r2)))))
   = Inr (True, Err Full, Ok (0, 3))"
  by code_simp

end
