(* ===== verification/Tcp_Receive.thy ===== *)
theory Tcp_Receive
  imports Ring_Access Assembler "HOL-Library.Word"
begin

text \<open>
  How a TCP socket receives data (\<open>smoltcp/src/socket/tcp.rs\<close>): sequence numbers (\<open>wire/tcp.rs\<close>), the test whether a segment is
  in the receive window and the part of it that is kept, the placement of its octets in the receive buffer with the help of the
  assembler, and \<open>recv_slice\<close>, by which the application takes them out. The socket is in one of the states in which it is
  synchronized with the other end; the fields of the socket that only matter for acknowledgements, timers and the send side are
  left out.
\<close>

section \<open>Sequence numbers\<close>

text \<open>A sequence number is an \<open>i32\<close>: a word of 32 bits that \<open>sint\<close> reads.\<close>

type_synonym seq_number = "32 word"

definition seq_add :: "seq_number \<Rightarrow> usize \<Rightarrow> seq_number rust" where
  "seq_add s rhs = (if rhs > 2 ^ 31 - 1 then Inl Explicit_Panic else Inr (s + of_nat rhs))"

definition seq_sub :: "seq_number \<Rightarrow> usize \<Rightarrow> seq_number rust" where
  "seq_sub s rhs = (if rhs > 2 ^ 31 - 1 then Inl Explicit_Panic else Inr (s - of_nat rhs))"

definition seq_diff :: "seq_number \<Rightarrow> seq_number \<Rightarrow> usize rust" where
  "seq_diff s rhs = (let result = s - rhs in if sint result < 0 then Inl Explicit_Panic else Inr (nat (sint result)))"

definition seq_lt :: "seq_number \<Rightarrow> seq_number \<Rightarrow> bool" where
  "seq_lt s other \<longleftrightarrow> sint (s - other) < 0"

definition seq_le :: "seq_number \<Rightarrow> seq_number \<Rightarrow> bool" where
  "seq_le s other \<longleftrightarrow> sint (s - other) \<le> 0"

definition seq_gt :: "seq_number \<Rightarrow> seq_number \<Rightarrow> bool" where
  "seq_gt s other \<longleftrightarrow> sint (s - other) > 0"

definition seq_max :: "seq_number \<Rightarrow> seq_number \<Rightarrow> seq_number" where
  "seq_max s rhs = (if seq_gt s rhs then s else rhs)"

definition seq_min :: "seq_number \<Rightarrow> seq_number \<Rightarrow> seq_number" where
  "seq_min s rhs = (if seq_lt s rhs then s else rhs)"

section \<open>The receive path\<close>

record tcp_rx =
  tr_remote_seq_no :: seq_number
  tr_rx_buffer :: "u8 ring_buffer"
  tr_assembler :: assembler

definition segment_in_window :: "seq_number \<Rightarrow> seq_number \<Rightarrow> seq_number \<Rightarrow> seq_number \<Rightarrow> bool rust" where
  "segment_in_window segment_start segment_end window_start window_end =
     and_then (seq_sub window_start 1) (\<lambda>before.
     Inr (if segment_start = segment_end \<and> segment_end = before then False
          else if segment_start = segment_end \<and> window_start = window_end then window_start = segment_start
          else if segment_start = segment_end then seq_le window_start segment_start \<and> seq_lt segment_start window_end
          else if window_start = window_end then False
          else (seq_le window_start segment_start \<and> seq_lt segment_start window_end)
             \<or> (seq_lt window_start segment_end \<and> seq_le segment_end window_end)))"

text \<open>The part of the payload in the window and its offset; \<open>None\<close> where the segment is answered by an acknowledgement only.\<close>

definition tcp_trim :: "seq_number \<Rightarrow> u8 list \<Rightarrow> tcp_rx \<Rightarrow> (u8 list \<times> usize) option rust" where
  "tcp_trim seq_number payload T =
     and_then (seq_add (tr_remote_seq_no T) (rb_len (tr_rx_buffer T))) (\<lambda>window_start.
     and_then (seq_add (tr_remote_seq_no T) (rb_capacity (tr_rx_buffer T))) (\<lambda>window_end.
     let segment_start = seq_number in
     and_then (seq_add seq_number (length payload)) (\<lambda>segment_end.
     and_then (segment_in_window segment_start segment_end window_start window_end) (\<lambda>inside.
     if \<not> inside then Inr None
     else
       let overlap_start = seq_max window_start segment_start;
           overlap_end = seq_min window_end segment_end
       in if \<not> seq_le overlap_start overlap_end then Inl Assertion_Failed
          else
            and_then (seq_diff overlap_start segment_start) (\<lambda>a.
            and_then (seq_diff overlap_end segment_start) (\<lambda>b.
            and_then (slice payload a b) (\<lambda>payload.
            and_then (seq_diff overlap_start window_start) (\<lambda>payload_offset.
            Inr (Some (payload, payload_offset))))))))))"

definition tcp_place :: "u8 list \<Rightarrow> usize \<Rightarrow> tcp_rx \<Rightarrow> tcp_rx rust" where
  "tcp_place payload payload_offset T =
     (if length payload = 0 then Inr T
      else
        and_then (add_then_remove_front payload_offset (length payload) (tr_assembler T)) (\<lambda>(res, assembler).
        let T = T\<lparr>tr_assembler := assembler\<rparr> in
        case res of
          Err _ \<Rightarrow> Inr T
        | Ok contig_len \<Rightarrow>
            and_then (rb_write_unallocated payload_offset payload (tr_rx_buffer T)) (\<lambda>(len_written, rx).
            if len_written \<noteq> length payload then Inl Assertion_Failed
            else if contig_len \<noteq> 0
            then and_then (rb_enqueue_unallocated contig_len rx) (\<lambda>rx. Inr (T\<lparr>tr_rx_buffer := rx\<rparr>))
            else Inr (T\<lparr>tr_rx_buffer := rx\<rparr>))))"

definition tcp_process :: "seq_number \<Rightarrow> u8 list \<Rightarrow> tcp_rx \<Rightarrow> tcp_rx rust" where
  "tcp_process seq_number payload T =
     and_then (tcp_trim seq_number payload T) (\<lambda>r.
     case r of None \<Rightarrow> Inr T | Some (payload, payload_offset) \<Rightarrow> tcp_place payload payload_offset T)"

text \<open>Reading, while the receive half of the connection is open.\<close>

definition tcp_recv_impl :: "(u8 ring_buffer \<Rightarrow> ((usize \<times> 'r) \<times> u8 ring_buffer) rust) \<Rightarrow> tcp_rx \<Rightarrow> ('r \<times> tcp_rx) rust" where
  "tcp_recv_impl f T =
     and_then (f (tr_rx_buffer T)) (\<lambda>((n, result), rx).
     and_then (seq_add (tr_remote_seq_no T) n) (\<lambda>s.
     Inr (result, T\<lparr>tr_rx_buffer := rx, tr_remote_seq_no := s\<rparr>)))"

definition tcp_recv :: "(nat \<Rightarrow> u8 list \<Rightarrow> (u8 list \<times> usize \<times> 'r) rust) \<Rightarrow> tcp_rx \<Rightarrow> ('r \<times> tcp_rx) rust" where
  "tcp_recv f T = tcp_recv_impl (rb_dequeue_many_with f) T"

text \<open>The slice of the application is passed in and returned with the number of octets.\<close>

definition tcp_recv_slice :: "u8 list \<Rightarrow> tcp_rx \<Rightarrow> ((usize \<times> u8 list) \<times> tcp_rx) rust" where
  "tcp_recv_slice data T =
     tcp_recv_impl (\<lambda>rx_buffer. and_then (rb_dequeue_slice data rx_buffer) (\<lambda>(n, data, rx). Inr ((n, (n, data)), rx))) T"

section \<open>Sequence numbers of a stream\<close>




text \<open>A segment of the stream at position \<open>q\<close>, not too far from what was read so far.\<close>

definition near :: "nat \<Rightarrow> nat \<Rightarrow> nat \<Rightarrow> bool" where
  "near pos q n \<longleftrightarrow> q \<le> pos + 2 ^ 30 \<and> pos < q + 2 ^ 30 \<and> n \<le> 2 ^ 16"




section \<open>Placing and reading octets\<close>





section \<open>All segments of a stream, in any order\<close>

text \<open>What the application has read so far, and the socket; segments of the stream arrive anywhere near the window, any number of times.\<close>

inductive tcp_step :: "(nat \<Rightarrow> u8) \<Rightarrow> seq_number \<Rightarrow> u8 list \<times> tcp_rx \<Rightarrow> u8 list \<times> tcp_rx \<Rightarrow> bool" for d isn where
  step_segment: "\<lbrakk>near (length out) q n; tcp_process (isn + of_nat q) (map d [q ..< q + n]) T = Inr T'\<rbrakk> \<Longrightarrow> tcp_step d isn (out, T) (out, T')"
| step_recv: "tcp_recv_slice data T = Inr ((n, data'), T') \<Longrightarrow> tcp_step d isn (out, T) (out @ take n data', T')"

inductive_cases tcp_stepE: "tcp_step d isn s s'"

















end
