(* ===== verification/Spec2Isabelle.thy ===== *)
theory Spec2Isabelle
  imports Aw_Prelude Ring_Queue Delta_List Prio_Queue Dag_Graph Btree_Map Dag_Deadline Dag_Registry
    Scheduler_Types Binary_Heap Kernel_State Schedulers Task_Ops Executor Queue_Laws Run_Queue
    Runtime_Wake Runtime_Spawn Runtime_Preempt Runtime_Switch Union_Find
    Graph_Algo Aw_Time Pub_Sub Dag_Build Dag_Rules
    Channels Sleeping Async_Sync
    Wire_Base Wire_Ip Wire_Udp Wire_Link Slices Ring_Buffer Ring_Access Assembler Packet_Buffer Tcp_Receive
begin

text \<open>
  A verification development for Awkernel.
\<close>

end
